(* ===== verification/Prelude.thy ===== *)
theory Prelude
  imports Main "HOL-Library.Word"
begin

text \<open>
  Shared vocabulary of the development: bytes and machine words, the outcome of a Go
  function (a value, an error return, or a panic), the error monad the handlers are
  written in, and the big-endian encodings of \<open>encoding/binary\<close> and \<open>math/big\<close>
  with their round trips.
\<close>

unbundle bit_operations_syntax

named_theorems result_simps \<open>evaluation and inversion of the error monad\<close>
named_theorems be_simps \<open>big-endian encodings\<close>

type_synonym byte = "8 word"
type_synonym bytes = "byte list"
type_synonym u32 = "32 word"
type_synonym u64 = "64 word"

section \<open>Outcomes\<close>

text \<open>
  An error return carries what callers can distinguish (\<open>errors.Is\<close> on the sentinel
  errors) or its message; \<open>Panic\<close> is a run-time panic (nil dereference, index out of
  range, \<open>big.Int.FillBytes\<close> overflow), which no code below recovers. \<open>errors.Wrap\<close>
  keeps its cause, and the model keeps the cause only.
\<close>

datatype go_err =
    ErrInvalidStateTransition
  | ErrNotFound
  | ErrMsg string
  | Panic

type_synonym 'a result = "go_err + 'a"

definition bindE :: "'e + 'a \<Rightarrow> ('a \<Rightarrow> 'e + 'b) \<Rightarrow> 'e + 'b" where
  "bindE m f = (case m of Inl e \<Rightarrow> Inl e | Inr x \<Rightarrow> f x)"

definition guardE :: "bool \<Rightarrow> 'e \<Rightarrow> 'e + unit" where
  "guardE b e = (if b then Inr () else Inl e)"

definition okE :: "'e + 'a \<Rightarrow> bool" where
  "okE m = (case m of Inl _ \<Rightarrow> False | Inr _ \<Rightarrow> True)"

text \<open>
  \<open>wrapE e m\<close>: an error return of \<open>m\<close> is replaced by the error \<open>e\<close> (the
  \<open>if err != nil { return e }\<close> idiom); a panic stays a panic.
\<close>

definition wrapE :: "go_err \<Rightarrow> 'a result \<Rightarrow> 'a result" where
  "wrapE e m = (case m of
     Inl Panic \<Rightarrow> Inl Panic
   | Inl _ \<Rightarrow> Inl e
   | Inr x \<Rightarrow> Inr x)"

text \<open>Reading a nil pointer panics.\<close>

definition derefE :: "'a option \<Rightarrow> 'a result" where
  "derefE p = (case p of None \<Rightarrow> Inl Panic | Some x \<Rightarrow> Inr x)"

lemma bindE_Inl [simp]: "bindE (Inl e) f = Inl e"
  by (simp add: bindE_def)

lemma bindE_Inr [simp]: "bindE (Inr x) f = f x"
  by (simp add: bindE_def)

lemma bindE_eq_Inr [result_simps]:
  "bindE m f = Inr y \<longleftrightarrow> (\<exists>x. m = Inr x \<and> f x = Inr y)"
  by (cases m) simp_all

lemma bindE_eq_Inl:
  "bindE m f = Inl e \<longleftrightarrow> m = Inl e \<or> (\<exists>x. m = Inr x \<and> f x = Inl e)"
  by (cases m) simp_all

lemma bindE_assoc: "bindE (bindE m f) g = bindE m (\<lambda>x. bindE (f x) g)"
  by (cases m) simp_all

lemma guardE_True [simp]: "guardE True e = Inr ()"
  by (simp add: guardE_def)

lemma guardE_False [simp]: "guardE False e = Inl e"
  by (simp add: guardE_def)

lemma guardE_eq_Inr [result_simps]: "guardE b e = Inr u \<longleftrightarrow> b"
  by (simp add: guardE_def)

lemma guardE_eq_Inl: "guardE b e = Inl e' \<longleftrightarrow> \<not> b \<and> e' = e"
  by (auto simp: guardE_def)

lemma okE_Inr [simp]: "okE (Inr x)"
  by (simp add: okE_def)

lemma okE_Inl [simp]: "\<not> okE (Inl e)"
  by (simp add: okE_def)

lemma okE_iff: "okE m \<longleftrightarrow> (\<exists>x. m = Inr x)"
  by (cases m) simp_all

lemma wrapE_Inr [simp]: "wrapE e (Inr x) = Inr x"
  by (simp add: wrapE_def)

lemma wrapE_eq_Inr [result_simps]: "wrapE e m = Inr x \<longleftrightarrow> m = Inr x"
  by (auto simp: wrapE_def split: sum.splits go_err.splits)

lemma wrapE_Panic [simp]: "wrapE e (Inl Panic) = Inl Panic"
  by (simp add: wrapE_def)

lemma derefE_eq_Inr [result_simps]: "derefE p = Inr x \<longleftrightarrow> p = Some x"
  by (cases p) (auto simp: derefE_def)

lemma derefE_Some [simp]: "derefE (Some x) = Inr x"
  by (simp add: derefE_def)

lemma derefE_None [simp]: "derefE None = Inl Panic"
  by (simp add: derefE_def)

text \<open>Running a fallible operation over a list, stopping at the first failure.\<close>

fun mapE :: "('a \<Rightarrow> 'e + 'b) \<Rightarrow> 'a list \<Rightarrow> 'e + 'b list" where
  "mapE f [] = Inr []"
| "mapE f (x # xs) = bindE (f x) (\<lambda>y. bindE (mapE f xs) (\<lambda>ys. Inr (y # ys)))"

fun foldE :: "('s \<Rightarrow> 'a \<Rightarrow> 'e + 's) \<Rightarrow> 's \<Rightarrow> 'a list \<Rightarrow> 'e + 's" where
  "foldE f s [] = Inr s"
| "foldE f s (x # xs) = bindE (f s x) (\<lambda>s'. foldE f s' xs)"

lemma mapE_length: "mapE f xs = Inr ys \<Longrightarrow> length ys = length xs"
  by (induction xs arbitrary: ys) (auto simp: result_simps)

lemma mapE_all2: "mapE f xs = Inr ys \<longleftrightarrow> list_all2 (\<lambda>x y. f x = Inr y) xs ys"
  by (induction xs arbitrary: ys) (auto simp: result_simps list_all2_Cons1)

lemma foldE_append: "foldE f s (xs @ ys) = bindE (foldE f s xs) (\<lambda>s'. foldE f s' ys)"
  by (induction xs arbitrary: s) (simp_all add: bindE_assoc)

lemma foldE_invariant:
  assumes "foldE f s xs = Inr t" and "P s"
    and "\<And>a x b. x \<in> set xs \<Longrightarrow> P a \<Longrightarrow> f a x = Inr b \<Longrightarrow> P b"
  shows "P t"
  using assms
proof (induction xs arbitrary: s)
  case Nil
  then show ?case by simp
next
  case (Cons x xs)
  from Cons.prems(1) obtain s' where "f s x = Inr s'" "foldE f s' xs = Inr t"
    by (auto simp: result_simps)
  moreover have "P s'"
    using Cons.prems \<open>f s x = Inr s'\<close> by auto
  ultimately show ?case
    using Cons.IH Cons.prems(3) by auto
qed

section \<open>Big-endian numbers\<close>

text \<open>
  \<open>be_of_nat n x\<close> is the \<open>n\<close>-byte big-endian form of \<open>x\<close> (modulo \<open>256 ^ n\<close>);
  \<open>nat_of_be\<close> is \<open>big.Int.SetBytes\<close>.
\<close>

fun be_of_nat :: "nat \<Rightarrow> nat \<Rightarrow> bytes" where
  "be_of_nat 0 x = []"
| "be_of_nat (Suc n) x = of_nat (x div 256 ^ n) # be_of_nat n x"

fun nat_of_be :: "bytes \<Rightarrow> nat" where
  "nat_of_be [] = 0"
| "nat_of_be (b # bs) = unat b * 256 ^ length bs + nat_of_be bs"

lemma length_be_of_nat [simp]: "length (be_of_nat n x) = n"
  by (induction n) simp_all

lemma nat_of_be_less: "nat_of_be bs < 256 ^ length bs"
proof (induction bs)
  case Nil
  then show ?case by simp
next
  case (Cons b bs)
  have "unat b < 256"
    using unsigned_less [of b] by simp
  then have "Suc (unat b) * 256 ^ length bs \<le> 256 * 256 ^ length bs"
    by (intro mult_le_mono1) simp
  then have "unat b * 256 ^ length bs + 256 ^ length bs \<le> 256 ^ length (b # bs)"
    by (simp only: mult_Suc power_Suc list.size add.commute) simp
  with Cons.IH show ?case
    by (simp only: nat_of_be.simps)
qed

lemma mod_div_step: "x mod (b * a) = (x div a mod b) * a + x mod a" for x a b :: nat
  by (metis add.commute mod_mult2_eq mult.commute)

lemma nat_of_be_of_nat [be_simps]: "nat_of_be (be_of_nat n x) = x mod 256 ^ n"
proof (induction n)
  case 0
  then show ?case by simp
next
  case (Suc n)
  have "unat (of_nat (x div 256 ^ n) :: byte) = x div 256 ^ n mod 256"
    by (simp add: unat_of_nat)
  with Suc mod_div_step [of x 256 "256 ^ n"] show ?case by simp
qed

lemma be_of_nat_cong: "x mod 256 ^ n = y mod 256 ^ n \<Longrightarrow> be_of_nat n x = be_of_nat n y"
proof (induction n)
  case 0
  then show ?case by simp
next
  case (Suc n)
  have eq: "x mod (256 * 256 ^ n) = y mod (256 * 256 ^ n)"
    using Suc.prems by simp
  have "x mod 256 ^ n = x mod (256 * 256 ^ n) mod 256 ^ n"
    by (simp add: mod_mod_cancel)
  also have "\<dots> = y mod 256 ^ n"
    by (simp add: eq mod_mod_cancel)
  finally have low: "x mod 256 ^ n = y mod 256 ^ n" .
  have "x div 256 ^ n mod 256 = x mod (256 * 256 ^ n) div 256 ^ n"
    by (simp add: mod_div_step)
  also have "\<dots> = y mod (256 * 256 ^ n) div 256 ^ n"
    by (simp only: eq)
  also have "\<dots> = y div 256 ^ n mod 256"
    by (simp add: mod_div_step)
  finally have "(of_nat (x div 256 ^ n) :: byte) = of_nat (y div 256 ^ n)"
    by (simp add: word_unat_eq_iff unat_of_nat)
  with Suc.IH low show ?case by simp
qed

lemma be_of_nat_of_be [be_simps]: "be_of_nat (length bs) (nat_of_be bs) = bs"
proof (induction bs)
  case Nil
  then show ?case by simp
next
  case (Cons b bs)
  have lt: "nat_of_be bs < 256 ^ length bs" by (rule nat_of_be_less)
  then have "nat_of_be (b # bs) div 256 ^ length bs = unat b"
    by (simp add: div_mult_self1)
  moreover have "be_of_nat (length bs) (nat_of_be (b # bs)) = be_of_nat (length bs) (nat_of_be bs)"
    by (rule be_of_nat_cong) simp
  ultimately show ?case
    using Cons.IH by simp
qed

lemma be_of_nat_inject:
  "x < 256 ^ n \<Longrightarrow> y < 256 ^ n \<Longrightarrow> be_of_nat n x = be_of_nat n y \<longleftrightarrow> x = y"
  by (metis mod_less nat_of_be_of_nat)

lemma nat_of_be_inject: "length a = length b \<Longrightarrow> nat_of_be a = nat_of_be b \<longleftrightarrow> a = b"
  by (metis be_of_nat_of_be)

text \<open>\<open>(*big.Int).FillBytes(make([]byte, n))\<close> panics when the value does not fit.\<close>

definition fill_bytes :: "nat \<Rightarrow> nat \<Rightarrow> bytes result" where
  "fill_bytes n x = (if x < 256 ^ n then Inr (be_of_nat n x) else Inl Panic)"

lemma fill_bytes_eq_Inr [result_simps]:
  "fill_bytes n x = Inr bs \<longleftrightarrow> x < 256 ^ n \<and> bs = be_of_nat n x"
  by (auto simp: fill_bytes_def)

lemma fill_bytes_value: "fill_bytes n x = Inr bs \<Longrightarrow> nat_of_be bs = x \<and> length bs = n"
  by (auto simp: result_simps be_simps)

text \<open>\<open>binary.BigEndian\<close>: the readers panic on a short slice.\<close>

definition be_put_uint64 :: "u64 \<Rightarrow> bytes" where
  "be_put_uint64 w = be_of_nat 8 (unat w)"

definition be_put_uint32 :: "u32 \<Rightarrow> bytes" where
  "be_put_uint32 w = be_of_nat 4 (unat w)"

definition be_uint64 :: "bytes \<Rightarrow> u64 result" where
  "be_uint64 bs = (if length bs < 8 then Inl Panic else Inr (of_nat (nat_of_be (take 8 bs))))"

definition be_uint32 :: "bytes \<Rightarrow> u32 result" where
  "be_uint32 bs = (if length bs < 4 then Inl Panic else Inr (of_nat (nat_of_be (take 4 bs))))"

lemma length_be_put [simp]:
  "length (be_put_uint64 w) = 8" "length (be_put_uint32 v) = 4"
  by (simp_all add: be_put_uint64_def be_put_uint32_def)

lemma be_uint64_put [be_simps]: "be_uint64 (be_put_uint64 w @ rest) = Inr w"
proof -
  have "unat w < 256 ^ 8"
    using unsigned_less [of w] by simp
  then show ?thesis
    by (simp add: be_uint64_def be_put_uint64_def be_simps)
qed

lemma be_uint32_put [be_simps]: "be_uint32 (be_put_uint32 w @ rest) = Inr w"
proof -
  have "unat w < 256 ^ 4"
    using unsigned_less [of w] by simp
  then show ?thesis
    by (simp add: be_uint32_def be_put_uint32_def be_simps)
qed

lemma be_put_uint64_inject [simp]: "be_put_uint64 v = be_put_uint64 w \<longleftrightarrow> v = w"
  by (metis append_Nil2 be_uint64_put sum.inject(2))

lemma be_put_uint32_inject [simp]: "be_put_uint32 v = be_put_uint32 w \<longleftrightarrow> v = w"
  by (metis append_Nil2 be_uint32_put sum.inject(2))

text \<open>Encoding a Go string literal as bytes.\<close>

definition str_bytes :: "string \<Rightarrow> bytes" where
  "str_bytes s = map (\<lambda>c. of_nat (of_char c)) s"

section \<open>Concatenations of fields\<close>

text \<open>A concatenation of fields of one positive length determines the fields.\<close>

lemma concat_fixed_inject:
  assumes "concat xs = concat ys" "\<forall>x\<in>set xs. length x = n" "\<forall>y\<in>set ys. length y = n" "0 < n"
  shows "xs = ys"
  using assms
proof (induction xs arbitrary: ys)
  case Nil
  then show ?case by (cases ys) auto
next
  case (Cons x xs)
  then obtain y zs where ys: "ys = y # zs" by (cases ys) auto
  with Cons.prems have "x = y \<and> concat xs = concat zs" by simp
  with Cons ys show ?case by simp
qed

lemma foldE_unit:
  "foldE (\<lambda>_. f) () xs = Inr () \<longleftrightarrow> (\<forall>x\<in>set xs. f x = Inr ())"
  by (induction xs) (auto simp: result_simps)

lemma foldE_unit_Panic:
  "(\<And>x. f x \<noteq> Inl Panic) \<Longrightarrow> foldE (\<lambda>_. f) () xs \<noteq> Inl Panic"
  by (induction xs) (auto simp: bindE_def split: sum.splits)

lemma mapE_derefE: "mapE derefE xs = Inr ys \<longleftrightarrow> xs = map Some ys"
  by (induction xs arbitrary: ys) (auto simp: result_simps)

end
