(* ===== verification/Interfaces.thy ===== *)
theory Interfaces
  imports Prelude "HOL-Library.Multiset"
begin

text \<open>
  The contracts between components, as locales: what a client of a keyed store may rely
  on, proved once here and interpreted on the trees and stores of the model.
\<close>

section \<open>Keyed stores\<close>

text \<open>
  A store of values under keys. \<open>okk\<close> is the discipline on keys the provider asks for
  (the crit-bit tree: one length), \<open>ok\<close> the provider's invariant.
\<close>

locale key_map =
  fixes ok :: "'t \<Rightarrow> bool"
    and okk :: "'k \<Rightarrow> bool"
    and emp :: 't
    and get :: "'t \<Rightarrow> 'k \<Rightarrow> 'v option"
    and put :: "'t \<Rightarrow> 'k \<Rightarrow> 'v \<Rightarrow> 't"
    and del :: "'t \<Rightarrow> 'k \<Rightarrow> 't"
  assumes ok_emp: "ok emp"
    and get_emp: "get emp k = None"
    and ok_put: "ok t \<Longrightarrow> okk k \<Longrightarrow> ok (put t k v)"
    and get_put: "ok t \<Longrightarrow> okk k \<Longrightarrow> get (put t k v) = (get t)(k \<mapsto> v)"
    and ok_del: "ok t \<Longrightarrow> ok (del t k)"
    and get_del: "ok t \<Longrightarrow> get (del t k) = (get t)(k := None)"
begin

lemma get_put_same: "ok t \<Longrightarrow> okk k \<Longrightarrow> get (put t k v) k = Some v"
  by (simp add: get_put)

lemma get_put_other: "ok t \<Longrightarrow> okk k \<Longrightarrow> k' \<noteq> k \<Longrightarrow> get (put t k v) k' = get t k'"
  by (simp add: get_put)

lemma get_del_other: "ok t \<Longrightarrow> k' \<noteq> k \<Longrightarrow> get (del t k) k' = get t k'"
  by (simp add: get_del)

lemma get_put_put: "ok t \<Longrightarrow> okk k \<Longrightarrow> get (put (put t k v) k w) = get (put t k w)"
  by (simp add: get_put ok_put)

lemma get_del_put: "ok t \<Longrightarrow> okk k \<Longrightarrow> get t k = None \<Longrightarrow> get (del (put t k v) k) = get t"
  by (auto simp: get_put get_del ok_put fun_eq_iff)

lemma put_all:
  assumes "ok t" "\<forall>(k, v) \<in> set kvs. okk k"
  shows "ok (fold (\<lambda>(k, v) t. put t k v) kvs t) \<and>
         get (fold (\<lambda>(k, v) t. put t k v) kvs t) = get t ++ map_of (rev kvs)"
  using assms
proof (induction kvs arbitrary: t)
  case Nil
  then show ?case by simp
next
  case (Cons kv kvs)
  obtain k v where kv: "kv = (k, v)" by (cases kv)
  with Cons.prems have "ok (put t k v)" and g: "get (put t k v) = (get t)(k \<mapsto> v)"
    by (auto simp: ok_put get_put)
  with Cons kv show ?case
    by (auto simp: map_add_upd_left map_add_def fun_eq_iff split: option.splits)
qed

lemma del_all:
  assumes "ok t"
  shows "ok (fold (\<lambda>k t. del t k) ks t) \<and>
         get (fold (\<lambda>k t. del t k) ks t) = (\<lambda>k. if k \<in> set ks then None else get t k)"
  using assms
proof (induction ks arbitrary: t)
  case Nil
  then show ?case by simp
next
  case (Cons k ks)
  from Cons.prems have "ok (del t k)" by (rule ok_del)
  from Cons.IH [OF this] Cons.prems show ?case by (auto simp: get_del fun_eq_iff)
qed

end

section \<open>Priority queues\<close>

text \<open>Popping until the queue is empty, at most \<open>n\<close> times.\<close>

primrec drain :: "('q \<Rightarrow> ('a \<times> 'q) option) \<Rightarrow> nat \<Rightarrow> 'q \<Rightarrow> 'a list" where
  "drain pop 0 q = []"
| "drain pop (Suc n) q = (case pop q of None \<Rightarrow> [] | Some (x, q') \<Rightarrow> x # drain pop n q')"

locale prio_queue =
  fixes ok :: "'q \<Rightarrow> bool"
    and contents :: "'q \<Rightarrow> 'a multiset"
    and emp :: 'q
    and push :: "'q \<Rightarrow> 'a \<Rightarrow> 'q"
    and pop :: "'q \<Rightarrow> ('a \<times> 'q) option"
    and prio :: "'a \<Rightarrow> 'p :: linorder"
  assumes ok_emp: "ok emp"
    and contents_emp: "contents emp = {#}"
    and pop_None: "pop q = None \<longleftrightarrow> contents q = {#}"
    and ok_push: "ok q \<Longrightarrow> ok (push q x)"
    and contents_push: "ok q \<Longrightarrow> contents (push q x) = add_mset x (contents q)"
    and ok_pop: "ok q \<Longrightarrow> pop q = Some (m, q') \<Longrightarrow> ok q'"
    and contents_pop: "ok q \<Longrightarrow> pop q = Some (m, q') \<Longrightarrow> contents q = add_mset m (contents q')"
    and pop_least: "ok q \<Longrightarrow> pop q = Some (m, q') \<Longrightarrow> x \<in># contents q \<Longrightarrow> prio m \<le> prio x"
begin

lemma push_all:
  assumes "ok q"
  shows "ok (fold (\<lambda>x q. push q x) xs q) \<and> contents (fold (\<lambda>x q. push q x) xs q) = contents q + mset xs"
  using assms by (induction xs arbitrary: q) (auto simp: ok_push contents_push)

lemma drain_sorted:
  assumes "ok q" "size (contents q) \<le> n"
  shows "mset (drain pop n q) = contents q \<and> sorted (map prio (drain pop n q))"
  using assms
proof (induction n arbitrary: q)
  case 0
  then show ?case by simp
next
  case (Suc n)
  show ?case
  proof (cases "pop q")
    case None
    then show ?thesis using pop_None [of q] by simp
  next
    case (Some mq)
    obtain m q' where mq: "mq = (m, q')" by (cases mq)
    note p = Some [unfolded mq]
    have "mset (drain pop n q') = contents q' \<and> sorted (map prio (drain pop n q'))"
      using Suc ok_pop [OF _ p] contents_pop [OF _ p] by simp
    moreover have "prio m \<le> prio x" if "x \<in># contents q'" for x
      using pop_least [OF Suc.prems(1) p] contents_pop [OF Suc.prems(1) p] that by simp
    ultimately show ?thesis
      using p contents_pop [OF Suc.prems(1) p] by (auto simp flip: set_mset_mset)
  qed
qed

end

section \<open>Request handlers\<close>

text \<open>
  Handling a sequence of requests with a shared state; the outputs of the requests that succeed,
  in order.
\<close>

primrec run_requests :: "('s \<Rightarrow> 'r \<Rightarrow> 's \<times> ('e + 'o list)) \<Rightarrow> 's \<Rightarrow> 'r list \<Rightarrow> 's \<times> 'o list" where
  "run_requests h st [] = (st, [])"
| "run_requests h st (r # rs) =
     (case h st r of
        (st', res) \<Rightarrow> case run_requests h st' rs of
          (st'', outs) \<Rightarrow> (st'', (case res of Inl _ \<Rightarrow> [] | Inr os \<Rightarrow> os) @ outs))"

text \<open>
  A handler that spends only keys that are not locked, locks what it spends, and creates what it
  spends: \<open>worth\<close> is the value of a key, \<open>spent\<close> the keys an output spends, \<open>created\<close> the value
  it creates.
\<close>

locale spending_handler =
  fixes h :: "'s \<Rightarrow> 'r \<Rightarrow> 's \<times> ('e + 'o list)"
    and locks :: "'s \<Rightarrow> 'k set"
    and spent :: "'o \<Rightarrow> 'k list"
    and created :: "'o \<Rightarrow> nat"
    and worth :: "'k \<Rightarrow> nat"
  assumes locks_grow: "h st r = (st', res) \<Longrightarrow> locks st \<subseteq> locks st'"
    and spent_fresh: "h st r = (st', Inr outs) \<Longrightarrow> set (concat (map spent outs)) \<inter> locks st = {}"
    and spent_distinct: "h st r = (st', Inr outs) \<Longrightarrow> distinct (concat (map spent outs))"
    and spent_locked: "h st r = (st', Inr outs) \<Longrightarrow> set (concat (map spent outs)) \<subseteq> locks st'"
    and balanced: "h st r = (st', Inr outs) \<Longrightarrow>
      sum_list (map created outs) = sum_list (map worth (concat (map spent outs)))"
begin

lemma run_spends_once:
  assumes "run_requests h st rs = (st', outs)"
  shows "locks st \<subseteq> locks st' \<and> set (concat (map spent outs)) \<inter> locks st = {} \<and>
     set (concat (map spent outs)) \<subseteq> locks st' \<and> distinct (concat (map spent outs))"
  using assms
proof (induction rs arbitrary: st outs)
  case Nil
  then show ?case by simp
next
  case (Cons r rs)
  obtain st1 res where h: "h st r = (st1, res)" by (cases "h st r")
  obtain outs2 where r2: "run_requests h st1 rs = (st', outs2)"
    and o: "outs = (case res of Inl _ \<Rightarrow> [] | Inr os \<Rightarrow> os) @ outs2"
    using Cons.prems h by (auto split: prod.splits)
  note IH = Cons.IH [OF r2] and g = locks_grow [OF h]
  show ?case
  proof (cases res)
    case (Inl e)
    then show ?thesis using IH g o by auto
  next
    case (Inr os)
    note hs = h [unfolded Inr]
    define A B where "A = concat (map spent os)" and "B = concat (map spent outs2)"
    have AB: "concat (map spent outs) = A @ B" unfolding o Inr A_def B_def by simp
    have A: "set A \<inter> locks st = {}" "distinct A" "set A \<subseteq> locks st1"
      unfolding A_def by (rule spent_fresh [OF hs] spent_distinct [OF hs] spent_locked [OF hs])+
    have B: "locks st1 \<subseteq> locks st'" "set B \<inter> locks st1 = {}" "set B \<subseteq> locks st'" "distinct B"
      using IH unfolding B_def by blast+
    have "set A \<inter> set B = {}" using A(3) B(2) by blast
    moreover have "set B \<inter> locks st = {}" using B(2) g by blast
    ultimately show ?thesis
      unfolding AB using A B g by (simp add: Int_Un_distrib2) (meson order_trans)
  qed
qed

lemma run_balanced:
  assumes "run_requests h st rs = (st', outs)"
  shows "sum_list (map created outs) = sum_list (map worth (concat (map spent outs)))"
  using assms
proof (induction rs arbitrary: st outs)
  case Nil
  then show ?case by simp
next
  case (Cons r rs)
  obtain st1 res where h: "h st r = (st1, res)" by (cases "h st r")
  obtain outs2 where r2: "run_requests h st1 rs = (st', outs2)"
    and o: "outs = (case res of Inl _ \<Rightarrow> [] | Inr os \<Rightarrow> os) @ outs2"
    using Cons.prems h by (auto split: prod.splits)
  show ?case
    using Cons.IH [OF r2] balanced [of st r st1] h unfolding o by (cases res) auto
qed

end

end
