(* ===== verification/CritBit.thy ===== *)
theory CritBit
  imports Interfaces
begin

text \<open>
  The crit-bit tree of \<open>node/tries/critbit_trie.go\<close>, every operation of it. A node of
  the Go code is reached through one pointer only, so the in-place updates are functional
  updates here. The first part holds the operations; the second the bit-level facts, the
  shape invariant for keys of one length (the provers' addresses are all 32 bytes) and the
  map laws; the last part what happens outside that discipline.
\<close>

section \<open>Data\<close>

text \<open>\<open>type Value struct\<close>.\<close>

record cb_value =
  Key :: bytes
  EarliestFrame :: u64
  LatestFrame :: u64
  Count :: u64

text \<open>
  \<open>Node\<close> with its two implementations: \<open>ENode{Key, Value}\<close> and
  \<open>INode{Children [2]Node, Pos, Other}\<close>.
\<close>

datatype cb_node =
    ENode bytes cb_value
  | INode cb_node cb_node nat byte

record cb_tree =
  Root :: "cb_node option"
  Size :: int

definition New :: cb_tree where
  "New = \<lparr>Root = None, Size = 0\<rparr>"

definition Len :: "cb_tree \<Rightarrow> int" where
  "Len t = Size t"

section \<open>Operations\<close>

text \<open>
  \<open>direction\<close>: \<open>(1 + int(other|c)) >> 8\<close> is 1 exactly when \<open>other|c\<close> is 0xff.
  \<open>Other = 0xff\<close> marks a node that tests only whether the key reaches \<open>Pos\<close>.
\<close>

definition direction :: "bytes \<Rightarrow> nat \<Rightarrow> byte \<Rightarrow> nat" where
  "direction k pos other =
     (if pos < length k then drop_bit 8 (1 + unat (other OR k ! pos))
      else if other = 0xff then 0
      else drop_bit 8 (1 + unat (other OR 0)))"

text \<open>\<open>lookup\<close>: the leaf the key leads to, and the topmost node still within the key.\<close>

fun lookup_node ::
  "bytes \<Rightarrow> cb_node option \<Rightarrow> cb_node \<Rightarrow> (bytes \<times> cb_value) \<times> cb_node option" where
  "lookup_node k tp (ENode key v) = ((key, v), tp)"
| "lookup_node k tp (INode l r pos other) =
     (let tp' = (if tp = None \<or> pos < length k then Some (INode l r pos other) else tp)
      in if direction k pos other = 0 then lookup_node k tp' l else lookup_node k tp' r)"

definition lookup :: "cb_tree \<Rightarrow> bytes \<Rightarrow> (bytes \<times> cb_value) option \<times> cb_node option" where
  "lookup t k = (case Root t of
     None \<Rightarrow> (None, None)
   | Some p \<Rightarrow> (let (n, tp) = lookup_node k None p in (Some n, tp)))"

definition Get :: "cb_tree \<Rightarrow> bytes \<Rightarrow> cb_value option" where
  "Get t k = (case fst (lookup t k) of
     None \<Rightarrow> None
   | Some (key, v) \<Rightarrow> if k = key then Some v else None)"

text \<open>
  \<open>findFirstDiffByte\<close>: the first position where the key and the leaf's key differ, the
  leaf's key read as zero beyond its end. \<open>first_diff\<close> is the loop over the key;
  \<open>None\<close> is the match.
\<close>

fun first_diff :: "nat \<Rightarrow> bytes \<Rightarrow> bytes \<Rightarrow> (nat \<times> byte) option" where
  "first_diff pos [] [] = None"
| "first_diff pos [] (n # ns) = Some (pos, n)"
| "first_diff pos [b] [] = (if b \<noteq> 0 then Some (pos, 0 XOR b) else Some (pos, 0))"
| "first_diff pos (b # b' # bs) [] =
     (if b \<noteq> 0 then Some (pos, 0 XOR b) else first_diff (Suc pos) (b' # bs) [])"
| "first_diff pos (b # bs) (n # ns) =
     (if n \<noteq> b then Some (pos, n XOR b) else first_diff (Suc pos) bs ns)"

definition findFirstDiffByte :: "bytes \<Rightarrow> bytes \<Rightarrow> (nat \<times> byte) option" where
  "findFirstDiffByte k key = first_diff 0 k key"

text \<open>The mask computation of \<open>Insert\<close>: all ones but the highest set bit.\<close>

definition smear :: "byte \<Rightarrow> byte" where
  "smear x = (let a = x OR drop_bit 1 x; b = a OR drop_bit 2 a in b OR drop_bit 4 b)"

definition crit_mask :: "byte \<Rightarrow> byte" where
  "crit_mask x = (let o' = smear x in NOT (o' AND NOT (drop_bit 1 o')))"

text \<open>\<open>newn\<close> with \<open>Children[1-di]\<close> the new leaf and \<open>Children[di]\<close> the old subtree.\<close>

definition branch :: "nat \<Rightarrow> cb_node \<Rightarrow> cb_node \<Rightarrow> nat \<Rightarrow> byte \<Rightarrow> cb_node" where
  "branch di new old pos other =
     (if di = 0 then INode old new pos other else INode new old pos other)"

text \<open>
  \<open>findInsertPos\<close> walks down to the first node that tests a later bit, and \<open>Insert\<close>
  stores the new node in the slot found.
\<close>

fun insert_at :: "bytes \<Rightarrow> nat \<Rightarrow> byte \<Rightarrow> (cb_node \<Rightarrow> cb_node) \<Rightarrow> cb_node \<Rightarrow> cb_node" where
  "insert_at k pos other mk (ENode key v) = mk (ENode key v)"
| "insert_at k pos other mk (INode l r npos nother) =
     (if npos > pos then mk (INode l r npos nother)
      else if npos = pos \<and> nother > other then mk (INode l r npos nother)
      else if direction k npos nother = 0
           then INode (insert_at k pos other mk l) r npos nother
           else INode l (insert_at k pos other mk r) npos nother)"

text \<open>The write \<open>n.Value = v\<close> through the leaf that \<open>lookup\<close> returned.\<close>

fun update_leaf :: "bytes \<Rightarrow> cb_value \<Rightarrow> cb_node \<Rightarrow> cb_node" where
  "update_leaf k v (ENode key old) = ENode key v"
| "update_leaf k v (INode l r pos other) =
     (if direction k pos other = 0 then INode (update_leaf k v l) r pos other
      else INode l (update_leaf k v r) pos other)"

definition Insert :: "cb_tree \<Rightarrow> bytes \<Rightarrow> cb_value \<Rightarrow> cb_tree \<times> cb_value option" where
  "Insert t k v = (case Root t of
     None \<Rightarrow> (t\<lparr>Root := Some (ENode k v), Size := Size t + 1\<rparr>, None)
   | Some p \<Rightarrow>
       (let ((key, orig), _) = lookup_node k None p in
        case findFirstDiffByte k key of
          None \<Rightarrow> (t\<lparr>Root := Some (update_leaf k v p)\<rparr>, Some orig)
        | Some (pos, d) \<Rightarrow>
            (let other = crit_mask d; di = direction key pos other in
             (t\<lparr>Root := Some (insert_at k pos other
                          (\<lambda>old. branch di (ENode k v) old pos other) p),
                Size := Size t + 1\<rparr>, None))))"

text \<open>
  \<open>findDeletePos\<close> and the write \<open>*q = tmp.Children[1-di]\<close>: the last inner node on the
  key's path is replaced by its other child. \<open>None\<close>: the leaf is the root.
\<close>

fun delete_leaf :: "bytes \<Rightarrow> cb_node \<Rightarrow> cb_node option" where
  "delete_leaf k (ENode key v) = None"
| "delete_leaf k (INode l r pos other) =
     (if direction k pos other = 0
      then (case delete_leaf k l of None \<Rightarrow> Some r | Some l' \<Rightarrow> Some (INode l' r pos other))
      else (case delete_leaf k r of None \<Rightarrow> Some l | Some r' \<Rightarrow> Some (INode l r' pos other)))"

definition Delete :: "cb_tree \<Rightarrow> bytes \<Rightarrow> cb_tree \<times> cb_value option" where
  "Delete t k = (case Root t of
     None \<Rightarrow> (t, None)
   | Some p \<Rightarrow>
       (let ((key, v), _) = lookup_node k None p in
        if k \<noteq> key then (t, None)
        else (t\<lparr>Root := delete_leaf k p, Size := Size t - 1\<rparr>, Some v)))"

definition Clear :: "cb_tree \<Rightarrow> cb_tree \<times> bool" where
  "Clear t = (if Root t \<noteq> None then (t\<lparr>Root := None, Size := 0\<rparr>, True) else (t, False))"

fun min_node :: "cb_node \<Rightarrow> bytes \<times> cb_value" where
  "min_node (ENode key v) = (key, v)"
| "min_node (INode l r pos other) = min_node l"

fun max_node :: "cb_node \<Rightarrow> bytes \<times> cb_value" where
  "max_node (ENode key v) = (key, v)"
| "max_node (INode l r pos other) = max_node r"

definition Minimum :: "cb_tree \<Rightarrow> (bytes \<times> cb_value) option" where
  "Minimum t = map_option min_node (Root t)"

definition Maximum :: "cb_tree \<Rightarrow> (bytes \<times> cb_value) option" where
  "Maximum t = map_option max_node (Root t)"

text \<open>\<open>bytes.HasPrefix(s, p)\<close>.\<close>

definition has_prefix :: "bytes \<Rightarrow> bytes \<Rightarrow> bool" where
  "has_prefix s p \<longleftrightarrow> length p \<le> length s \<and> take (length p) s = p"

text \<open>\<open>longestPrefix\<close> computes its direction without the length test of \<open>direction\<close>.\<close>

fun longest_prefix :: "cb_node \<Rightarrow> bytes \<Rightarrow> (bytes \<times> cb_value) option" where
  "longest_prefix (ENode key v) prefix =
     (if has_prefix prefix key then Some (key, v) else None)"
| "longest_prefix (INode l r pos other) prefix =
     (let c = (if pos < length prefix then prefix ! pos else 0);
          di = drop_bit 8 (1 + unat (other OR c))
      in case (if di = 0 then longest_prefix l prefix else longest_prefix r prefix) of
           Some kv \<Rightarrow> Some kv
         | None \<Rightarrow> if di = 1 then longest_prefix l prefix else None)"

definition LongestPrefix :: "cb_tree \<Rightarrow> bytes \<Rightarrow> (bytes \<times> cb_value) option" where
  "LongestPrefix t prefix = (case Root t of None \<Rightarrow> None | Some p \<Rightarrow> longest_prefix p prefix)"

text \<open>
  The walks call a function on each element until it returns true. The callback's effect
  is a state \<open>'s\<close> it threads; the boolean is its result.
\<close>

fun walk :: "cb_node \<Rightarrow> (bytes \<Rightarrow> cb_value \<Rightarrow> 's \<Rightarrow> 's \<times> bool) \<Rightarrow> 's \<Rightarrow> 's \<times> bool" where
  "walk (ENode key v) fn s = fn key v s"
| "walk (INode l r pos other) fn s =
     (let (s1, stop) = walk l fn s in if stop then (s1, True) else walk r fn s1)"

definition Walk :: "cb_tree \<Rightarrow> (bytes \<Rightarrow> cb_value \<Rightarrow> 's \<Rightarrow> 's \<times> bool) \<Rightarrow> 's \<Rightarrow> 's" where
  "Walk t fn s = (case Root t of None \<Rightarrow> s | Some p \<Rightarrow> fst (walk p fn s))"

text \<open>
  \<open>WalkPrefix\<close> passes \<open>top\<close>, an \<open>*INode\<close>, as a \<open>Node\<close>: when the root is a leaf
  it is a nil pointer inside a non-nil interface, and \<open>walk\<close> dereferences it.
\<close>

definition WalkPrefix ::
  "cb_tree \<Rightarrow> bytes \<Rightarrow> (bytes \<Rightarrow> cb_value \<Rightarrow> 's \<Rightarrow> 's \<times> bool) \<Rightarrow> 's \<Rightarrow> 's result" where
  "WalkPrefix t prefix fn s = (case lookup t prefix of
     (None, _) \<Rightarrow> Inr s
   | (Some (key, v), tp) \<Rightarrow>
       if \<not> has_prefix key prefix then Inr s
       else (case tp of
               None \<Rightarrow> Inl Panic
             | Some p \<Rightarrow>
                 Inr (fst (walk p (\<lambda>k v s. if has_prefix k prefix then fn k v s else (s, False)) s))))"

fun walk_path :: "cb_node \<Rightarrow> bytes \<Rightarrow> (bytes \<Rightarrow> cb_value \<Rightarrow> 's \<Rightarrow> 's \<times> bool) \<Rightarrow> 's \<Rightarrow> 's \<times> bool" where
  "walk_path (ENode key v) path fn s = (if has_prefix path key then fn key v s else (s, False))"
| "walk_path (INode l r pos other) path fn s =
     (if direction path pos other = 1
      then (let (s1, stop) = walk_path l path fn s
            in if stop then (s1, True) else walk_path r path fn s1)
      else walk_path l path fn s)"

definition WalkPath :: "cb_tree \<Rightarrow> bytes \<Rightarrow> (bytes \<Rightarrow> cb_value \<Rightarrow> 's \<Rightarrow> 's \<times> bool) \<Rightarrow> 's \<Rightarrow> 's" where
  "WalkPath t path fn s = (case Root t of None \<Rightarrow> s | Some p \<Rightarrow> fst (walk_path p path fn s))"

section \<open>Bits\<close>

lemma unat_minus_one_byte: "unat (-1 :: byte) = 255"
  by (simp add: unsigned_minus_1_eq_mask mask_eq_exp_minus_1)

lemma drop_bit8_unat: "drop_bit 8 (1 + unat (x::byte)) = (if x = -1 then 1 else 0)"
proof (cases "x = -1")
  case True
  then have "1 + unat x = 256" by (simp add: unat_minus_one_byte)
  with True show ?thesis by (simp only: drop_bit_eq_div) simp
next
  case False
  have "unat x < 256" using unsigned_less [of x] by simp
  moreover have "unat x \<noteq> 255"
    using False by (simp add: word_unat_eq_iff unat_minus_one_byte)
  ultimately show ?thesis using False by (simp add: drop_bit_eq_div)
qed

lemma word8_bit_eq_iff: "(v::byte) = w \<longleftrightarrow> (\<forall>n<8. bit v n = bit w n)"
  by (auto intro: bit_word_eqI)

lemma or_not_push: "b < 8 \<Longrightarrow> (NOT (push_bit b 1) OR c = (-1::byte)) \<longleftrightarrow> bit c b"
  by (auto simp: word8_bit_eq_iff bit_simps)

lemma direction_bit:
  "pos < length k \<Longrightarrow> b < 8 \<Longrightarrow>
   direction k pos (NOT (push_bit b 1)) = (if bit (k ! pos) b then 1 else 0)"
  by (simp only: direction_def drop_bit8_unat or_not_push if_True)

lemma bit_byte_less: "bit (x::byte) j \<Longrightarrow> j < 8"
  using bit_imp_le_length by fastforce

lemma smear_bit: "bit (smear x) i \<longleftrightarrow> (\<exists>j\<ge>i. bit x j)"
proof
  assume "bit (smear x) i"
  then show "\<exists>j\<ge>i. bit x j"
    by (auto simp: smear_def Let_def bit_simps intro: le_add2) (meson le_SucI order_refl)+
next
  assume "\<exists>j\<ge>i. bit x j"
  then obtain d where d: "bit x (i + d)" by (auto simp: le_iff_add)
  then have "d < 8" using bit_byte_less by fastforce
  then have "d \<in> {0,1,2,3,4,5,6,7}" by auto
  with d show "bit (smear x) i"
    by (auto simp: smear_def Let_def bit_simps numeral_eq_Suc)
qed

lemma crit_mask_hi:
  assumes "x \<noteq> 0"
  obtains b where "b < 8" "bit x b" "\<And>j. b < j \<Longrightarrow> \<not> bit x j" "crit_mask x = NOT (push_bit b 1)"
proof -
  let ?S = "{j. bit x j}"
  have fin: "finite ?S" by (rule finite_subset [of _ "{..<8}"]) (auto dest: bit_byte_less)
  have ne: "?S \<noteq> {}" using assms by (auto simp: word8_bit_eq_iff)
  define b where "b = Max ?S"
  have b: "bit x b" using Max_in [OF fin ne] by (simp add: b_def)
  have hi: "\<not> bit x j" if "b < j" for j
  proof
    assume "bit x j"
    then have "j \<le> b" using Max_ge [OF fin, of j] by (simp add: b_def)
    with that show False by simp
  qed
  have "(\<exists>j\<ge>n. bit x j) \<longleftrightarrow> n \<le> b" for n
    using b hi by (meson le_less_trans not_le order.trans)
  then have "crit_mask x = NOT (push_bit b 1)"
    using bit_byte_less [OF b]
    by (auto simp: word8_bit_eq_iff crit_mask_def Let_def bit_simps smear_bit)
  with that bit_byte_less [OF b] b hi show thesis by blast
qed

text \<open>
  Bit \<open>i\<close> of a key counts from the most significant bit of its first byte; an inner
  node with \<open>crit pos other i\<close> tests bit \<open>i\<close>.
\<close>

definition kbit :: "bytes \<Rightarrow> nat \<Rightarrow> bool" where
  "kbit k i = bit (k ! (i div 8)) (7 - i mod 8)"

definition crit :: "nat \<Rightarrow> byte \<Rightarrow> nat \<Rightarrow> bool" where
  "crit pos other i \<longleftrightarrow> (\<exists>b<8. other = NOT (push_bit b 1) \<and> i = 8 * pos + (7 - b))"

lemma bit_index:
  fixes b pos :: nat
  assumes "b < 8"
  shows "(8 * pos + (7 - b)) div 8 = pos" "7 - (8 * pos + (7 - b)) mod 8 = b"
proof -
  have *: "(8 * pos + c) div 8 = pos" "(8 * pos + c) mod 8 = c" if "c < 8" for c
    using that by simp_all
  have "7 - b < 8" by simp
  from * [OF this] show "(8 * pos + (7 - b)) div 8 = pos" "7 - (8 * pos + (7 - b)) mod 8 = b"
    using assms by (simp_all only:)
qed

lemma crit_direction:
  assumes "crit pos other i" "i < 8 * length k"
  shows "direction k pos other = (if kbit k i then 1 else 0)"
proof -
  from assms(1) obtain b where b: "b < 8" "other = NOT (push_bit b 1)" "i = 8 * pos + (7 - b)"
    by (auto simp: crit_def)
  then have "i div 8 = pos" "7 - i mod 8 = b" by (simp_all only: bit_index)
  moreover have "pos < length k" using b assms(2) by auto
  ultimately show ?thesis
    using b direction_bit by (simp add: kbit_def)
qed

lemma push_bit_mask_less:
  assumes "a < 8" "b < 8"
  shows "NOT (push_bit a 1) > (NOT (push_bit b 1) :: byte) \<longleftrightarrow> a < b"
proof -
  have "a \<in> {0,1,2,3,4,5,6,7}" "b \<in> {0,1,2,3,4,5,6,7}" using assms by auto
  then show ?thesis by (elim insertE emptyE) simp_all
qed

lemma crit_order:
  assumes "crit pos other d" "crit npos nother i"
  shows "(npos > pos \<or> (npos = pos \<and> nother > other)) \<longleftrightarrow> i > d"
proof -
  from assms obtain a b where "a < 8" "nother = NOT (push_bit a 1)" "i = 8 * npos + (7 - a)"
    "b < 8" "other = NOT (push_bit b 1)" "d = 8 * pos + (7 - b)"
    by (auto simp: crit_def)
  then show ?thesis
    using push_bit_mask_less [of a b] by (cases "npos = pos") auto
qed

lemma first_diff_spec:
  assumes "length k = length key"
  shows "case first_diff p k key of
           None \<Rightarrow> k = key
         | Some (q, x) \<Rightarrow> p \<le> q \<and> q - p < length k \<and> x = key ! (q - p) XOR k ! (q - p) \<and>
             x \<noteq> 0 \<and> (\<forall>j<q - p. k ! j = key ! j)"
  using assms
proof (induction k key arbitrary: p rule: list_induct2)
  case Nil
  then show ?case by simp
next
  case (Cons b bs n ns)
  show ?case
  proof (cases "n = b")
    case True
    with Cons.IH [of "Suc p"] show ?thesis
      by (auto simp: nth_Cons' Suc_diff_le split: option.splits)
  next
    case False
    then have "n XOR b \<noteq> 0"
      by (metis xor.left_neutral xor.assoc xor_self_eq)
    with False show ?thesis by simp
  qed
qed

lemma findFirstDiffByte_None:
  "length k = length key \<Longrightarrow> findFirstDiffByte k key = None \<longleftrightarrow> k = key"
proof -
  assume len: "length k = length key"
  have "first_diff p k k = None" for p and k :: bytes
    by (induction k arbitrary: p) simp_all
  with first_diff_spec [OF len, of 0] show ?thesis
    by (auto simp: findFirstDiffByte_def split: option.splits)
qed

text \<open>
  What \<open>Insert\<close> computes between two distinct keys of one length: the first bit where
  they differ, in the form of a node's test.
\<close>

lemma first_diff_crit:
  assumes len: "length k = L" "length key = L"
    and diff: "findFirstDiffByte k key = Some (pos, x)"
  obtains d where "d < 8 * L" "crit pos (crit_mask x) d"
    "\<And>j. j < d \<Longrightarrow> kbit k j = kbit key j" "kbit k d \<noteq> kbit key d"
proof -
  from first_diff_spec [of k key 0] len diff
  have q: "pos < L" "x = key ! pos XOR k ! pos" "x \<noteq> 0" "\<And>j. j < pos \<Longrightarrow> k ! j = key ! j"
    by (auto simp: findFirstDiffByte_def)
  from crit_mask_hi [OF q(3)] obtain b where
    b: "b < 8" "bit x b" "\<And>j. b < j \<Longrightarrow> \<not> bit x j" "crit_mask x = NOT (push_bit b 1)"
    by blast
  define d where "d = 8 * pos + (7 - b)"
  have d: "d div 8 = pos" "7 - d mod 8 = b"
    unfolding d_def by (rule bit_index [OF b(1)])+
  have "kbit k j = kbit key j" if "j < d" for j
  proof (cases "j div 8 < pos")
    case True
    then show ?thesis by (simp add: kbit_def q(4))
  next
    case False
    moreover have "j div 8 \<le> pos"
      using div_le_mono [of j d 8] that d(1) by simp
    ultimately have j: "j div 8 = pos" by simp
    then have "j = 8 * pos + j mod 8" using mult_div_mod_eq [of 8 j] by simp
    with that b(1) have "b < 7 - j mod 8" unfolding d_def by linarith
    with j b(3) [of "7 - j mod 8"] q(2) show ?thesis
      by (simp add: kbit_def bit_simps)
  qed
  moreover have "kbit k d \<noteq> kbit key d"
    using b(2) q(2) by (simp add: kbit_def d bit_simps)
  moreover have "d < 8 * L" "crit pos (crit_mask x) d"
    using q(1) b by (auto simp: d_def crit_def)
  ultimately show thesis using that by blast
qed

section \<open>Shape invariant\<close>

fun entries :: "cb_node \<Rightarrow> (bytes \<times> cb_value) list" where
  "entries (ENode k v) = [(k, v)]"
| "entries (INode l r pos other) = entries l @ entries r"

definition keys :: "cb_node \<Rightarrow> bytes set" where
  "keys n = fst ` set (entries n)"

lemma keys_simps [simp]:
  "keys (ENode k v) = {k}"
  "keys (INode l r pos other) = keys l \<union> keys r"
  by (auto simp: keys_def)

text \<open>
  Every key has \<open>L\<close> bytes; an inner node tests a bit that separates its children and
  below which all its keys agree.
\<close>

fun cb_inv :: "nat \<Rightarrow> cb_node \<Rightarrow> bool" where
  "cb_inv L (ENode k v) \<longleftrightarrow> length k = L"
| "cb_inv L (INode l r pos other) \<longleftrightarrow>
     cb_inv L l \<and> cb_inv L r \<and>
     (\<exists>i<8 * L. crit pos other i \<and> (\<forall>k\<in>keys l. \<not> kbit k i) \<and> (\<forall>k\<in>keys r. kbit k i) \<and>
        (\<forall>k1\<in>keys l \<union> keys r. \<forall>k2\<in>keys l \<union> keys r. \<forall>j<i. kbit k1 j = kbit k2 j))"

lemma cb_inv_INodeI:
  assumes "cb_inv L l" "cb_inv L r" "i < 8 * L" "crit pos other i"
    and "\<And>x. x \<in> keys l \<Longrightarrow> \<not> kbit x i" "\<And>x. x \<in> keys r \<Longrightarrow> kbit x i"
    and "\<And>x j. x \<in> keys l \<union> keys r \<Longrightarrow> j < i \<Longrightarrow> kbit x j = kbit k j"
  shows "cb_inv L (INode l r pos other)"
  unfolding cb_inv.simps using assms by (intro conjI exI [of _ i] ballI allI impI) blast+

lemma cb_inv_INodeE:
  assumes "cb_inv L (INode l r pos other)"
  obtains i where "cb_inv L l" "cb_inv L r" "i < 8 * L" "crit pos other i"
    "\<And>x. x \<in> keys l \<Longrightarrow> \<not> kbit x i" "\<And>x. x \<in> keys r \<Longrightarrow> kbit x i"
    "\<And>x y j. x \<in> keys l \<union> keys r \<Longrightarrow> y \<in> keys l \<union> keys r \<Longrightarrow> j < i \<Longrightarrow> kbit x j = kbit y j"
  using assms unfolding cb_inv.simps by blast

declare cb_inv.simps(2) [simp del]

lemma cb_inv_length: "cb_inv L n \<Longrightarrow> k \<in> keys n \<Longrightarrow> length k = L"
  by (induction n) (auto elim: cb_inv_INodeE)

definition leaf :: "bytes \<Rightarrow> cb_node \<Rightarrow> bytes \<times> cb_value" where
  "leaf k n = fst (lookup_node k None n)"

lemma lookup_node_leaf: "fst (lookup_node k tp n) = leaf k n"
proof -
  have "fst (lookup_node k tp n) = fst (lookup_node k tp' n)" for tp tp'
    by (induction n arbitrary: tp tp') (simp_all add: Let_def)
  then show ?thesis by (simp add: leaf_def)
qed

lemma leaf_simps [simp]:
  "leaf k (ENode key v) = (key, v)"
  "leaf k (INode l r pos other) = (if direction k pos other = 0 then leaf k l else leaf k r)"
  by (simp_all add: leaf_def [of _ "ENode key v"] leaf_def [of _ "INode l r pos other"]
      lookup_node_leaf Let_def)

lemma leaf_in_entries: "leaf k n \<in> set (entries n)"
  by (induction n) auto

lemma leaf_in_keys: "fst (leaf k n) \<in> keys n"
  using leaf_in_entries [of k n] by (auto simp: keys_def)

section \<open>Map laws\<close>

definition node_map :: "cb_node \<Rightarrow> bytes \<rightharpoonup> cb_value" where
  "node_map n = map_of (entries n)"

lemma cb_inv_disjoint:
  "cb_inv L (INode l r pos other) \<Longrightarrow> keys l \<inter> keys r = {}"
  by (elim cb_inv_INodeE) blast

lemma cb_inv_distinct: "cb_inv L n \<Longrightarrow> distinct (map fst (entries n))"
proof (induction n)
  case (ENode k v)
  then show ?case by simp
next
  case (INode l r pos other)
  then have "keys l \<inter> keys r = {}" by (rule_tac cb_inv_disjoint)
  with INode show ?case by (auto simp: keys_def elim: cb_inv_INodeE)
qed

lemma leaf_member:
  assumes "cb_inv L n" "k \<in> keys n"
  shows "fst (leaf k n) = k"
  using assms
proof (induction n)
  case (ENode key v)
  then show ?case by simp
next
  case (INode l r pos other)
  from INode.prems(1) obtain i where
    i: "i < 8 * L" "crit pos other i" and sub: "cb_inv L l" "cb_inv L r"
    and bits: "\<And>x. x \<in> keys l \<Longrightarrow> \<not> kbit x i" "\<And>x. x \<in> keys r \<Longrightarrow> kbit x i"
    by (rule cb_inv_INodeE) blast
  have "length k = L" using INode.prems cb_inv_length by blast
  with i have "direction k pos other = (if kbit k i then 1 else 0)"
    by (intro crit_direction) auto
  with bits sub INode show ?case by (cases "kbit k i") auto
qed

lemma Get_node_map:
  assumes "cb_inv L n"
  shows "(if k = fst (leaf k n) then Some (snd (leaf k n)) else None) = node_map n k"
proof (cases "k \<in> keys n")
  case True
  have "fst (leaf k n) = k" using assms True by (rule leaf_member)
  moreover have "leaf k n \<in> set (entries n)" by (rule leaf_in_entries)
  ultimately have "(k, snd (leaf k n)) \<in> set (entries n)"
    by (metis prod.collapse)
  with cb_inv_distinct [OF assms] have "node_map n k = Some (snd (leaf k n))"
    by (simp add: node_map_def)
  then show ?thesis using \<open>fst (leaf k n) = k\<close> by simp
next
  case False
  then have "node_map n k = None"
    by (auto simp: node_map_def keys_def map_of_eq_None_iff)
  moreover have "k \<noteq> fst (leaf k n)" using False leaf_in_keys by metis
  ultimately show ?thesis by simp
qed

lemma node_map_INode: "node_map (INode l r pos other) = node_map r ++ node_map l"
  by (simp add: node_map_def)

lemma node_map_dom: "dom (node_map n) = keys n"
  by (simp add: node_map_def keys_def dom_map_of_conv_image_fst)

lemma entries_update_leaf:
  assumes "cb_inv L n" "fst (leaf k n) = k"
  shows "cb_inv L (update_leaf k v n) \<and> keys (update_leaf k v n) = keys n \<and>
         node_map (update_leaf k v n) = (node_map n)(k \<mapsto> v)"
  using assms
proof (induction n)
  case (ENode key w)
  then show ?case by (simp add: node_map_def fun_eq_iff)
next
  case (INode l r pos other)
  from INode.prems(1) obtain i where
    i: "cb_inv L l" "cb_inv L r" "i < 8 * L" "crit pos other i"
    and bits: "\<And>x. x \<in> keys l \<Longrightarrow> \<not> kbit x i" "\<And>x. x \<in> keys r \<Longrightarrow> kbit x i"
    and below: "\<And>x y j. x \<in> keys l \<union> keys r \<Longrightarrow> y \<in> keys l \<union> keys r \<Longrightarrow> j < i \<Longrightarrow> kbit x j = kbit y j"
    by (rule cb_inv_INodeE) blast
  let ?k0 = "fst (leaf k (INode l r pos other))"
  have k0: "?k0 \<in> keys l \<union> keys r" using leaf_in_keys [of k "INode l r pos other"] by simp
  show ?case
  proof (cases "direction k pos other = 0")
    case True
    with INode.prems(2) have "fst (leaf k l) = k" by simp
    then have IH: "cb_inv L (update_leaf k v l)" "keys (update_leaf k v l) = keys l"
      "node_map (update_leaf k v l) = (node_map l)(k \<mapsto> v)"
      using INode.IH(1) [OF i(1)] by blast+
    have "cb_inv L (INode (update_leaf k v l) r pos other)"
      by (rule cb_inv_INodeI [OF IH(1) i(2-4), where k = ?k0])
        (unfold IH(2), erule bits(1), erule bits(2), erule below [OF _ k0])
    moreover have "node_map (INode (update_leaf k v l) r pos other) =
        (node_map (INode l r pos other))(k \<mapsto> v)"
      unfolding node_map_INode IH(3) by (rule map_add_upd)
    ultimately show ?thesis using True IH(2) by simp
  next
    case False
    with INode.prems(2) have kr: "fst (leaf k r) = k" by simp
    then have IH: "cb_inv L (update_leaf k v r)" "keys (update_leaf k v r) = keys r"
      "node_map (update_leaf k v r) = (node_map r)(k \<mapsto> v)"
      using INode.IH(2) [OF i(2)] by blast+
    have "cb_inv L (INode l (update_leaf k v r) pos other)"
      by (rule cb_inv_INodeI [OF i(1) IH(1) i(3,4), where k = ?k0])
        (unfold IH(2), erule bits(1), erule bits(2), erule below [OF _ k0])
    moreover have "k \<notin> dom (node_map l)"
      using cb_inv_disjoint [OF INode.prems(1)] leaf_in_keys [of k r] kr
      unfolding node_map_dom by auto
    then have "node_map (INode l (update_leaf k v r) pos other) =
        (node_map (INode l r pos other))(k \<mapsto> v)"
      unfolding node_map_INode IH(3) by (rule map_add_upd_left)
    ultimately show ?thesis using False IH(2) by simp
  qed
qed

text \<open>
  Insertion between a key and the leaf it leads to. \<open>split_at\<close> says what
  \<open>findFirstDiffByte\<close> established: the keys agree before bit \<open>d\<close> and differ there.
\<close>

definition split_at :: "bytes \<Rightarrow> bytes \<Rightarrow> nat \<Rightarrow> bool" where
  "split_at k key d \<longleftrightarrow> (\<forall>j<d. kbit k j = kbit key j) \<and> kbit k d \<noteq> kbit key d"

lemma branch_inv:
  assumes "cb_inv L old" "length k = L" "d < 8 * L" "crit pos other d"
    and key: "key \<in> keys old" and sp: "\<And>x. x \<in> keys old \<Longrightarrow> split_at k x d"
  shows "cb_inv L (branch (direction key pos other) (ENode k v) old pos other)"
proof -
  have dir: "direction key pos other = (if kbit key d then 1 else 0)"
    using assms cb_inv_length by (intro crit_direction) auto
  have bit: "kbit x d = (\<not> kbit k d)" if "x \<in> keys old" for x
    using sp [OF that] by (auto simp: split_at_def)
  have agree: "kbit x j = kbit k j" if "x \<in> keys old" "j < d" for x j
    using sp [OF that(1)] that(2) by (auto simp: split_at_def)
  show ?thesis
  proof (cases "kbit key d")
    case True
    then show ?thesis
      using assms(1-4) bit agree bit [OF key]
      by (auto simp: dir branch_def intro!: cb_inv_INodeI [where i = d and k = k]
         )
  next
    case False
    then show ?thesis
      using assms(1-4) bit agree bit [OF key]
      by (auto simp: dir branch_def intro!: cb_inv_INodeI [where i = d and k = k]
         )
  qed
qed

lemma entries_branch:
  "set (entries (branch di (ENode k v) old pos other)) = insert (k, v) (set (entries old))"
  by (auto simp: branch_def)

lemma keys_insert:
  "set (entries m) = insert (k, v) (set (entries m')) \<Longrightarrow> keys m = insert k (keys m')"
  by (simp add: keys_def)

lemma insert_at_inv:
  assumes "cb_inv L n" "length k = L" "d < 8 * L" "crit pos other d"
    and "split_at k (fst (leaf k n)) d" "di = direction (fst (leaf k n)) pos other"
  shows "cb_inv L (insert_at k pos other (\<lambda>old. branch di (ENode k v) old pos other) n) \<and>
         set (entries (insert_at k pos other (\<lambda>old. branch di (ENode k v) old pos other) n)) =
           insert (k, v) (set (entries n))"
  using assms
proof (induction n)
  case (ENode key w)
  then show ?case
    using branch_inv [of L "ENode key w" k d pos other key] by (simp add: entries_branch)
next
  case (INode l r npos nother)
  let ?n = "INode l r npos nother"
  let ?mk = "\<lambda>old. branch di (ENode k v) old pos other"
  let ?key = "fst (leaf k ?n)"
  from INode.prems(1) obtain i where
    i: "cb_inv L l" "cb_inv L r" "i < 8 * L" "crit npos nother i"
    and bits: "\<And>x. x \<in> keys l \<Longrightarrow> \<not> kbit x i" "\<And>x. x \<in> keys r \<Longrightarrow> kbit x i"
    and below: "\<And>x y j. x \<in> keys l \<union> keys r \<Longrightarrow> y \<in> keys l \<union> keys r \<Longrightarrow> j < i \<Longrightarrow> kbit x j = kbit y j"
    by (rule cb_inv_INodeE) blast
  have stop: "(npos > pos \<or> (npos = pos \<and> nother > other)) \<longleftrightarrow> i > d"
    using INode.prems(4) i(4) by (rule crit_order)
  have key: "?key \<in> keys l \<union> keys r" using leaf_in_keys [of k ?n] by simp
  have dir: "direction k npos nother = (if kbit k i then 1 else 0)"
    using i(3,4) INode.prems(2) by (intro crit_direction) auto
  have sp: "\<And>j. j < d \<Longrightarrow> kbit k j = kbit ?key j" "kbit k d \<noteq> kbit ?key d"
    using INode.prems(5) unfolding split_at_def by blast+
  show ?case
  proof (cases "i > d")
    case True
    have "split_at k x d" if "x \<in> keys ?n" for x
      unfolding split_at_def using sp below [OF _ key] that True
      by (metis keys_simps(2) order.strict_trans)
    then have "cb_inv L (?mk ?n)"
      using branch_inv [OF INode.prems(1-4) leaf_in_keys] INode.prems(6) by blast
    with True stop show ?thesis by (auto simp: entries_branch)
  next
    case False
    have "kbit k i = kbit ?key i"
      using dir bits leaf_in_keys [of k l] leaf_in_keys [of k r] by simp
    then have id: "i < d"
      using False sp(2) by (metis linorder_neqE_nat)
    have agree: "kbit x j = kbit k j" if "x \<in> keys l \<union> keys r" "j < i" for x j
      using sp(1) [of j] below [OF that(1) key that(2)] that(2) id by simp
    have ins: "insert_at k pos other ?mk ?n =
        (if kbit k i then INode l (insert_at k pos other ?mk r) npos nother
         else INode (insert_at k pos other ?mk l) r npos nother)"
      using stop False dir by auto
    show ?thesis
    proof (cases "kbit k i")
      case True
      then have IH: "cb_inv L (insert_at k pos other ?mk r)"
        "set (entries (insert_at k pos other ?mk r)) = insert (k, v) (set (entries r))"
        using INode.IH(2) [OF i(2)] INode.prems dir by simp_all
      have "cb_inv L (INode l (insert_at k pos other ?mk r) npos nother)"
        using i(1) IH(1) i(3,4) bits agree True
        by (rule_tac cb_inv_INodeI [where i = i and k = k]) (auto simp: keys_insert [OF IH(2)])
      then show ?thesis
        using True IH(2) by (simp only: ins if_True) auto
    next
      case kf: False
      then have IH: "cb_inv L (insert_at k pos other ?mk l)"
        "set (entries (insert_at k pos other ?mk l)) = insert (k, v) (set (entries l))"
        using INode.IH(1) [OF i(1)] INode.prems dir by simp_all
      have "cb_inv L (INode (insert_at k pos other ?mk l) r npos nother)"
        using i(2) IH(1) i(3,4) bits agree kf
        by (rule_tac cb_inv_INodeI [where i = i and k = k]) (auto simp: keys_insert [OF IH(2)])
      then show ?thesis
        using kf IH(2) by (simp only: ins if_False) auto
    qed
  qed
qed

lemma map_of_insert_distinct:
  assumes "distinct (map fst xs)" "distinct (map fst ys)"
    and "set xs = insert (k, v) (set ys)" "k \<notin> fst ` set ys"
  shows "map_of xs = (map_of ys)(k \<mapsto> v)" "length xs = Suc (length ys)"
proof -
  have "map_of xs = map_of ((k, v) # ys)"
    using assms by (intro map_of_inject_set [THEN iffD2]) auto
  then show "map_of xs = (map_of ys)(k \<mapsto> v)" by simp
  have "length xs = card (set xs)" "length ys = card (set ys)"
    using assms(1,2) by (metis distinct_card distinct_map)+
  moreover have "(k, v) \<notin> set ys" using assms(4) by force
  ultimately show "length xs = Suc (length ys)" using assms(3) by simp
qed

lemma map_of_remove_distinct:
  assumes "distinct (map fst xs)" "distinct (map fst ys)"
    and "set ys = set xs - {(k, v)}" "(k, v) \<in> set xs"
  shows "map_of ys = (map_of xs)(k := None)" "length xs = Suc (length ys)"
proof -
  have "set xs = insert (k, v) (set ys)" using assms(3,4) by auto
  moreover have kn: "k \<notin> fst ` set ys"
    using assms(1,3,4) by (force simp: distinct_map inj_on_def)
  ultimately have m: "map_of xs = (map_of ys)(k \<mapsto> v)" and "length xs = Suc (length ys)"
    using map_of_insert_distinct [OF assms(1,2)] by blast+
  then show "length xs = Suc (length ys)" by simp
  have "map_of ys k = None" using kn by (simp add: map_of_eq_None_iff)
  then show "map_of ys = (map_of xs)(k := None)" by (auto simp: m fun_eq_iff)
qed

lemma keys_nonempty: "keys n \<noteq> {}"
  using leaf_in_keys by blast

lemma delete_leaf_inv:
  assumes "cb_inv L n" "fst (leaf k n) = k"
  shows "case delete_leaf k n of
           None \<Rightarrow> entries n = [leaf k n]
         | Some n' \<Rightarrow> cb_inv L n' \<and> set (entries n') = set (entries n) - {leaf k n}"
  using assms
proof (induction n)
  case (ENode key w)
  then show ?case by simp
next
  case (INode l r pos other)
  from INode.prems(1) obtain i where
    i: "cb_inv L l" "cb_inv L r" "i < 8 * L" "crit pos other i"
    and bits: "\<And>x. x \<in> keys l \<Longrightarrow> \<not> kbit x i" "\<And>x. x \<in> keys r \<Longrightarrow> kbit x i"
    and below: "\<And>x y j. x \<in> keys l \<union> keys r \<Longrightarrow> y \<in> keys l \<union> keys r \<Longrightarrow> j < i \<Longrightarrow> kbit x j = kbit y j"
    by (rule cb_inv_INodeE) blast
  have dis: "set (entries l) \<inter> set (entries r) = {}"
    using cb_inv_disjoint [OF INode.prems(1)] by (auto simp: keys_def)
  have k0: "fst (leaf k (INode l r pos other)) \<in> keys l \<union> keys r" (is "?k0 \<in> _")
    using leaf_in_keys [of k "INode l r pos other"] by simp
  show ?case
  proof (cases "direction k pos other = 0")
    case True
    then have IH: "case delete_leaf k l of None \<Rightarrow> entries l = [leaf k l]
         | Some n' \<Rightarrow> cb_inv L n' \<and> set (entries n') = set (entries l) - {leaf k l}"
      using INode.IH(1) [OF i(1)] INode.prems(2) by simp
    have nr: "leaf k l \<notin> set (entries r)" using dis leaf_in_entries by blast
    show ?thesis
    proof (cases "delete_leaf k l")
      case None
      with IH True i(2) nr show ?thesis by simp
    next
      case (Some l')
      with IH have l': "cb_inv L l'" "set (entries l') = set (entries l) - {leaf k l}" by auto
      then have sub: "keys l' \<subseteq> keys l" by (auto simp: keys_def)
      have "cb_inv L (INode l' r pos other)"
        by (rule cb_inv_INodeI [OF l'(1) i(2-4), where k = ?k0])
          (erule bits(1) [OF subsetD [OF sub]], erule bits(2), rule below [OF _ k0], use sub in auto)
      moreover have "set (entries l') \<union> set (entries r) =
          set (entries l) \<union> set (entries r) - {leaf k l}"
        unfolding l'(2) using nr by blast
      ultimately show ?thesis using Some True by simp
    qed
  next
    case False
    then have IH: "case delete_leaf k r of None \<Rightarrow> entries r = [leaf k r]
         | Some n' \<Rightarrow> cb_inv L n' \<and> set (entries n') = set (entries r) - {leaf k r}"
      using INode.IH(2) [OF i(2)] INode.prems(2) by simp
    have nl: "leaf k r \<notin> set (entries l)" using dis leaf_in_entries by blast
    show ?thesis
    proof (cases "delete_leaf k r")
      case None
      with IH False i(1) nl show ?thesis by simp
    next
      case (Some r')
      with IH have r': "cb_inv L r'" "set (entries r') = set (entries r) - {leaf k r}" by auto
      then have sub: "keys r' \<subseteq> keys r" by (auto simp: keys_def)
      have "cb_inv L (INode l r' pos other)"
        by (rule cb_inv_INodeI [OF i(1) r'(1) i(3,4), where k = ?k0])
          (erule bits(1), erule bits(2) [OF subsetD [OF sub]], rule below [OF _ k0], use sub in auto)
      moreover have "set (entries l) \<union> set (entries r') =
          set (entries l) \<union> set (entries r) - {leaf k r}"
        unfolding r'(2) using nl by blast
      ultimately show ?thesis using Some False by simp
    qed
  qed
qed

section \<open>Trees\<close>

definition tree_entries :: "cb_tree \<Rightarrow> (bytes \<times> cb_value) list" where
  "tree_entries t = (case Root t of None \<Rightarrow> [] | Some n \<Rightarrow> entries n)"

definition tree_map :: "cb_tree \<Rightarrow> bytes \<rightharpoonup> cb_value" where
  "tree_map t = map_of (tree_entries t)"

definition tree_ok :: "nat \<Rightarrow> cb_tree \<Rightarrow> bool" where
  "tree_ok L t \<longleftrightarrow> (case Root t of None \<Rightarrow> True | Some n \<Rightarrow> cb_inv L n) \<and>
     Size t = int (length (tree_entries t))"

lemma tree_ok_New: "tree_ok L New"
  by (simp add: tree_ok_def New_def tree_entries_def)

lemma tree_ok_distinct: "tree_ok L t \<Longrightarrow> distinct (map fst (tree_entries t))"
  by (auto simp: tree_ok_def tree_entries_def cb_inv_distinct split: option.splits)

lemma tree_map_New: "tree_map New = Map.empty"
  by (simp add: New_def tree_map_def tree_entries_def)

lemma Get_tree_map:
  assumes "tree_ok L t"
  shows "Get t k = tree_map t k"
proof (cases "Root t")
  case None
  then show ?thesis by (simp add: Get_def lookup_def tree_map_def tree_entries_def)
next
  case (Some n)
  then have "cb_inv L n" using assms by (simp add: tree_ok_def)
  from Get_node_map [OF this, of k] Some show ?thesis
    by (auto simp: Get_def lookup_def leaf_def tree_map_def tree_entries_def node_map_def
        split: prod.splits)
qed

lemma Insert_correct:
  assumes ok: "tree_ok L t" and len: "length k = L"
  shows "tree_ok L (fst (Insert t k v)) \<and> tree_map (fst (Insert t k v)) = (tree_map t)(k \<mapsto> v) \<and>
         snd (Insert t k v) = tree_map t k"
proof (cases "Root t")
  case None
  then show ?thesis
    using assms by (auto simp: Insert_def tree_ok_def tree_map_def tree_entries_def)
next
  case (Some n)
  then have inv: "cb_inv L n" using ok by (simp add: tree_ok_def)
  obtain key w where lf: "leaf k n = (key, w)" by (cases "leaf k n")
  have keylen: "length key = L"
    using cb_inv_length [OF inv leaf_in_keys, of k] lf by simp
  obtain tp where look: "lookup_node k None n = ((key, w), tp)"
    using lf by (metis leaf_def prod.collapse)
  have tm: "tree_map t k = (if k = key then Some w else None)"
    using Get_node_map [OF inv, of k] lf Some
    by (auto simp: tree_map_def tree_entries_def node_map_def split: if_splits)
  show ?thesis
  proof (cases "k = key")
    case True
    then have "findFirstDiffByte k key = None" using len keylen findFirstDiffByte_None [of k key] by simp
    then have ins: "Insert t k v = (t\<lparr>Root := Some (update_leaf k v n)\<rparr>, Some w)"
      using Some look by (simp add: Insert_def)
    have upd: "cb_inv L (update_leaf k v n)" "keys (update_leaf k v n) = keys n"
      "node_map (update_leaf k v n) = (node_map n)(k \<mapsto> v)"
      using entries_update_leaf [OF inv, of k v] lf True by auto
    have lc: "length (entries m) = card (keys m)" if "cb_inv L m" for m
      using cb_inv_distinct [OF that] by (metis distinct_card image_set keys_def length_map)
    have "length (entries (update_leaf k v n)) = length (entries n)"
      by (simp add: lc [OF upd(1)] lc [OF inv] upd(2))
    with ins upd Some ok tm True show ?thesis
      by (simp add: tree_ok_def tree_map_def tree_entries_def node_map_def)
  next
    case False
    then obtain pos x where d: "findFirstDiffByte k key = Some (pos, x)"
      using findFirstDiffByte_None [of k key] len keylen by (cases "findFirstDiffByte k key") auto
    from first_diff_crit [OF len keylen d] obtain i where
      i: "i < 8 * L" "crit pos (crit_mask x) i" "split_at k key i"
      unfolding split_at_def by blast
    let ?o = "crit_mask x"
    let ?n' = "insert_at k pos ?o (\<lambda>old. branch (direction key pos ?o) (ENode k v) old pos ?o) n"
    have ins: "Insert t k v = (t\<lparr>Root := Some ?n', Size := Size t + 1\<rparr>, None)"
      using Some look d by (simp add: Insert_def Let_def)
    have n': "cb_inv L ?n'" "set (entries ?n') = insert (k, v) (set (entries n))"
      using insert_at_inv [OF inv len i(1,2), of _ v] i(3) lf by simp_all
    have "k \<notin> fst ` set (entries n)"
      using leaf_member [OF inv, of k] lf False by (auto simp: keys_def)
    with map_of_insert_distinct [OF cb_inv_distinct cb_inv_distinct, OF n'(1) inv n'(2)]
    have "map_of (entries ?n') = (map_of (entries n))(k \<mapsto> v)"
      "length (entries ?n') = Suc (length (entries n))" by blast+
    with ins n' Some ok tm False show ?thesis
      by (simp add: tree_ok_def tree_map_def tree_entries_def)
  qed
qed

lemma Delete_correct:
  assumes ok: "tree_ok L t"
  shows "tree_ok L (fst (Delete t k)) \<and> tree_map (fst (Delete t k)) = (tree_map t)(k := None) \<and>
         snd (Delete t k) = tree_map t k"
proof (cases "Root t")
  case None
  then show ?thesis
    using ok by (auto simp: Delete_def tree_ok_def tree_map_def tree_entries_def fun_eq_iff)
next
  case (Some n)
  then have inv: "cb_inv L n" using ok by (simp add: tree_ok_def)
  obtain key w where lf: "leaf k n = (key, w)" by (cases "leaf k n")
  obtain tp where look: "lookup_node k None n = ((key, w), tp)"
    using lf by (metis leaf_def prod.collapse)
  have tm: "tree_map t k = (if k = key then Some w else None)"
    using Get_node_map [OF inv, of k] lf Some
    by (auto simp: tree_map_def tree_entries_def node_map_def split: if_splits)
  show ?thesis
  proof (cases "k = key")
    case False
    then have "Delete t k = (t, None)"
      using Some look by (simp add: Delete_def)
    with ok tm False show ?thesis by (simp add: fun_eq_iff)
  next
    case True
    then have del: "Delete t k = (t\<lparr>Root := delete_leaf k n, Size := Size t - 1\<rparr>, Some w)"
      using Some look by (simp add: Delete_def)
    have dl: "case delete_leaf k n of None \<Rightarrow> entries n = [(k, w)]
         | Some n' \<Rightarrow> cb_inv L n' \<and> set (entries n') = set (entries n) - {(k, w)}"
      using delete_leaf_inv [OF inv, of k, unfolded lf] unfolding True by simp
    show ?thesis
    proof (cases "delete_leaf k n")
      case None
      with dl del tm True Some ok show ?thesis
        by (auto simp: tree_ok_def tree_map_def tree_entries_def fun_eq_iff)
    next
      case (Some n')
      with dl have n': "cb_inv L n'" "set (entries n') = set (entries n) - {(k, w)}" by auto
      have "(k, w) \<in> set (entries n)" using leaf_in_entries [of k n] lf True by simp
      with map_of_remove_distinct [OF cb_inv_distinct cb_inv_distinct, OF inv n'(1) n'(2)]
      have "map_of (entries n') = (map_of (entries n))(k := None)"
        "length (entries n) = Suc (length (entries n'))" by blast+
      with del Some n' tm True \<open>Root t = Some n\<close> ok show ?thesis
        by (simp add: tree_ok_def tree_map_def tree_entries_def)
    qed
  qed
qed

section \<open>Order\<close>

text \<open>The leaves are in the order of \<open>bytes.Compare\<close>.\<close>

lemma byte_less_by_bit:
  fixes x y :: byte
  assumes "\<And>j. b < j \<Longrightarrow> bit x j = bit y j" "\<not> bit x b" "bit y b"
  shows "x < y"
proof -
  have "drop_bit (Suc b) x = drop_bit (Suc b) y"
    by (rule bit_word_eqI) (use assms(1) in \<open>auto simp: bit_simps\<close>)
  then have "unat x div 2 ^ Suc b = unat y div 2 ^ Suc b"
    by (metis drop_bit_eq_div unat_drop_bit_eq)
  then have half: "unat x div 2 ^ b div 2 = unat y div 2 ^ b div 2"
    by (simp only: power_Suc2 div_mult2_eq)
  have "odd (unat w div 2 ^ b) \<longleftrightarrow> bit w b" for w :: byte
    by (simp add: bit_unsigned_iff bit_iff_odd [of "unat w", symmetric] del: odd_iff_mod_2_eq_one)
  then have "even (unat x div 2 ^ b)" "odd (unat y div 2 ^ b)"
    using assms(2,3) by blast+
  with half have "unat x div 2 ^ b < unat y div 2 ^ b"
    by (metis even_two_times_div_two lessI odd_two_times_div_two_succ Suc_eq_plus1)
  then have "unat x < unat y"
    by (meson div_le_mono leD leI)
  then show ?thesis by (simp add: word_less_nat_alt)
qed

lemma kbit_split_less:
  assumes len: "length x = L" "length y = L" and i: "i < 8 * L"
    and below: "\<And>j. j < i \<Longrightarrow> kbit x j = kbit y j" and bits: "\<not> kbit x i" "kbit y i"
  shows "ord_class.lexordp x y"
proof -
  define p where "p = i div 8"
  have p: "p < L" using i by (auto simp: p_def)
  have "x ! q = y ! q" if "q < p" for q
  proof -
    have "bit (x ! q) n = bit (y ! q) n" if "n < 8" for n
    proof -
      have "8 * q + (7 - n) < i"
        using \<open>q < p\<close> mult_div_mod_eq [of 8 i] unfolding p_def by linarith
      from below [OF this] show ?thesis
        unfolding kbit_def bit_index [OF that] .
    qed
    then show ?thesis by (simp add: word8_bit_eq_iff)
  qed
  then have tk: "take p x = take p y"
    using p len by (auto intro: nth_equalityI)
  have "x ! p < y ! p"
  proof (rule byte_less_by_bit [where b = "7 - i mod 8"])
    fix j assume j: "7 - i mod 8 < j"
    show "bit (x ! p) j = bit (y ! p) j"
    proof (cases "j < 8")
      case True
      have "8 * p + (7 - j) < i"
        using j True mult_div_mod_eq [of 8 i] unfolding p_def by linarith
      from below [OF this] show ?thesis
        unfolding kbit_def bit_index [OF True] .
    next
      case False
      then show ?thesis using bit_byte_less by blast
    qed
  qed (use bits in \<open>simp_all add: kbit_def p_def\<close>)
  then have "ord_class.lexordp (take p x @ x ! p # drop (Suc p) x) (take p x @ y ! p # drop (Suc p) y)"
    by (rule lexordp_append_left_rightI)
  moreover have "take p x @ x ! p # drop (Suc p) x = x" "take p x @ y ! p # drop (Suc p) y = y"
    unfolding tk using p len id_take_nth_drop [of p x] id_take_nth_drop [of p y] tk by simp_all
  ultimately show ?thesis by simp
qed

lemma entries_sorted:
  "cb_inv L n \<Longrightarrow> sorted_wrt ord_class.lexordp (map fst (entries n))"
proof (induction n)
  case (ENode key w)
  then show ?case by simp
next
  case (INode l r pos other)
  from INode.prems obtain i where
    i: "cb_inv L l" "cb_inv L r" "i < 8 * L"
    and bits: "\<And>x. x \<in> keys l \<Longrightarrow> \<not> kbit x i" "\<And>x. x \<in> keys r \<Longrightarrow> kbit x i"
    and below: "\<And>x y j. x \<in> keys l \<union> keys r \<Longrightarrow> y \<in> keys l \<union> keys r \<Longrightarrow> j < i \<Longrightarrow> kbit x j = kbit y j"
    by (rule cb_inv_INodeE) blast
  have "ord_class.lexordp x y" if "x \<in> keys l" "y \<in> keys r" for x y
    using that i by (intro kbit_split_less [of x L y i] cb_inv_length below bits) auto
  with INode i show ?case
    by (auto simp: sorted_wrt_append keys_def)
qed

lemma min_node_entries: "min_node n = hd (entries n)"
proof -
  have "entries n \<noteq> []" for n by (induction n) simp_all
  then show ?thesis by (induction n) simp_all
qed

lemma max_node_entries: "max_node n = last (entries n)"
proof -
  have "entries n \<noteq> []" for n by (induction n) simp_all
  then show ?thesis by (induction n) simp_all
qed

lemma walk_fold:
  assumes "\<And>k v s. \<not> snd (fn k v s)"
  shows "walk n fn s = (fold (\<lambda>(k, v) s. fst (fn k v s)) (entries n) s, False)"
proof (induction n arbitrary: s)
  case (ENode k v)
  then show ?case using assms [of k v s] by (cases "fn k v s") simp
next
  case (INode l r pos other)
  then show ?case by simp
qed

lemma Walk_collect: "Walk t (\<lambda>k v s. (s @ [(k, v)], False)) acc = acc @ tree_entries t"
proof -
  have "fold (\<lambda>(k, v) s. s @ [(k, v)]) xs acc = acc @ xs" for xs :: "(bytes \<times> cb_value) list" and acc
    by (induction xs arbitrary: acc) auto
  then show ?thesis
    by (simp add: Walk_def tree_entries_def walk_fold split: option.splits)
qed


section \<open>The tree as a keyed store\<close>

interpretation cbm: key_map "tree_ok L" "\<lambda>k. length k = L" New Get
  "\<lambda>t k v. fst (Insert t k v)" "\<lambda>t k. fst (Delete t k)" for L
proof
  show "tree_ok L New" by (rule tree_ok_New)
  show "Get New k = None" for k
    by (simp add: Get_tree_map [OF tree_ok_New] tree_map_New)
  fix t :: cb_tree and k :: bytes and v :: cb_value
  assume ok: "tree_ok L t"
  show "tree_ok L (fst (Delete t k))" using Delete_correct [OF ok] by blast
  show "Get (fst (Delete t k)) = (Get t)(k := None)"
    using Delete_correct [OF ok, of k] Get_tree_map [OF ok] by (auto simp: Get_tree_map fun_eq_iff)
  assume len: "length k = L"
  show "tree_ok L (fst (Insert t k v))" using Insert_correct [OF ok len] by blast
  show "Get (fst (Insert t k v)) = (Get t)(k \<mapsto> v)"
    using Insert_correct [OF ok len, of v] Get_tree_map [OF ok] by (auto simp: Get_tree_map fun_eq_iff)
qed

text \<open>A run of updates, and the map it stands for.\<close>

datatype cb_op = OpInsert bytes cb_value | OpDelete bytes | OpClear

fun run_op :: "cb_op \<Rightarrow> cb_tree \<Rightarrow> cb_tree" where
  "run_op (OpInsert k v) t = fst (Insert t k v)"
| "run_op (OpDelete k) t = fst (Delete t k)"
| "run_op OpClear t = fst (Clear t)"

fun spec_op :: "cb_op \<Rightarrow> (bytes \<rightharpoonup> cb_value) \<Rightarrow> (bytes \<rightharpoonup> cb_value)" where
  "spec_op (OpInsert k v) m = m(k \<mapsto> v)"
| "spec_op (OpDelete k) m = m(k := None)"
| "spec_op OpClear m = Map.empty"

fun op_len_ok :: "nat \<Rightarrow> cb_op \<Rightarrow> bool" where
  "op_len_ok L (OpInsert k v) \<longleftrightarrow> length k = L"
| "op_len_ok L _ \<longleftrightarrow> True"

lemma Clear_ok: "tree_ok L t \<Longrightarrow> tree_ok L (fst (Clear t)) \<and> tree_map (fst (Clear t)) = Map.empty"
  by (auto simp: Clear_def tree_ok_def tree_map_def tree_entries_def)

lemma run_op_simulates:
  assumes "tree_ok L t" "op_len_ok L p" "tree_map t = m"
  shows "tree_ok L (run_op p t) \<and> tree_map (run_op p t) = spec_op p m"
  using assms Insert_correct Delete_correct Clear_ok by (cases p) auto

lemma run_ops_simulate:
  assumes "tree_ok L t" "\<forall>p\<in>set ops. op_len_ok L p" "tree_map t = m"
  shows "tree_ok L (fold run_op ops t) \<and> tree_map (fold run_op ops t) = fold spec_op ops m"
  using assms
proof (induction ops arbitrary: t m)
  case Nil
  then show ?case by simp
next
  case (Cons p ops)
  then show ?case using run_op_simulates [of L t p m] by simp
qed

lemma tree_ok_Size: "tree_ok L t \<Longrightarrow> Len t = int (card (dom (tree_map t)))"
proof -
  assume ok: "tree_ok L t"
  have "card (dom (tree_map t)) = card (fst ` set (tree_entries t))"
    by (simp add: tree_map_def dom_map_of_conv_image_fst)
  also have "\<dots> = length (tree_entries t)"
    using tree_ok_distinct [OF ok] by (metis distinct_card length_map set_map)
  finally show ?thesis using ok by (simp add: Len_def tree_ok_def)
qed

section \<open>Properties\<close>

text \<open>
  C11. Any sequence of insertions, deletions and clearings of keys of one length, started
  from the empty tree, behaves as the same sequence on a finite map: \<open>Get\<close> reads that
  map and \<open>Len\<close> counts its keys.
\<close>

theorem critbit_refines_map:
  assumes "\<forall>p\<in>set ops. op_len_ok L p"
  shows "Get (fold run_op ops New) = fold spec_op ops Map.empty \<and>
         Len (fold run_op ops New) = int (card (dom (fold spec_op ops Map.empty)))"
proof -
  have *: "tree_ok L (fold run_op ops New)"
    "tree_map (fold run_op ops New) = fold spec_op ops Map.empty"
    using run_ops_simulate [OF tree_ok_New assms tree_map_New] by blast+
  then have "Get (fold run_op ops New) = fold spec_op ops Map.empty"
    using Get_tree_map [OF *(1)] by (simp add: fun_eq_iff)
  then show ?thesis using tree_ok_Size [OF *(1)] *(2) by simp
qed

definition sample_value :: "u64 \<Rightarrow> cb_value" where
  "sample_value f = \<lparr>Key = [], EarliestFrame = f, LatestFrame = f, Count = 0\<rparr>"

definition sample_ops :: "cb_op list" where
  "sample_ops =
     [OpInsert [1, 7] (sample_value 1), OpInsert [1, 6] (sample_value 2),
      OpInsert [9, 0] (sample_value 3), OpDelete [1, 7], OpInsert [1, 6] (sample_value 4)]"

theorem critbit_refines_map_witness:
  "Get (fold run_op sample_ops New) = fold spec_op sample_ops Map.empty \<and>
   Len (fold run_op sample_ops New) = int (card (dom (fold spec_op sample_ops Map.empty)))"
proof -
  have "\<forall>p\<in>set sample_ops. op_len_ok 2 p" by (simp add: sample_ops_def)
  then show ?thesis using critbit_refines_map by blast
qed

text \<open>
  C30. A walk that never stops visits every element once, in increasing order of
  \<open>bytes.Compare\<close>; \<open>Minimum\<close> and \<open>Maximum\<close> are the ends of that order.
\<close>

theorem critbit_walk_sorted:
  assumes "tree_ok L t"
  shows "let es = Walk t (\<lambda>k v s. (s @ [(k, v)], False)) [] in
         sorted_wrt ord_class.lexordp (map fst es) \<and> map_of es = Get t \<and>
         (Root t \<noteq> None \<longrightarrow> Minimum t = Some (hd es) \<and> Maximum t = Some (last es))"
proof -
  have "sorted_wrt ord_class.lexordp (map fst (tree_entries t))"
    using assms entries_sorted by (auto simp: tree_ok_def tree_entries_def split: option.splits)
  moreover have "map_of (tree_entries t) = Get t"
    using Get_tree_map [OF assms] by (simp add: tree_map_def fun_eq_iff)
  moreover have "Minimum t = Some (hd (tree_entries t)) \<and> Maximum t = Some (last (tree_entries t))"
    if "Root t \<noteq> None"
    using that
    by (auto simp: tree_entries_def Minimum_def Maximum_def min_node_entries max_node_entries)
  ultimately show ?thesis by (simp add: Walk_collect Let_def)
qed

definition sample_tree :: cb_tree where
  "sample_tree = fold run_op
     [OpInsert [9, 0] (sample_value 3), OpInsert [1, 6] (sample_value 2)] New"

theorem critbit_walk_sorted_witness:
  "tree_ok 2 sample_tree \<and> Root sample_tree \<noteq> None \<and>
   Minimum sample_tree = Some (hd (Walk sample_tree (\<lambda>k v s. (s @ [(k, v)], False)) [])) \<and>
   map_of (Walk sample_tree (\<lambda>k v s. (s @ [(k, v)], False)) []) = Get sample_tree"
proof -
  have "\<forall>p\<in>set [OpInsert [9, 0] (sample_value 3), OpInsert [1, 6] (sample_value 2)]. op_len_ok 2 p"
    by simp
  from run_ops_simulate [OF tree_ok_New this refl] have ok: "tree_ok 2 sample_tree"
    by (simp only: sample_tree_def)
  have "Root sample_tree \<noteq> None"
    by (simp add: sample_tree_def Insert_def New_def findFirstDiffByte_def Let_def)
  with ok critbit_walk_sorted [OF ok] show ?thesis by (simp add: Let_def)
qed

section \<open>Outside the discipline\<close>

text \<open>
  With keys of different lengths the tree loses entries: after \<open>a\<close> and \<open>a 0 0\<close>, the
  insertion of \<open>a 0\<close> puts a length test above the node that separates the first two,
  and \<open>a 0 0\<close> is no longer found, though \<open>Len\<close> counts three elements.
\<close>

definition lost_tree :: cb_tree where
  "lost_tree = fold run_op
     [OpInsert [97] (sample_value 1), OpInsert [97, 0, 0] (sample_value 2),
      OpInsert [97, 0] (sample_value 3)] New"

theorem critbit_mixed_length_loses_key:
  "Get lost_tree [97, 0, 0] = None \<and> Len lost_tree = 3 \<and>
   Get (fst (Delete lost_tree [97, 0])) [97, 0, 0] = Some (sample_value 2)"
  by code_simp

text \<open>
  \<open>WalkPrefix\<close> on a tree with one element panics when that element has the prefix.
\<close>

theorem walk_prefix_single_panics:
  "has_prefix key prefix \<Longrightarrow>
   WalkPrefix \<lparr>Root = Some (ENode key v), Size = 1\<rparr> prefix fn s = Inl Panic"
  by (simp add: WalkPrefix_def lookup_def)

end
