(* ===== verification/RollingTrie.thy ===== *)
theory RollingTrie
  imports CritBit "HOL-Library.Multiset"
begin

text \<open>
  \<open>node/tries/rolling_frecency_critbit_trie.go\<close>: the tries of provers of the token
  application. \<open>t.Trie\<close> is a pointer that every method replaces by \<open>New()\<close> when it is nil;
  the pointer is an \<open>option\<close> and \<open>trie_of\<close> is that first step. \<open>gob\<close> is an argument of
  \<open>Serialize\<close> and \<open>Deserialize\<close>. The read-write mutex serialises the methods.
\<close>

section \<open>Operations\<close>

type_synonym rolling_trie = "cb_tree option"

definition trie_of :: "rolling_trie \<Rightarrow> cb_tree" where
  "trie_of t = (case t of None \<Rightarrow> New | Some tr \<Rightarrow> tr)"

definition Serialize :: "(cb_tree \<Rightarrow> bytes result) \<Rightarrow> rolling_trie \<Rightarrow> bytes result" where
  "Serialize gob_encode t = gob_encode (trie_of t)"

text \<open>
  The decoder writes into \<open>&t.Trie\<close>: it returns the new pointer and whether it succeeded.
\<close>

definition Deserialize ::
    "(bytes \<Rightarrow> rolling_trie \<Rightarrow> rolling_trie \<times> bool) \<Rightarrow> rolling_trie \<Rightarrow> bytes \<Rightarrow> rolling_trie" where
  "Deserialize gob_decode t buf =
     (if buf = [] then t
      else case gob_decode buf t of
             (t', True) \<Rightarrow> t'
           | (t', False) \<Rightarrow> (if t' = None then Some New else t'))"

definition Contains :: "rolling_trie \<Rightarrow> bytes \<Rightarrow> bool" where
  "Contains t address = (CritBit.Get (trie_of t) address \<noteq> None)"

definition zero_value :: cb_value where
  "zero_value = \<lparr>Key = [], EarliestFrame = 0, LatestFrame = 0, Count = 0\<rparr>"

definition Get :: "rolling_trie \<Rightarrow> bytes \<Rightarrow> cb_value" where
  "Get t address =
     (case CritBit.Get (trie_of t) address of None \<Rightarrow> zero_value | Some v \<Rightarrow> v)"

text \<open>
  The comparison of \<open>sort.Slice\<close>: the bytes past the end of a key are 0, the first index
  at which the distances to the target differ decides, and no such index gives true.
\<close>

definition byte_at :: "bytes \<Rightarrow> nat \<Rightarrow> byte" where
  "byte_at a i = (if i < length a then a ! i else 0)"

definition byte_diff :: "byte \<Rightarrow> byte \<Rightarrow> byte" where
  "byte_diff t a = (if t \<ge> a then t - a else a - t)"

fun near_at :: "bytes \<Rightarrow> bytes \<Rightarrow> bytes \<Rightarrow> nat list \<Rightarrow> bool" where
  "near_at address a b [] = True"
| "near_at address a b (i # is) =
     (let aDiff = byte_diff (byte_at address i) (byte_at a i);
          bDiff = byte_diff (byte_at address i) (byte_at b i)
      in if aDiff \<noteq> bDiff then aDiff < bDiff else near_at address a b is)"

definition nearer :: "bytes \<Rightarrow> bytes \<Rightarrow> bytes \<Rightarrow> bool" where
  "nearer address a b = near_at address a b [0..<max (max (length address) (length a)) (length b)]"

text \<open>
  \<open>sort.Slice\<close> on up to 12 elements is this insertion sort: an element moves left while it
  is less than its left neighbour. \<open>rsorted\<close> is the sorted prefix, last element first. On
  longer slices the library partitions; the outcome is the same list whenever the order
  has no ties (\<open>sorted_perm_unique\<close>).
\<close>

fun sift :: "('a \<Rightarrow> 'a \<Rightarrow> bool) \<Rightarrow> 'a \<Rightarrow> 'a list \<Rightarrow> 'a list" where
  "sift lt x [] = [x]"
| "sift lt x (y # rsorted) = (if lt x y then y # sift lt x rsorted else x # y # rsorted)"

definition sort_slice :: "('a \<Rightarrow> 'a \<Rightarrow> bool) \<Rightarrow> 'a list \<Rightarrow> 'a list" where
  "sort_slice lt xs = rev (fold (sift lt) xs [])"

definition FindNearestAndApproximateNeighbors :: "rolling_trie \<Rightarrow> bytes \<Rightarrow> cb_value list" where
  "FindNearestAndApproximateNeighbors t address =
     sort_slice (\<lambda>v w. nearer address (Key v) (Key w))
       (Walk (trie_of t) (\<lambda>k v ret. (ret @ [v], False)) [])"

definition FindNearest :: "rolling_trie \<Rightarrow> bytes \<Rightarrow> cb_value result" where
  "FindNearest t address =
     (case FindNearestAndApproximateNeighbors t address of [] \<Rightarrow> Inl Panic | v # vs \<Rightarrow> Inr v)"

definition Add :: "rolling_trie \<Rightarrow> bytes \<Rightarrow> u64 \<Rightarrow> rolling_trie" where
  "Add t address latestFrame =
     (let tr = trie_of t;
          v = (case CritBit.Get tr address of
                 None \<Rightarrow> \<lparr>Key = address, EarliestFrame = latestFrame, LatestFrame = latestFrame, Count = 0\<rparr>
               | Some v \<Rightarrow> v)
      in Some (fst (Insert tr address (v\<lparr>LatestFrame := latestFrame\<rparr>))))"

definition Remove :: "rolling_trie \<Rightarrow> bytes \<Rightarrow> rolling_trie" where
  "Remove t address = Some (fst (Delete (trie_of t) address))"

section \<open>The trie as a map\<close>

text \<open>
  The invariant of the prover tries: addresses of one length, each value carrying its
  address as \<open>Key\<close>.
\<close>

definition rolling_ok :: "nat \<Rightarrow> rolling_trie \<Rightarrow> bool" where
  "rolling_ok L t \<longleftrightarrow> tree_ok L (trie_of t) \<and>
     (\<forall>k v. tree_map (trie_of t) k = Some v \<longrightarrow> Key v = k)"

definition rolling_map :: "rolling_trie \<Rightarrow> bytes \<rightharpoonup> cb_value" where
  "rolling_map t = tree_map (trie_of t)"

lemma trie_of_simps [simp]: "trie_of None = New" "trie_of (Some tr) = tr"
  by (simp_all add: trie_of_def)

lemma rolling_ok_None [simp]: "rolling_ok L None"
  by (simp add: rolling_ok_def tree_ok_New tree_map_New)

lemma rolling_map_None [simp]: "rolling_map None = Map.empty"
  by (simp add: rolling_map_def tree_map_New)

lemma rolling_lookup:
  assumes "rolling_ok L t"
  shows "Contains t a \<longleftrightarrow> a \<in> dom (rolling_map t)"
    and "Get t a = (case rolling_map t a of None \<Rightarrow> zero_value | Some v \<Rightarrow> v)"
  using assms Get_tree_map [of L "trie_of t" a]
  by (auto simp: Contains_def Get_def rolling_ok_def rolling_map_def split: option.splits)

definition added :: "bytes \<Rightarrow> u64 \<Rightarrow> cb_value option \<Rightarrow> cb_value" where
  "added a f old = (case old of
      None \<Rightarrow> \<lparr>Key = a, EarliestFrame = f, LatestFrame = f, Count = 0\<rparr>
    | Some v \<Rightarrow> v\<lparr>LatestFrame := f\<rparr>)"

lemma Add_correct:
  assumes "rolling_ok L t" "length a = L"
  shows "rolling_ok L (Add t a f) \<and>
         rolling_map (Add t a f) = (rolling_map t)(a \<mapsto> added a f (rolling_map t a))"
proof -
  let ?v = "added a f (rolling_map t a)"
  have ok: "tree_ok L (trie_of t)" using assms by (simp add: rolling_ok_def)
  have "Add t a f = Some (fst (Insert (trie_of t) a ?v))"
    using Get_tree_map [OF ok] by (simp add: Add_def added_def rolling_map_def Let_def split: option.splits)
  moreover have "Key ?v = a"
    using assms by (auto simp: added_def rolling_ok_def rolling_map_def split: option.splits)
  ultimately show ?thesis
    using assms Insert_correct [OF ok assms(2), of ?v]
    by (auto simp: rolling_ok_def rolling_map_def)
qed

lemma Remove_correct:
  assumes "rolling_ok L t"
  shows "rolling_ok L (Remove t a) \<and> rolling_map (Remove t a) = (rolling_map t)(a := None)"
  using assms Delete_correct [of L "trie_of t" a]
  by (auto simp: rolling_ok_def rolling_map_def Remove_def)

section \<open>Histories of joins and leaves\<close>

datatype trie_op = OpAdd bytes u64 | OpRemove bytes

fun run_trie_op :: "trie_op \<Rightarrow> rolling_trie \<Rightarrow> rolling_trie" where
  "run_trie_op (OpAdd a f) t = Add t a f"
| "run_trie_op (OpRemove a) t = Remove t a"

fun trie_op_ok :: "nat \<Rightarrow> trie_op \<Rightarrow> bool" where
  "trie_op_ok L (OpAdd a f) = (length a = L)"
| "trie_op_ok L (OpRemove a) = True"

text \<open>The frames of the additions of \<open>a\<close> since it was last removed.\<close>

fun frames_of :: "bytes \<Rightarrow> trie_op list \<Rightarrow> u64 list \<Rightarrow> u64 list" where
  "frames_of a [] fs = fs"
| "frames_of a (OpAdd b f # ops) fs = frames_of a ops (if b = a then fs @ [f] else fs)"
| "frames_of a (OpRemove b # ops) fs = frames_of a ops (if b = a then [] else fs)"

definition frames_value :: "bytes \<Rightarrow> u64 list \<Rightarrow> cb_value option" where
  "frames_value a fs = (if fs = [] then None
     else Some \<lparr>Key = a, EarliestFrame = hd fs, LatestFrame = last fs, Count = 0\<rparr>)"

lemma frames_value_snoc:
  "added a f (frames_value a fs) = the (frames_value a (fs @ [f]))"
  by (simp add: added_def frames_value_def)

lemma run_trie_ops:
  assumes "rolling_ok L t" "\<forall>p\<in>set ops. trie_op_ok L p" "rolling_map t a = frames_value a fs"
  shows "rolling_ok L (fold run_trie_op ops t) \<and>
         rolling_map (fold run_trie_op ops t) a = frames_value a (frames_of a ops fs)"
  using assms
proof (induction ops arbitrary: t fs)
  case Nil
  then show ?case by simp
next
  case (Cons p ops)
  show ?case
  proof (cases p)
    case (OpAdd b f)
    then have *: "rolling_ok L (Add t b f)"
      "rolling_map (Add t b f) = (rolling_map t)(b \<mapsto> added b f (rolling_map t b))"
      using Cons.prems Add_correct [of L t b f] by auto
    have "rolling_map (Add t b f) a = frames_value a (if b = a then fs @ [f] else fs)"
      using Cons.prems(3) frames_value_snoc [of a f fs] by (auto simp: * frames_value_def)
    then show ?thesis
      using Cons.IH [OF *(1)] Cons.prems(2) OpAdd by simp
  next
    case (OpRemove b)
    have *: "rolling_ok L (Remove t b)" "rolling_map (Remove t b) = (rolling_map t)(b := None)"
      using Cons.prems(1) Remove_correct [of L t b] by auto
    have "rolling_map (Remove t b) a = frames_value a (if b = a then [] else fs)"
      using Cons.prems(3) by (auto simp: * frames_value_def)
    then show ?thesis
      using Cons.IH [OF *(1)] Cons.prems(2) OpRemove by simp
  qed
qed

section \<open>Order of the neighbours\<close>

lemma near_at_total: "near_at t a b is \<or> near_at t b a is"
  by (induction "is") (auto simp: Let_def)

lemma near_at_trans: "near_at t a b is \<Longrightarrow> near_at t b c is \<Longrightarrow> near_at t a c is"
  by (induction "is") (auto simp: Let_def split: if_splits)

lemma near_at_append:
  "\<forall>i\<in>set js. byte_at a i = byte_at b i \<Longrightarrow> near_at t a b (is @ js) = near_at t a b is"
proof (induction "is")
  case Nil
  then show ?case by (induction js) (auto simp: Let_def)
qed (simp add: Let_def)

lemma nearer_at:
  assumes "length t \<le> n" "length a \<le> n" "length b \<le> n"
  shows "nearer t a b = near_at t a b [0..<n]"
proof -
  let ?m = "max (max (length t) (length a)) (length b)"
  have "[0..<n] = [0..<?m] @ [?m..<n]"
    using assms upt_add_eq_append [of 0 ?m "n - ?m"] by simp
  then show ?thesis
    using near_at_append [of "[?m..<n]" a b t "[0..<?m]"] by (simp add: nearer_def byte_at_def)
qed

lemma nearer_total: "nearer t a b \<or> nearer t b a"
  using near_at_total by (simp add: nearer_def max.commute max.left_commute)

lemma nearer_trans: "nearer t a b \<Longrightarrow> nearer t b c \<Longrightarrow> nearer t a c"
proof -
  let ?n = "length t + length a + length b + length c"
  assume "nearer t a b" "nearer t b c"
  then show ?thesis
    using near_at_trans [of t a b "[0..<?n]" c]
      nearer_at [of t ?n a b] nearer_at [of t ?n b c] nearer_at [of t ?n a c] by simp
qed

lemma mset_sift [simp]: "mset (sift lt x ys) = add_mset x (mset ys)"
  by (induction ys) auto

lemma sorted_sift:
  assumes "\<And>x y. lt x y \<or> lt y x" "\<And>x y z. lt x y \<Longrightarrow> lt y z \<Longrightarrow> lt x z"
  shows "sorted_wrt (\<lambda>x y. lt y x) ys \<Longrightarrow> sorted_wrt (\<lambda>x y. lt y x) (sift lt x ys)"
proof (induction ys)
  case (Cons y ys)
  have "set (sift lt x ys) = insert x (set ys)"
    by (metis mset_sift set_mset_add_mset_insert set_mset_mset)
  moreover have "lt y x" if "\<not> lt x y" using assms(1) that by blast
  ultimately show ?case
    using Cons assms(2) by (auto intro: assms(2))
qed simp

lemma sort_slice_correct:
  assumes "\<And>x y. lt x y \<or> lt y x" "\<And>x y z. lt x y \<Longrightarrow> lt y z \<Longrightarrow> lt x z"
  shows "mset (sort_slice lt xs) = mset xs \<and> sorted_wrt lt (sort_slice lt xs)"
proof -
  note sift = sorted_sift [of lt, OF assms]
  have "mset (fold (sift lt) xs ys) = mset xs + mset ys \<and>
        (sorted_wrt (\<lambda>x y. lt y x) ys \<longrightarrow> sorted_wrt (\<lambda>x y. lt y x) (fold (sift lt) xs ys))" for ys
    by (induction xs arbitrary: ys) (auto simp: sift)
  from this [of "[]"] show ?thesis
    by (simp add: sort_slice_def sorted_wrt_rev)
qed

text \<open>Where no two elements tie, every sorted permutation is the same list.\<close>

lemma sorted_perm_unique:
  assumes "sorted_wrt lt xs" "sorted_wrt lt ys" "mset xs = mset ys"
    and "\<And>x y. x \<in> set xs \<Longrightarrow> y \<in> set xs \<Longrightarrow> lt x y \<Longrightarrow> lt y x \<Longrightarrow> x = y"
  shows "xs = ys"
  using assms
proof (induction xs arbitrary: ys)
  case (Cons x xs)
  then obtain y zs where ys: "ys = y # zs" by (cases ys) auto
  have "x \<in> set ys" "y \<in> set (x # xs)"
    using Cons.prems(3) ys by (metis list.set_intros(1) mset_eq_setD)+
  then have "x = y"
    using Cons.prems(1,2,4) ys by (metis list.set_intros(1) set_ConsD sorted_wrt.simps(2))
  moreover have "xs = zs"
  proof (rule Cons.IH)
    show "mset xs = mset zs" using Cons.prems(3) ys \<open>x = y\<close> by simp
  qed (use Cons.prems ys in auto)
  ultimately show ?case using ys by simp
qed simp

lemma Walk_values: "Walk t (\<lambda>k v ret. (ret @ [v], False)) acc = acc @ map snd (tree_entries t)"
proof -
  have "fold (\<lambda>(k, v) s. s @ [v]) xs acc = acc @ map snd xs" for xs :: "(bytes \<times> cb_value) list" and acc
    by (induction xs arbitrary: acc) auto
  then show ?thesis
    by (simp add: Walk_def tree_entries_def walk_fold split: option.splits)
qed

lemma neighbors_correct:
  "mset (FindNearestAndApproximateNeighbors t a) = mset (map snd (tree_entries (trie_of t))) \<and>
   sorted_wrt (\<lambda>v w. nearer a (Key v) (Key w)) (FindNearestAndApproximateNeighbors t a)"
  using sort_slice_correct [of "\<lambda>v w. nearer a (Key v) (Key w)" "map snd (tree_entries (trie_of t))"]
    nearer_total nearer_trans
  by (auto simp: FindNearestAndApproximateNeighbors_def Walk_values)

text \<open>
  With the zero address, which is what the callers pass, the distance of a key is the key,
  so no two keys of one length tie and the neighbours come in the order of the walk.
\<close>

lemma nearer_zero_eq:
  assumes "length a = length b" "nearer (replicate n 0) a b" "nearer (replicate n 0) b a"
  shows "a = b"
proof -
  have diff0: "byte_diff 0 x = x" for x by (simp add: byte_diff_def)
  have t: "byte_at (replicate n 0) i = 0" for i by (simp add: byte_at_def)
  have "\<forall>i\<in>set is. byte_at a i = byte_at b i"
    if "near_at (replicate n 0) a b is" "near_at (replicate n 0) b a is" for "is"
    using that by (induction "is") (auto simp: t diff0 Let_def split: if_splits)
  then have "\<forall>i\<in>set [0..<max (max n (length a)) (length b)]. byte_at a i = byte_at b i"
    using assms by (simp add: nearer_def max.commute max.left_commute)
  then have "a ! i = b ! i" if "i < length a" for i
    using assms(1) that by (auto simp: byte_at_def dest!: bspec [of _ _ i])
  then show ?thesis
    using assms(1) by (intro nth_equalityI)
qed

lemma lexordp_nearer_zero:
  "length a = length b \<Longrightarrow> ord_class.lexordp a b \<Longrightarrow> nearer (replicate n 0) a b"
proof (rule ccontr)
  assume len: "length a = length b" and lex: "ord_class.lexordp a b" and "\<not> nearer (replicate n 0) a b"
  have diff0: "byte_diff 0 x = x" for x by (simp add: byte_diff_def)
  have t: "byte_at (replicate n 0) i = 0" for i by (simp add: byte_at_def)
  from lex len obtain i where i: "i < length a" "a ! i < b ! i" "\<forall>j<i. a ! j = b ! j"
  proof (induction a b arbitrary: thesis rule: list_induct2')
    case (4 x xs y ys)
    show ?case
    proof (cases "x < y")
      case True
      then show ?thesis using 4(2) [of 0] by simp
    next
      case False
      with 4(3) have xy: "x = y" "ord_class.lexordp xs ys" by auto
      with 4 obtain i where i: "i < length xs" "xs ! i < ys ! i" "\<forall>j<i. xs ! j = ys ! j" by auto
      then have "(x # xs) ! j = (y # ys) ! j" if "j < Suc i" for j using xy that by (cases j) auto
      then show ?thesis using i by (intro 4(2) [of "Suc i"]) simp_all
    qed
  qed auto
  let ?m = "max (max n (length a)) (length b)"
  have split: "[0..<?m] = [0..<i] @ i # [Suc i..<?m]"
    using i(1) upt_add_eq_append [of 0 i "?m - i"] upt_conv_Cons [of i ?m] by simp
  have "near_at (replicate n 0) a b (js @ i # is)" if "\<forall>j\<in>set js. j < i" for js "is"
    using that i len by (induction js) (auto simp: t diff0 Let_def byte_at_def)
  then have "nearer (replicate n 0) a b"
    by (simp add: nearer_def split)
  then show False using \<open>\<not> nearer (replicate n 0) a b\<close> by simp
qed

lemma tree_entries_map:
  assumes "tree_ok L t"
  shows "(k, v) \<in> set (tree_entries t) \<longleftrightarrow> tree_map t k = Some v"
  using tree_ok_distinct [OF assms] by (simp add: tree_map_def)

lemma tree_entries_length:
  assumes "tree_ok L t" "(k, v) \<in> set (tree_entries t)"
  shows "length k = L"
  using assms cb_inv_length by (fastforce simp: tree_ok_def tree_entries_def keys_def split: option.splits)

section \<open>Properties\<close>

text \<open>
  C28: after any sequence of \<open>Add\<close> and \<open>Remove\<close> with addresses of one length on an empty
  trie, an address is contained exactly when it was added since it was last removed, and
  \<open>Get\<close> then returns its address, the frame of its first addition since that removal, the
  frame of its last addition and count 0; otherwise \<open>Get\<close> returns the zero value.
\<close>

theorem rolling_trie_history:
  assumes "\<forall>p\<in>set ops. trie_op_ok L p"
  shows "let t = fold run_trie_op ops None; fs = frames_of a ops [] in
         (Contains t a \<longleftrightarrow> fs \<noteq> []) \<and>
         Get t a = (if fs = [] then zero_value
           else \<lparr>Key = a, EarliestFrame = hd fs, LatestFrame = last fs, Count = 0\<rparr>)"
  using run_trie_ops [of L None ops a "[]"] assms
    rolling_lookup [of L "fold run_trie_op ops None" a]
  by (auto simp: frames_value_def Let_def)

theorem rolling_trie_history_witness:
  "let ops = [OpAdd [1, 2] 5, OpAdd [1, 3] 6, OpRemove [1, 2], OpAdd [1, 2] 7, OpAdd [1, 2] 9];
       t = fold run_trie_op ops None
   in Contains t [1, 2] \<and>
      Get t [1, 2] = \<lparr>Key = [1, 2], EarliestFrame = 7, LatestFrame = 9, Count = 0\<rparr>"
  using rolling_trie_history
    [of "[OpAdd [1, 2] 5, OpAdd [1, 3] 6, OpRemove [1, 2], OpAdd [1, 2] 7, OpAdd [1, 2] 9]" 2 "[1, 2]"]
  by (simp add: Let_def)

text \<open>
  C29: the neighbours of the zero address (the address the consensus code asks for to list
  a ring) are the values of the trie, each once, in strictly ascending order of their keys,
  so \<open>FindNearest\<close> returns the value of the least key and panics on an empty trie only.
\<close>

theorem neighbors_ascending:
  assumes "rolling_ok L t"
  shows "let vs = FindNearestAndApproximateNeighbors t (replicate n 0) in
         sorted_wrt ord_class.lexordp (map Key vs) \<and>
         (\<forall>v. v \<in> set vs \<longleftrightarrow> rolling_map t (Key v) = Some v) \<and>
         length vs = nat (Len (trie_of t)) \<and>
         FindNearest t (replicate n 0) = (if vs = [] then Inl Panic else Inr (hd vs))"
proof -
  let ?vs = "FindNearestAndApproximateNeighbors t (replicate n 0)"
  let ?es = "tree_entries (trie_of t)"
  have ok: "tree_ok L (trie_of t)" using assms by (simp add: rolling_ok_def)
  have key: "Key v = k" "length k = L" if "(k, v) \<in> set ?es" for k v
    using assms that tree_entries_map [OF ok] tree_entries_length [OF ok] by (auto simp: rolling_ok_def)
  have keys: "map Key (map snd ?es) = map fst ?es"
    using key by auto
  have sorted: "sorted_wrt ord_class.lexordp (map Key (map snd ?es))"
    unfolding keys using ok entries_sorted by (auto simp: tree_ok_def tree_entries_def split: option.splits)
  have dist: "distinct (map Key (map snd ?es))" unfolding keys by (rule tree_ok_distinct [OF ok])
  have near: "sorted_wrt (\<lambda>v w. nearer (replicate n 0) (Key v) (Key w)) (map snd ?es)"
    using sorted [unfolded sorted_wrt_map [of _ Key]]
  proof (rule sorted_wrt_mono_rel [rotated])
    fix x y assume "x \<in> set (map snd ?es)" "y \<in> set (map snd ?es)" "ord_class.lexordp (Key x) (Key y)"
    then show "nearer (replicate n 0) (Key x) (Key y)"
      using key by (intro lexordp_nearer_zero) auto
  qed
  have "?vs = map snd ?es"
  proof (rule sorted_perm_unique [OF _ near])
    show "sorted_wrt (\<lambda>v w. nearer (replicate n 0) (Key v) (Key w)) ?vs"
      and m: "mset ?vs = mset (map snd ?es)"
      using neighbors_correct by blast+
    fix v w assume "v \<in> set ?vs" "w \<in> set ?vs"
    then have vw: "v \<in> set (map snd ?es)" "w \<in> set (map snd ?es)"
      using m by (metis mset_eq_setD)+
    assume "nearer (replicate n 0) (Key v) (Key w)" "nearer (replicate n 0) (Key w) (Key v)"
    moreover have "length (Key v) = length (Key w)" using vw key by auto
    ultimately have "Key v = Key w" by (intro nearer_zero_eq)
    with dist vw show "v = w" by (meson distinct_map inj_onD)
  qed
  moreover have "v \<in> snd ` set ?es \<longleftrightarrow> rolling_map t (Key v) = Some v" for v
  proof
    assume "v \<in> snd ` set ?es"
    then obtain k where k: "(k, v) \<in> set ?es" by auto
    then show "rolling_map t (Key v) = Some v"
      using key(1) [OF k] tree_entries_map [OF ok] by (simp add: rolling_map_def)
  next
    assume "rolling_map t (Key v) = Some v"
    then have "(Key v, v) \<in> set ?es" using tree_entries_map [OF ok] by (simp add: rolling_map_def)
    then show "v \<in> snd ` set ?es" by (metis image_eqI snd_conv)
  qed
  moreover have "length ?es = nat (Len (trie_of t))"
    using ok by (simp add: tree_ok_def Len_def)
  ultimately show ?thesis
    using sorted by (auto simp: Let_def FindNearest_def split: list.splits)
qed

definition sample_trie :: rolling_trie where
  "sample_trie = fold run_trie_op [OpAdd [9, 1] 5, OpAdd [1, 3] 6, OpAdd [4, 4] 7] None"

theorem neighbors_ascending_witness:
  "rolling_ok 2 sample_trie \<and> map Key (FindNearestAndApproximateNeighbors sample_trie (replicate 32 0)) =
     [[1, 3], [4, 4], [9, 1]] \<and>
   sorted_wrt ord_class.lexordp (map Key (FindNearestAndApproximateNeighbors sample_trie (replicate 32 0)))"
proof -
  have ok: "rolling_ok 2 sample_trie"
    using run_trie_ops [of 2 None "[OpAdd [9, 1] 5, OpAdd [1, 3] 6, OpAdd [4, 4] 7]" "[]" "[]"]
    by (simp add: sample_trie_def frames_value_def)
  moreover have "map Key (FindNearestAndApproximateNeighbors sample_trie (replicate 32 0)) = [[1, 3], [4, 4], [9, 1]]"
    by code_simp
  ultimately show ?thesis
    using neighbors_ascending [OF ok, of 32] by (simp add: Let_def)
qed

text \<open>
  For another address two keys on either side of it tie, and the comparison holds both ways:
  it is no strict order.
\<close>

theorem nearer_not_strict: "nearer [5] [4] [6] \<and> nearer [5] [6] [4]"
  by code_simp

end
