(* ===== verification/MinHeap.thy ===== *)
theory MinHeap
  imports Interfaces
begin

text \<open>
  The binary heap of \<open>node/tries/minheap.go\<close>. The interface \<open>Item\<close> is the argument
  \<open>prio\<close> of the operations (\<open>Priority() uint64\<close>); the heap is its slice of items.
\<close>

section \<open>Operations\<close>

definition swap :: "'a list \<Rightarrow> nat \<Rightarrow> nat \<Rightarrow> 'a list" where
  "swap xs i j = xs[i := xs ! j, j := xs ! i]"

definition parent :: "nat \<Rightarrow> nat" where
  "parent i = (i - 1) div 2"

lemma parent_less: "0 < i \<Longrightarrow> parent i < i"
  by (simp add: parent_def)

function upheap :: "('a \<Rightarrow> u64) \<Rightarrow> 'a list \<Rightarrow> nat \<Rightarrow> 'a list" where
  "upheap prio items i =
     (if i > 0 then
        (if prio (items ! i) \<ge> prio (items ! parent i) then items
         else upheap prio (swap items i (parent i)) (parent i))
      else items)"
  by pat_completeness auto
termination
  by (relation "measure (\<lambda>(prio, items, i). i)") (auto simp: parent_less)

text \<open>The child of \<open>i\<close> that \<open>downheap\<close> swaps with, or \<open>i\<close> itself.\<close>

definition smallest :: "('a \<Rightarrow> u64) \<Rightarrow> 'a list \<Rightarrow> nat \<Rightarrow> nat" where
  "smallest prio items i =
     (let left = 2 * i + 1; right = 2 * i + 2;
          s = (if left < length items \<and> prio (items ! left) < prio (items ! i) then left else i)
      in if right < length items \<and> prio (items ! right) < prio (items ! s) then right else s)"

lemma smallest_cases:
  "smallest prio items i = i \<or> i < smallest prio items i \<and> smallest prio items i < length items"
  by (auto simp: smallest_def Let_def)

function downheap :: "('a \<Rightarrow> u64) \<Rightarrow> 'a list \<Rightarrow> nat \<Rightarrow> 'a list" where
  "downheap prio items i =
     (let s = smallest prio items i in
      if s = i then items else downheap prio (swap items i s) s)"
  by pat_completeness auto
termination
proof (relation "measure (\<lambda>(prio, items, i). length items - i)")
  fix prio :: "'a \<Rightarrow> u64" and items i s
  assume "s = smallest prio items i" "s \<noteq> i"
  then show "((prio, swap items i s, s), prio, items, i) \<in> measure (\<lambda>(prio, items, i). length items - i)"
    using smallest_cases [of prio items i] by (auto simp: swap_def)
qed simp

declare upheap.simps [simp del] downheap.simps [simp del]

definition NewMinHeap :: "'a list" where
  "NewMinHeap = []"

definition Push :: "('a \<Rightarrow> u64) \<Rightarrow> 'a list \<Rightarrow> 'a \<Rightarrow> 'a list" where
  "Push prio items item = upheap prio (items @ [item]) (length items)"

definition Pop :: "('a \<Rightarrow> u64) \<Rightarrow> 'a list \<Rightarrow> ('a \<times> 'a list) option" where
  "Pop prio items =
     (if items = [] then None
      else let min = items ! 0; lastIdx = length items - 1;
               rest = take lastIdx (items[0 := items ! lastIdx])
           in Some (min, if rest \<noteq> [] then downheap prio rest 0 else rest))"

definition Peek :: "'a list \<Rightarrow> 'a option" where
  "Peek items = (if items = [] then None else Some (items ! 0))"

definition heap_Size :: "'a list \<Rightarrow> nat" where
  "heap_Size items = length items"

definition All :: "'a list \<Rightarrow> 'a list" where
  "All items = items"

section \<open>Heap order\<close>

definition heap_ok :: "('a \<Rightarrow> u64) \<Rightarrow> 'a list \<Rightarrow> bool" where
  "heap_ok prio xs \<longleftrightarrow> (\<forall>j. 0 < j \<and> j < length xs \<longrightarrow> prio (xs ! parent j) \<le> prio (xs ! j))"

lemma length_swap [simp]: "length (swap xs i j) = length xs"
  by (simp add: swap_def)

lemma mset_swap_eq: "i < length xs \<Longrightarrow> j < length xs \<Longrightarrow> mset (swap xs i j) = mset xs"
  unfolding swap_def by (rule mset_swap)

lemma nth_swap:
  "i < length xs \<Longrightarrow> j < length xs \<Longrightarrow>
   swap xs i j ! k = (if k = j then xs ! i else if k = i then xs ! j else xs ! k)"
  by (simp add: swap_def nth_list_update)

lemma mset_upheap: "i < length xs \<Longrightarrow> mset (upheap prio xs i) = mset xs"
proof (induction prio xs i rule: upheap.induct)
  case (1 prio xs i)
  show ?case
  proof (cases "0 < i \<and> \<not> prio (xs ! i) \<ge> prio (xs ! parent i)")
    case True
    then have "parent i < length xs" using 1(2) parent_less [of i] by simp
    with True 1 show ?thesis
      by (simp add: upheap.simps [of prio xs i] mset_swap_eq)
  next
    case False
    then show ?thesis by (auto simp: upheap.simps [of prio xs i])
  qed
qed

lemma mset_downheap: "i < length xs \<Longrightarrow> mset (downheap prio xs i) = mset xs"
proof (induction prio xs i rule: downheap.induct)
  case (1 prio xs i)
  let ?s = "smallest prio xs i"
  show ?case
  proof (cases "?s = i")
    case True
    then show ?thesis by (simp add: downheap.simps [of prio xs i])
  next
    case False
    then have "?s < length xs" using smallest_cases [of prio xs i] by simp
    with False 1 show ?thesis
      by (simp add: downheap.simps [of prio xs i] mset_swap_eq Let_def)
  qed
qed

text \<open>
  Both loops keep the heap order except around the index they are at: \<open>upheap\<close> between
  \<open>i\<close> and its parent, \<open>downheap\<close> between \<open>i\<close> and its children; a child of \<open>i\<close> is
  never below the parent of \<open>i\<close>.
\<close>

definition up_ok :: "('a \<Rightarrow> u64) \<Rightarrow> 'a list \<Rightarrow> nat \<Rightarrow> bool" where
  "up_ok prio xs i \<longleftrightarrow>
     (\<forall>j. 0 < j \<and> j < length xs \<and> j \<noteq> i \<longrightarrow> prio (xs ! parent j) \<le> prio (xs ! j)) \<and>
     (\<forall>c. 0 < i \<and> 0 < c \<and> c < length xs \<and> parent c = i \<longrightarrow> prio (xs ! parent i) \<le> prio (xs ! c))"

definition down_ok :: "('a \<Rightarrow> u64) \<Rightarrow> 'a list \<Rightarrow> nat \<Rightarrow> bool" where
  "down_ok prio xs i \<longleftrightarrow>
     (\<forall>j. 0 < j \<and> j < length xs \<and> parent j \<noteq> i \<longrightarrow> prio (xs ! parent j) \<le> prio (xs ! j)) \<and>
     (\<forall>c. 0 < i \<and> 0 < c \<and> c < length xs \<and> parent c = i \<longrightarrow> prio (xs ! parent i) \<le> prio (xs ! c))"

lemma up_ok_step:
  assumes "up_ok prio xs i" "0 < i" "i < length xs" "prio (xs ! i) < prio (xs ! parent i)"
  shows "up_ok prio (swap xs i (parent i)) (parent i)"
proof -
  have p: "parent i < i" "parent i < length xs" using assms(2,3) parent_less [of i] by auto
  note sw = nth_swap [OF assms(3) p(2)]
  have h1: "prio (xs ! parent j) \<le> prio (xs ! j)" if "0 < j" "j < length xs" "j \<noteq> i" for j
    using assms(1) that by (auto simp: up_ok_def)
  have h2: "prio (xs ! parent i) \<le> prio (xs ! c)" if "0 < c" "c < length xs" "parent c = i" for c
    using assms(1,2) that by (auto simp: up_ok_def)
  show ?thesis
    unfolding up_ok_def length_swap
  proof (intro conjI allI impI)
    fix j assume j: "0 < j \<and> j < length xs \<and> j \<noteq> parent i"
    show "prio (swap xs i (parent i) ! parent j) \<le> prio (swap xs i (parent i) ! j)"
    proof (cases "j = i")
      case True
      then show ?thesis using assms(4) p by (simp add: sw)
    next
      case False
      have "prio (xs ! i) \<le> prio (xs ! j)" if "parent j = parent i"
        using h1 [of j] j False that assms(4) by auto
      then show ?thesis
        using h1 [of j] h2 [of j] j False by (auto simp: sw)
    qed
  next
    fix c assume c: "0 < parent i \<and> 0 < c \<and> c < length xs \<and> parent c = parent i"
    have "parent (parent i) < parent i" using c parent_less by blast
    moreover have "prio (xs ! parent (parent i)) \<le> prio (xs ! parent i)"
      using h1 [of "parent i"] c p by auto
    moreover have "prio (xs ! parent i) \<le> prio (xs ! c)" if "c \<noteq> i"
      using h1 [of c] c that by auto
    ultimately show "prio (swap xs i (parent i) ! parent (parent i)) \<le> prio (swap xs i (parent i) ! c)"
      using p c parent_less [of c] by (auto simp: sw)
  qed
qed

lemma upheap_heap_ok:
  "up_ok prio xs i \<Longrightarrow> i < length xs \<Longrightarrow> heap_ok prio (upheap prio xs i)"
proof (induction prio xs i rule: upheap.induct)
  case (1 prio xs i)
  show ?case
  proof (cases "0 < i \<and> \<not> prio (xs ! i) \<ge> prio (xs ! parent i)")
    case True
    then have "up_ok prio (swap xs i (parent i)) (parent i)"
      using up_ok_step [of prio xs i] 1(2,3) by auto
    moreover have "parent i < length xs" using True 1(3) parent_less [of i] by simp
    ultimately show ?thesis
      using True 1(1) by (simp add: upheap.simps [of prio xs i])
  next
    case False
    then have "upheap prio xs i = xs" by (auto simp: upheap.simps [of prio xs i])
    with False 1(2) show ?thesis
      unfolding heap_ok_def up_ok_def by (metis not_gr_zero)
  qed
qed

lemma child_cases: "0 < c \<Longrightarrow> parent c = i \<longleftrightarrow> c = 2 * i + 1 \<or> c = 2 * i + 2"
  by (auto simp: parent_def)

lemma smallest_le:
  assumes "i < length xs"
  shows "prio (xs ! smallest prio xs i) \<le> prio (xs ! i)"
    and "0 < c \<Longrightarrow> c < length xs \<Longrightarrow> parent c = i \<Longrightarrow> prio (xs ! smallest prio xs i) \<le> prio (xs ! c)"
  using assms by (auto simp: smallest_def Let_def child_cases)

lemma smallest_child: "smallest prio xs i \<noteq> i \<Longrightarrow> parent (smallest prio xs i) = i"
  by (auto simp: smallest_def Let_def parent_def split: if_splits)

lemma down_ok_step:
  assumes "down_ok prio xs i" "i < length xs" "smallest prio xs i \<noteq> i"
  shows "down_ok prio (swap xs i (smallest prio xs i)) (smallest prio xs i)"
proof -
  let ?s = "smallest prio xs i"
  have s: "i < ?s" "?s < length xs" using smallest_cases [of prio xs i] assms(3) by auto
  have ps: "parent ?s = i" using assms(3) by (rule smallest_child)
  note sw = nth_swap [OF assms(2) s(2)]
  have h1: "prio (xs ! parent j) \<le> prio (xs ! j)" if "0 < j" "j < length xs" "parent j \<noteq> i" for j
    using assms(1) that by (auto simp: down_ok_def)
  have h2: "prio (xs ! parent i) \<le> prio (xs ! c)" if "0 < i" "0 < c" "c < length xs" "parent c = i" for c
    using assms(1) that by (auto simp: down_ok_def)
  have par: "parent c \<noteq> c" if "0 < c" for c using parent_less [OF that] by simp
  show ?thesis
    unfolding down_ok_def length_swap
  proof (intro conjI allI impI)
    fix j assume j: "0 < j \<and> j < length xs \<and> parent j \<noteq> ?s"
    consider "parent j = i" | "parent j \<noteq> i" "j = i" | "parent j \<noteq> i" "j \<noteq> i" by blast
    then show "prio (swap xs i ?s ! parent j) \<le> prio (swap xs i ?s ! j)"
    proof cases
      case 1
      then have "j \<noteq> i" using par j by metis
      then show ?thesis
        using 1 j s smallest_le [OF assms(2), where prio = prio] by (auto simp: sw)
    next
      case 2
      then show ?thesis
        using j s h2 [of ?s] ps by (auto simp: sw)
    next
      case 3
      then have "j \<noteq> ?s" using ps by auto
      then show ?thesis using 3 j h1 [of j] by (auto simp: sw)
    qed
  next
    fix c assume c: "0 < ?s \<and> 0 < c \<and> c < length xs \<and> parent c = ?s"
    then have "?s < c" using parent_less [of c] by simp
    then show "prio (swap xs i ?s ! parent ?s) \<le> prio (swap xs i ?s ! c)"
      using c s h1 [of c] ps by (auto simp: sw)
  qed
qed

lemma downheap_heap_ok:
  "down_ok prio xs i \<Longrightarrow> i < length xs \<Longrightarrow> heap_ok prio (downheap prio xs i)"
proof (induction prio xs i rule: downheap.induct)
  case (1 prio xs i)
  let ?s = "smallest prio xs i"
  show ?case
  proof (cases "?s = i")
    case True
    then have "downheap prio xs i = xs" by (simp add: downheap.simps [of prio xs i])
    moreover have "prio (xs ! i) \<le> prio (xs ! c)" if "0 < c" "c < length xs" "parent c = i" for c
      using smallest_le(2) [OF 1(3) that, where prio = prio] True by simp
    ultimately show ?thesis
      using 1(2) unfolding heap_ok_def down_ok_def by metis
  next
    case False
    then have "?s < length xs" using smallest_cases [of prio xs i] by simp
    with False 1 down_ok_step [OF 1(2,3) False] show ?thesis
      by (simp add: downheap.simps [of prio xs i] Let_def)
  qed
qed

lemma heap_ok_min:
  assumes "heap_ok prio xs" "i < length xs"
  shows "prio (xs ! 0) \<le> prio (xs ! i)"
  using assms(2)
proof (induction i rule: less_induct)
  case (less i)
  show ?case
  proof (cases "i = 0")
    case False
    then have p: "parent i < i" by (simp add: parent_less)
    then have "prio (xs ! 0) \<le> prio (xs ! parent i)" using less by simp
    also have "\<dots> \<le> prio (xs ! i)"
      using assms(1) less.prems False by (auto simp: heap_ok_def)
    finally show ?thesis .
  qed simp
qed

lemma Push_correct:
  assumes "heap_ok prio xs"
  shows "heap_ok prio (Push prio xs x) \<and> mset (Push prio xs x) = add_mset x (mset xs)"
proof -
  have "up_ok prio (xs @ [x]) (length xs)"
    unfolding up_ok_def
  proof (intro conjI allI impI)
    fix j assume "0 < j \<and> j < length (xs @ [x]) \<and> j \<noteq> length xs"
    then show "prio ((xs @ [x]) ! parent j) \<le> prio ((xs @ [x]) ! j)"
      using assms parent_less [of j] by (auto simp: heap_ok_def nth_append)
  next
    fix c assume "0 < length xs \<and> 0 < c \<and> c < length (xs @ [x]) \<and> parent c = length xs"
    then show "prio ((xs @ [x]) ! parent (length xs)) \<le> prio ((xs @ [x]) ! c)"
      using parent_less [of c] by simp
  qed
  then show ?thesis
    using upheap_heap_ok [of prio "xs @ [x]" "length xs"] mset_upheap [of "length xs" "xs @ [x]" prio]
    by (simp add: Push_def)
qed

lemma Pop_correct:
  assumes "heap_ok prio xs" "Pop prio xs = Some (m, ys)"
  shows "heap_ok prio ys \<and> mset xs = add_mset m (mset ys) \<and> (\<forall>x \<in> set xs. prio m \<le> prio x)"
proof -
  from assms(2) have ne: "xs \<noteq> []" and m: "m = xs ! 0"
    by (auto simp: Pop_def Let_def split: if_splits)
  let ?rest = "take (length xs - 1) (xs[0 := xs ! (length xs - 1)])"
  have ys: "ys = (if ?rest \<noteq> [] then downheap prio ?rest 0 else ?rest)"
    using assms(2) ne by (auto simp: Pop_def Let_def split: if_splits)
  have mm: "mset xs = add_mset m (mset ?rest)"
  proof (cases xs rule: rev_cases)
    case (snoc zs z)
    then show ?thesis using m by (cases zs) (auto simp: nth_append)
  qed (use ne in simp)
  have "down_ok prio ?rest 0"
    unfolding down_ok_def
  proof (intro conjI allI impI)
    fix j assume j: "0 < j \<and> j < length ?rest \<and> parent j \<noteq> 0"
    then have "parent j < length xs - 1" using parent_less [of j] by simp
    moreover have "j < length xs" using j by auto
    ultimately show "prio (?rest ! parent j) \<le> prio (?rest ! j)"
      using assms(1) j by (simp add: heap_ok_def)
  qed simp
  then have "heap_ok prio ys \<and> mset ys = mset ?rest"
  proof (cases "?rest = []")
    case True
    with ys have "ys = []" "?rest = []" by (auto split: if_splits)
    then show ?thesis by (simp only: heap_ok_def) simp
  next
    case False
    then show ?thesis
      using ys downheap_heap_ok [OF \<open>down_ok prio ?rest 0\<close>] mset_downheap [of 0 ?rest prio] by simp
  qed
  moreover have "\<forall>x \<in> set xs. prio m \<le> prio x"
    using heap_ok_min [OF assms(1)] m by (auto simp: in_set_conv_nth)
  ultimately show ?thesis using mm by simp
qed

interpretation mh: prio_queue "heap_ok prio" mset NewMinHeap "Push prio" "Pop prio" prio for prio
proof
  fix q :: "'a list" and x m q'
  show "heap_ok prio NewMinHeap" "mset NewMinHeap = {#}"
    by (simp_all add: heap_ok_def NewMinHeap_def)
  show "Pop prio q = None \<longleftrightarrow> mset q = {#}"
    by (simp add: Pop_def Let_def)
  assume "heap_ok prio q"
  then show "heap_ok prio (Push prio q x)" "mset (Push prio q x) = add_mset x (mset q)"
    by (simp_all add: Push_correct)
  assume "Pop prio q = Some (m, q')"
  with \<open>heap_ok prio q\<close> have "heap_ok prio q' \<and> mset q = add_mset m (mset q') \<and> (\<forall>x \<in> set q. prio m \<le> prio x)"
    by (rule Pop_correct)
  then show "heap_ok prio q'" "mset q = add_mset m (mset q')" "\<And>x. x \<in># mset q \<Longrightarrow> prio m \<le> prio x"
    by (blast, blast, metis set_mset_mset)
qed

section \<open>Properties\<close>

text \<open>
  C27: pushing any items into a new \<open>MinHeap\<close> and then popping until it is empty returns
  exactly the pushed items (as a multiset), in non-decreasing priority, and the heap
  \<open>All\<close> shows after the pushes is a permutation of the pushed items whose first element,
  the one \<open>Peek\<close> returns, has the least priority.
\<close>

theorem minheap_sorts:
  "let h = fold (\<lambda>x q. Push prio q x) xs NewMinHeap; out = drain (Pop prio) (length xs) h in
   mset out = mset xs \<and> sorted (map prio out) \<and>
   mset (All h) = mset xs \<and> heap_Size h = length xs \<and>
   (case Peek h of None \<Rightarrow> xs = [] | Some m \<Rightarrow> m \<in> set xs \<and> Min (prio ` set xs) = prio m)"
proof -
  let ?h = "fold (\<lambda>x q. Push prio q x) xs NewMinHeap"
  have h: "heap_ok prio ?h" "mset ?h = mset xs"
    using mh.push_all [OF mh.ok_emp, of prio xs] by (simp_all add: mh.contents_emp)
  then have len: "length ?h = length xs" and st: "set ?h = set xs"
    by (metis size_mset) (metis h(2) set_mset_mset)
  have "mset (drain (Pop prio) (length xs) ?h) = mset xs \<and>
        sorted (map prio (drain (Pop prio) (length xs) ?h))"
    using mh.drain_sorted [OF h(1), of "length xs"] h(2) by simp
  moreover have "case Peek ?h of None \<Rightarrow> xs = [] | Some m \<Rightarrow> m \<in> set xs \<and> Min (prio ` set xs) = prio m"
  proof (cases "?h = []")
    case True
    then show ?thesis using len by (simp add: Peek_def)
  next
    case False
    then have "?h ! 0 \<in> set ?h" by simp
    moreover have "prio (?h ! 0) \<le> prio x" if "x \<in> set ?h" for x
      using heap_ok_min [OF h(1)] that by (auto simp: in_set_conv_nth)
    ultimately show ?thesis
      using False st by (auto simp: Peek_def intro!: Min_eqI)
  qed
  ultimately show ?thesis
    using h(2) len by (simp add: All_def heap_Size_def Let_def)
qed

text \<open>
  \<open>All\<close> is the heap's array, not the items in order of priority.
\<close>

theorem All_not_sorted:
  "map id (All (fold (\<lambda>x q. Push id q x) [1, 3, 2] NewMinHeap)) = [1, 3, 2 :: u64]"
  by (simp add: All_def Push_def NewMinHeap_def upheap.simps swap_def parent_def)

end
