(* ===== verification/Messages.thy ===== *)
theory Messages
  imports Prelude
begin

text \<open>
  The protobuf messages of the token application (\<open>node.proto\<close>, \<open>keys.proto\<close>,
  \<open>clock.proto\<close>) and the methods of \<open>node/protobufs/node.go\<close>, \<open>clock.go\<close> and
  \<open>keys.go\<close> on them. A pointer to a message is an \<open>option\<close>; a \<open>bytes\<close> field that is
  nil is the empty list (proto3 does not tell them apart); the wrapper of a \<open>oneof\<close> always
  holds a message. Fields no code under \<open>node/\<close> reads (refund account, expiry, allowances,
  the metadata of inclusion proofs) are left out. Code outside the repository (Ed448, SHA-2, SHA-3, Poseidon, multihash, the
  protobuf encoder) is the record \<open>crypto_ops\<close>, an argument of what uses it.
\<close>

section \<open>External code\<close>

record crypto_ops =
  ed448_Verify :: "bytes \<Rightarrow> bytes \<Rightarrow> bytes \<Rightarrow> bool"
  sha256_Sum256 :: "bytes \<Rightarrow> bytes"
  sha3_Sum256 :: "bytes \<Rightarrow> bytes"
  shake256_Read :: "bytes \<Rightarrow> nat \<Rightarrow> bytes"
  poseidon_HashBytes :: "bytes \<Rightarrow> nat result"
  marshal_Ed448PublicKey :: "bytes \<Rightarrow> bytes result"
  mh_Sum :: "bytes \<Rightarrow> nat \<Rightarrow> bytes"

section \<open>Messages\<close>

record ed448_public_key =
  KeyValue :: bytes

record ed448_signature =
  Signature :: bytes
  PublicKey :: "ed448_public_key option"

record implicit_account =
  ImplicitType :: u32
  ImplicitAddress :: bytes
  Domain :: bytes

record originated_account_ref =
  OriginatedAddress :: bytes

datatype account_ref =
    AccountUnset
  | OriginatedAccount originated_account_ref
  | ImplicitAccount implicit_account

fun GetImplicitAccount :: "account_ref option \<Rightarrow> implicit_account option" where
  "GetImplicitAccount (Some (ImplicitAccount i)) = Some i"
| "GetImplicitAccount _ = None"

fun GetOriginatedAccount :: "account_ref option \<Rightarrow> originated_account_ref option" where
  "GetOriginatedAccount (Some (OriginatedAccount i)) = Some i"
| "GetOriginatedAccount _ = None"

record coin_ref =
  CoinAddress :: bytes

record account_allowance_ref =
  AccountAllowanceAddress :: bytes

record coin_allowance_ref =
  CoinAllowanceAddress :: bytes

record coin =
  Amount :: bytes
  Intersection :: bytes
  Owner :: "account_ref option"

record pre_coin_proof =
  ProofAmount :: bytes
  Index :: u32
  IndexProof :: bytes
  Commitment :: bytes
  Proof :: bytes
  Parallelism :: u32
  Difficulty :: u32
  ProofOwner :: "account_ref option"

record transfer_coin_request =
  ToAccount :: "account_ref option"
  OfCoin :: "coin_ref option"
  TransferSignature :: "ed448_signature option"

record split_coin_request =
  SplitOfCoin :: "coin_ref option"
  Amounts :: "bytes list"
  SplitSignature :: "ed448_signature option"

record merge_coin_request =
  Coins :: "coin_ref option list"
  MergeSignature :: "ed448_signature option"

record mint_coin_request =
  Proofs :: "bytes list"
  MintSignature :: "ed448_signature option"

record announce_prover_request =
  PublicKeySignaturesEd448 :: "ed448_signature option list"

text \<open>
  \<open>AnnounceProverLeave\<close>, \<open>AnnounceProverPause\<close> and \<open>AnnounceProverResume\<close> have the same
  three fields; \<open>AnnounceProverJoin\<close> has \<open>Announce\<close> too.
\<close>

record announce_prover_leave =
  Filter :: bytes
  FrameNumber :: u64
  PublicKeySignatureEd448 :: "ed448_signature option"

type_synonym announce_prover_pause = announce_prover_leave
type_synonym announce_prover_resume = announce_prover_leave

record announce_prover_join = announce_prover_leave +
  Announce :: "announce_prover_request option"

datatype request =
    RequestUnset
  | Transfer transfer_coin_request
  | Split split_coin_request
  | Merge merge_coin_request
  | Mint mint_coin_request
  | AnnounceR announce_prover_request
  | Join announce_prover_join
  | Leave announce_prover_leave
  | Pause announce_prover_pause
  | Resume announce_prover_resume

record token_request =
  Request :: request
  Timestamp :: u64

record prover_penalty =
  Quantity :: u64
  PenaltyAccount :: "account_ref option"

datatype token_output =
    OutputUnset
  | OutCoin coin
  | OutProof pre_coin_proof
  | DeletedCoin coin_ref
  | DeletedProof pre_coin_proof
  | OutAnnounce announce_prover_request
  | OutJoin announce_prover_join
  | OutLeave announce_prover_leave
  | OutPause announce_prover_pause
  | OutResume announce_prover_resume
  | OutPenalty prover_penalty

record reed_solomon_encoding =
  FrameSize :: u64
  FragmentShard :: u64
  FragmentDataShardCount :: u64
  FragmentParityShardCount :: u64
  FragmentData :: bytes

record clock_frame_fragment =
  FragFilter :: bytes
  FragFrameNumber :: u64
  FragTimestamp :: u64
  FrameHash :: bytes
  ReedSolomon :: "reed_solomon_encoding option"
  FragSignature :: "ed448_signature option"

record inclusion_commitment =
  TypeUrl :: string
  Data :: bytes

record inclusion_aggregate_proof =
  InclusionCommitments :: "inclusion_commitment list"

record clock_frame =
  FFilter :: bytes
  FFrameNumber :: u64
  FTimestamp :: u64
  FDifficulty :: u32
  ParentSelector :: bytes
  Input :: bytes
  Output :: bytes
  AggregateProofs :: "inclusion_aggregate_proof list"
  FSignature :: "ed448_signature option"

section \<open>Keys\<close>

text \<open>
  \<open>verifyUnsafe\<close>, \<open>Verify\<close> and \<open>VerifyCrossSigned\<close> of \<open>keys.go\<close>. The receiver and its
  public key are dereferenced.
\<close>

definition verifyUnsafe :: "crypto_ops \<Rightarrow> ed448_signature option \<Rightarrow> bytes \<Rightarrow> unit result" where
  "verifyUnsafe c s msg =
     bindE (derefE s) (\<lambda>s. bindE (derefE (PublicKey s)) (\<lambda>pk.
     guardE (ed448_Verify c (KeyValue pk) msg (Signature s))
       (ErrMsg ''invalid signature for public key'')))"

definition check_lengths :: "ed448_signature \<Rightarrow> ed448_public_key result" where
  "check_lengths s =
     (case PublicKey s of
        None \<Rightarrow> Inl (ErrMsg ''public key nil'')
      | Some pk \<Rightarrow>
          bindE (guardE (Signature s \<noteq> []) (ErrMsg ''signature nil'')) (\<lambda>_.
          bindE (guardE (length (KeyValue pk) = 57) (ErrMsg ''invalid length for public key'')) (\<lambda>_.
          bindE (guardE (length (Signature s) = 114) (ErrMsg ''invalid length for signature'')) (\<lambda>_.
          Inr pk))))"

definition Verify :: "crypto_ops \<Rightarrow> ed448_signature option \<Rightarrow> bytes \<Rightarrow> unit result" where
  "Verify c s msg = bindE (derefE s) (\<lambda>s0. bindE (check_lengths s0) (\<lambda>_. verifyUnsafe c s msg))"

definition VerifyCrossSigned :: "crypto_ops \<Rightarrow> ed448_signature option \<Rightarrow> bytes \<Rightarrow> unit result" where
  "VerifyCrossSigned c s publicKey =
     bindE (derefE s) (\<lambda>s. bindE (check_lengths s) (\<lambda>pk.
     guardE (ed448_Verify c publicKey (KeyValue pk) (Signature s))
       (ErrMsg ''invalid signature for public key'')))"

section \<open>Peer addresses\<close>

text \<open>
  \<open>go-libp2p/core/crypto/ed448.go\<close> and \<open>go-libp2p/core/peer/peer.go\<close>: the raw key is the
  public key, a marshalled key of at most 42 bytes is inlined.
\<close>

definition UnmarshalEd448PublicKey :: "bytes \<Rightarrow> bytes result" where
  "UnmarshalEd448PublicKey data =
     (if length data \<noteq> 57 then Inl (ErrMsg ''expect ed448 public key data size to be 57'') else Inr data)"

definition mh_IDENTITY :: nat where "mh_IDENTITY = 0"
definition mh_SHA2_256 :: nat where "mh_SHA2_256 = 18"

definition IDFromPublicKey :: "crypto_ops \<Rightarrow> bytes \<Rightarrow> bytes result" where
  "IDFromPublicKey c pk =
     bindE (marshal_Ed448PublicKey c pk) (\<lambda>b.
     Inr (mh_Sum c b (if length b \<le> 42 then mh_IDENTITY else mh_SHA2_256)))"

text \<open>
  The chain used all over the token application: key, peer id, Poseidon hash of the peer
  id, the hash in 32 bytes.
\<close>

definition altAddress :: "crypto_ops \<Rightarrow> bytes \<Rightarrow> bytes result" where
  "altAddress c key =
     bindE (UnmarshalEd448PublicKey key) (\<lambda>pk.
     bindE (IDFromPublicKey c pk) (\<lambda>peerId.
     bindE (poseidon_HashBytes c peerId) (\<lambda>a. fill_bytes 32 a)))"

lemma altAddress_length: "altAddress c key = Inr a \<Longrightarrow> length a = 32 \<and> length key = 57"
  by (auto simp: altAddress_def UnmarshalEd448PublicKey_def result_simps split: if_splits)

section \<open>Requests\<close>

text \<open>\<open>Priority\<close>: \<open>Uint64\<close> reads 8 bytes and panics on a shorter third proof.\<close>

definition Priority :: "token_request \<Rightarrow> u64 result" where
  "Priority t = (case Request t of
       Mint m \<Rightarrow> (if length (Proofs m) \<ge> 3 then be_uint64 (Proofs m ! 2) else Inr 0)
     | _ \<Rightarrow> Inr 0)"

text \<open>\<open>RingAndParallelism\<close>; every error is \<open>errors.New("invalid")\<close>.\<close>

definition RingAndParallelism ::
    "crypto_ops \<Rightarrow> mint_coin_request \<Rightarrow> (bytes \<Rightarrow> int) \<Rightarrow> (int \<times> u32) result" where
  "RingAndParallelism c t ringCalc =
     bindE (derefE (MintSignature t)) (\<lambda>s.
     bindE (derefE (PublicKey s)) (\<lambda>pk.
     bindE (wrapE (ErrMsg ''invalid'') (altAddress c (KeyValue pk))) (\<lambda>altAddr.
     let ring = ringCalc altAddr in
     if ring = -1 then Inl (ErrMsg ''invalid'')
     else if length (Proofs t) \<ge> 3 \<and> length (Proofs t ! 1) = 4
       then bindE (be_uint32 (Proofs t ! 1)) (\<lambda>p. Inr (ring, p))
     else Inl (ErrMsg ''invalid''))))"

text \<open>The \<open>TokenRequest()\<close> constructors; \<open>now\<close> is \<open>time.Now().UnixMilli()\<close>.\<close>

definition TokenRequest_of :: "u64 \<Rightarrow> request \<Rightarrow> token_request" where
  "TokenRequest_of now r = \<lparr>Request = r, Timestamp = now\<rparr>"

definition TransferCoinRequest_TokenRequest :: "u64 \<Rightarrow> transfer_coin_request \<Rightarrow> token_request" where
  "TransferCoinRequest_TokenRequest now t = TokenRequest_of now (Transfer t)"

definition SplitCoinRequest_TokenRequest :: "u64 \<Rightarrow> split_coin_request \<Rightarrow> token_request" where
  "SplitCoinRequest_TokenRequest now t = TokenRequest_of now (Split t)"

definition MergeCoinRequest_TokenRequest :: "u64 \<Rightarrow> merge_coin_request \<Rightarrow> token_request" where
  "MergeCoinRequest_TokenRequest now t = TokenRequest_of now (Merge t)"

definition MintCoinRequest_TokenRequest :: "u64 \<Rightarrow> mint_coin_request \<Rightarrow> token_request" where
  "MintCoinRequest_TokenRequest now t = TokenRequest_of now (Mint t)"

definition AnnounceProverRequest_TokenRequest :: "u64 \<Rightarrow> announce_prover_request \<Rightarrow> token_request" where
  "AnnounceProverRequest_TokenRequest now t = TokenRequest_of now (AnnounceR t)"

definition AnnounceProverJoin_TokenRequest :: "u64 \<Rightarrow> announce_prover_join \<Rightarrow> token_request" where
  "AnnounceProverJoin_TokenRequest now t = TokenRequest_of now (Join t)"

definition AnnounceProverLeave_TokenRequest :: "u64 \<Rightarrow> announce_prover_leave \<Rightarrow> token_request" where
  "AnnounceProverLeave_TokenRequest now t = TokenRequest_of now (Leave t)"

definition AnnounceProverPause_TokenRequest :: "u64 \<Rightarrow> announce_prover_pause \<Rightarrow> token_request" where
  "AnnounceProverPause_TokenRequest now t = TokenRequest_of now (Pause t)"

definition AnnounceProverResume_TokenRequest :: "u64 \<Rightarrow> announce_prover_resume \<Rightarrow> token_request" where
  "AnnounceProverResume_TokenRequest now t = TokenRequest_of now (Resume t)"

section \<open>Clock frames\<close>

text \<open>\<open>frame.Output[:516]\<close> panics on a shorter output.\<close>

definition output_selector :: "crypto_ops \<Rightarrow> clock_frame \<Rightarrow> nat result" where
  "output_selector c frame =
     bindE (guardE (length (Output frame) \<ge> 516) Panic) (\<lambda>_.
     poseidon_HashBytes c (take 516 (Output frame)))"

definition GetSelector :: "crypto_ops \<Rightarrow> clock_frame \<Rightarrow> nat result" where
  "GetSelector c frame = output_selector c frame"

definition GetParentAndSelector :: "crypto_ops \<Rightarrow> clock_frame \<Rightarrow> (nat \<times> nat) result" where
  "GetParentAndSelector c frame =
     bindE (output_selector c frame) (\<lambda>selector.
     if FFrameNumber frame = 0 then Inr (0, selector)
     else Inr (nat_of_be (ParentSelector frame), selector))"

definition GetPublicKey :: "clock_frame \<Rightarrow> bytes result" where
  "GetPublicKey frame =
     (if FFrameNumber frame = 0 then Inr (replicate 32 0)
      else case FSignature frame of
             None \<Rightarrow> Inl (ErrMsg ''no valid signature provided'')
           | Some s \<Rightarrow> bindE (derefE (PublicKey s)) (\<lambda>pk. Inr (KeyValue pk)))"

text \<open>
  \<open>GetAddress\<close> pads \<open>address.Bytes()\<close> on the left with \<open>make([]byte, 32-len)\<close>, which
  panics for a longer value: \<open>FillBytes\<close> on 32 bytes.
\<close>

definition GetAddress :: "crypto_ops \<Rightarrow> clock_frame \<Rightarrow> bytes result" where
  "GetAddress c frame =
     (if FFrameNumber frame = 0 then Inr (replicate 32 0)
      else case FSignature frame of
             None \<Rightarrow> Inl (ErrMsg ''no valid signature provided'')
           | Some s \<Rightarrow>
               bindE (derefE (PublicKey s)) (\<lambda>pk.
               bindE (poseidon_HashBytes c (KeyValue pk)) (\<lambda>address. fill_bytes 32 address)))"

end
