(* ===== verification/Validation.thy ===== *)
theory Validation
  imports Messages
begin

text \<open>
  \<open>node/protobufs/validation.go\<close>: what is signed (\<open>signatureMessage\<close>), the checks of
  signatures (\<open>ValidateSignature\<close>) and of contents (\<open>Validate\<close>), and signing
  (\<open>SignED448\<close>). A method on a nil receiver takes the \<open>option\<close>; a field of a nil message is
  a panic.
\<close>

section \<open>Signed payloads\<close>

definition ReedSolomonEncoding_signatureMessage :: "crypto_ops \<Rightarrow> reed_solomon_encoding \<Rightarrow> bytes" where
  "ReedSolomonEncoding_signatureMessage c r =
     str_bytes ''reed-solomon-fragment'' @ be_put_uint64 (FrameSize r) @ be_put_uint64 (FragmentShard r) @
     be_put_uint64 (FragmentDataShardCount r) @ be_put_uint64 (FragmentParityShardCount r) @
     sha256_Sum256 c (FragmentData r)"

definition ClockFrameFragment_signatureMessage :: "crypto_ops \<Rightarrow> clock_frame_fragment \<Rightarrow> bytes" where
  "ClockFrameFragment_signatureMessage c f =
     str_bytes ''fragment'' @ be_put_uint64 (FragFrameNumber f) @ FragFilter f @
     be_put_uint64 (FragTimestamp f) @ FrameHash f @
     (case ReedSolomon f of None \<Rightarrow> [] | Some r \<Rightarrow> ReedSolomonEncoding_signatureMessage c r)"

definition TransferCoinRequest_signatureMessage :: "transfer_coin_request \<Rightarrow> bytes result" where
  "TransferCoinRequest_signatureMessage t =
     bindE (derefE (OfCoin t)) (\<lambda>coin.
     bindE (derefE (GetImplicitAccount (ToAccount t))) (\<lambda>acc.
     Inr (str_bytes ''transfer'' @ CoinAddress coin @ ImplicitAddress acc)))"

definition SplitCoinRequest_signatureMessage :: "split_coin_request \<Rightarrow> bytes result" where
  "SplitCoinRequest_signatureMessage t =
     bindE (derefE (SplitOfCoin t)) (\<lambda>coin.
     Inr (str_bytes ''split'' @ CoinAddress coin @ concat (Amounts t)))"

definition MergeCoinRequest_signatureMessage :: "merge_coin_request \<Rightarrow> bytes result" where
  "MergeCoinRequest_signatureMessage t =
     bindE (mapE derefE (Coins t)) (\<lambda>cs. Inr (str_bytes ''merge'' @ concat (map CoinAddress cs)))"

definition MintCoinRequest_signatureMessage :: "mint_coin_request \<Rightarrow> bytes result" where
  "MintCoinRequest_signatureMessage t = Inr (str_bytes ''mint'' @ concat (Proofs t))"

definition AnnounceProverJoin_signatureMessage :: "announce_prover_join \<Rightarrow> bytes result" where
  "AnnounceProverJoin_signatureMessage t =
     Inr (str_bytes ''join'' @ be_put_uint64 (FrameNumber t) @ Filter t)"

definition AnnounceProverLeave_signatureMessage :: "announce_prover_leave \<Rightarrow> bytes result" where
  "AnnounceProverLeave_signatureMessage t =
     Inr (str_bytes ''leave'' @ be_put_uint64 (FrameNumber t) @ Filter t)"

definition AnnounceProverPause_signatureMessage :: "announce_prover_pause \<Rightarrow> bytes result" where
  "AnnounceProverPause_signatureMessage t =
     Inr (str_bytes ''pause'' @ be_put_uint64 (FrameNumber t) @ Filter t)"

definition AnnounceProverResume_signatureMessage :: "announce_prover_resume \<Rightarrow> bytes result" where
  "AnnounceProverResume_signatureMessage t =
     Inr (str_bytes ''resume'' @ be_put_uint64 (FrameNumber t) @ Filter t)"

section \<open>Signatures\<close>

text \<open>The body shared by the methods with one signature.\<close>

definition check_signed :: "crypto_ops \<Rightarrow> ed448_signature option \<Rightarrow> bytes result \<Rightarrow> unit result" where
  "check_signed c s payload = bindE payload (verifyUnsafe c s)"

definition ClockFrameFragment_ValidateSignature :: "crypto_ops \<Rightarrow> clock_frame_fragment \<Rightarrow> unit result" where
  "ClockFrameFragment_ValidateSignature c f =
     (case FragSignature f of
        Some s \<Rightarrow> verifyUnsafe c (Some s) (ClockFrameFragment_signatureMessage c f)
      | None \<Rightarrow> Inl (ErrMsg ''invalid signature''))"

definition TransferCoinRequest_ValidateSignature :: "crypto_ops \<Rightarrow> transfer_coin_request \<Rightarrow> unit result" where
  "TransferCoinRequest_ValidateSignature c t =
     check_signed c (TransferSignature t) (TransferCoinRequest_signatureMessage t)"

definition SplitCoinRequest_ValidateSignature :: "crypto_ops \<Rightarrow> split_coin_request \<Rightarrow> unit result" where
  "SplitCoinRequest_ValidateSignature c t =
     check_signed c (SplitSignature t) (SplitCoinRequest_signatureMessage t)"

definition MergeCoinRequest_ValidateSignature :: "crypto_ops \<Rightarrow> merge_coin_request \<Rightarrow> unit result" where
  "MergeCoinRequest_ValidateSignature c t =
     check_signed c (MergeSignature t) (MergeCoinRequest_signatureMessage t)"

definition MintCoinRequest_ValidateSignature :: "crypto_ops \<Rightarrow> mint_coin_request \<Rightarrow> unit result" where
  "MintCoinRequest_ValidateSignature c t =
     check_signed c (MintSignature t) (MintCoinRequest_signatureMessage t)"

text \<open>
  \<open>AnnounceProverRequest\<close>: every further key signs the primary key, in order, and the
  primary key signs the concatenation of the further keys.
\<close>

definition key_of :: "ed448_signature option \<Rightarrow> bytes result" where
  "key_of s = bindE (derefE s) (\<lambda>s. bindE (derefE (PublicKey s)) (\<lambda>pk. Inr (KeyValue pk)))"

fun announce_payload ::
    "crypto_ops \<Rightarrow> ed448_signature option \<Rightarrow> bytes \<Rightarrow> ed448_signature option list \<Rightarrow> bytes result" where
  "announce_payload c primary payload [] = Inr payload"
| "announce_payload c primary payload (p # ps) =
     bindE (key_of p) (\<lambda>k.
     bindE (key_of primary) (\<lambda>pk.
     bindE (verifyUnsafe c p pk) (\<lambda>_.
     announce_payload c primary (payload @ k) ps)))"

definition AnnounceProverRequest_ValidateSignature ::
    "crypto_ops \<Rightarrow> announce_prover_request \<Rightarrow> unit result" where
  "AnnounceProverRequest_ValidateSignature c t =
     (case PublicKeySignaturesEd448 t of
        [] \<Rightarrow> Inl Panic
      | primary # rest \<Rightarrow>
          bindE (announce_payload c primary [] rest) (verifyUnsafe c primary))"

definition AnnounceProverJoin_ValidateSignature :: "crypto_ops \<Rightarrow> announce_prover_join \<Rightarrow> unit result" where
  "AnnounceProverJoin_ValidateSignature c t =
     check_signed c (PublicKeySignatureEd448 t) (AnnounceProverJoin_signatureMessage t)"

definition AnnounceProverLeave_ValidateSignature :: "crypto_ops \<Rightarrow> announce_prover_leave \<Rightarrow> unit result" where
  "AnnounceProverLeave_ValidateSignature c t =
     check_signed c (PublicKeySignatureEd448 t) (AnnounceProverLeave_signatureMessage t)"

definition AnnounceProverPause_ValidateSignature :: "crypto_ops \<Rightarrow> announce_prover_pause \<Rightarrow> unit result" where
  "AnnounceProverPause_ValidateSignature c t =
     check_signed c (PublicKeySignatureEd448 t) (AnnounceProverPause_signatureMessage t)"

definition AnnounceProverResume_ValidateSignature :: "crypto_ops \<Rightarrow> announce_prover_resume \<Rightarrow> unit result" where
  "AnnounceProverResume_ValidateSignature c t =
     check_signed c (PublicKeySignatureEd448 t) (AnnounceProverResume_signatureMessage t)"

section \<open>Contents\<close>

definition failE :: "string \<Rightarrow> 'a result" where
  "failE m = Inl (ErrMsg m)"

definition ReedSolomonEncoding_Validate :: "reed_solomon_encoding option \<Rightarrow> unit result" where
  "ReedSolomonEncoding_Validate c = (case c of
       None \<Rightarrow> failE ''nil Reed-Solomon encoding''
     | Some c \<Rightarrow>
         if FrameSize c = 0 then failE ''invalid frame size''
         else if FragmentDataShardCount c = 0 then failE ''invalid fragment data shard count''
         else if FragmentParityShardCount c = 0 then failE ''invalid fragment parity shard count''
         else if FragmentShard c \<ge> FragmentDataShardCount c + FragmentParityShardCount c
           then failE ''invalid fragment shard''
         else if FragmentData c = [] then failE ''invalid fragment data''
         else Inr ())"

definition ClockFrameFragment_Validate :: "crypto_ops \<Rightarrow> clock_frame_fragment option \<Rightarrow> unit result" where
  "ClockFrameFragment_Validate c f = (case f of
       None \<Rightarrow> failE ''nil clock frame fragment''
     | Some f \<Rightarrow>
         if length (FragFilter f) \<noteq> 32 then failE ''invalid filter''
         else if FragTimestamp f = 0 then failE ''invalid timestamp''
         else if length (FrameHash f) < 28 \<or> length (FrameHash f) > 64 then failE ''invalid frame hash''
         else bindE (case ReedSolomon f of
                       Some r \<Rightarrow> ReedSolomonEncoding_Validate (Some r)
                     | None \<Rightarrow> failE ''missing encoding'')
                (\<lambda>_. ClockFrameFragment_ValidateSignature c f))"

definition Ed448PublicKey_Validate :: "ed448_public_key option \<Rightarrow> unit result" where
  "Ed448PublicKey_Validate e = (case e of
       None \<Rightarrow> failE ''nil Ed448 public key''
     | Some e \<Rightarrow> if length (KeyValue e) \<noteq> 57 then failE ''invalid Ed448 public key'' else Inr ())"

definition Ed448Signature_Validate :: "ed448_signature option \<Rightarrow> unit result" where
  "Ed448Signature_Validate e = (case e of
       None \<Rightarrow> failE ''nil Ed448 signature''
     | Some e \<Rightarrow>
         bindE (Ed448PublicKey_Validate (PublicKey e)) (\<lambda>_.
         if length (Signature e) \<noteq> 114 then failE ''invalid Ed448 signature'' else Inr ()))"

definition ImplicitAccount_Validate :: "implicit_account option \<Rightarrow> unit result" where
  "ImplicitAccount_Validate i = (case i of
       None \<Rightarrow> failE ''nil implicit account''
     | Some i \<Rightarrow> if length (ImplicitAddress i) \<noteq> 32 then failE ''invalid implicit account'' else Inr ())"

definition OriginatedAccountRef_Validate :: "originated_account_ref option \<Rightarrow> unit result" where
  "OriginatedAccountRef_Validate i = (case i of
       None \<Rightarrow> failE ''nil originated account''
     | Some i \<Rightarrow> if length (OriginatedAddress i) \<noteq> 32 then failE ''invalid originated account'' else Inr ())"

definition AccountRef_Validate :: "account_ref option \<Rightarrow> unit result" where
  "AccountRef_Validate a = (case a of
       None \<Rightarrow> failE ''nil account reference''
     | Some (ImplicitAccount i) \<Rightarrow> ImplicitAccount_Validate (Some i)
     | Some (OriginatedAccount i) \<Rightarrow> OriginatedAccountRef_Validate (Some i)
     | Some AccountUnset \<Rightarrow> failE ''invalid account reference'')"

definition CoinRef_Validate :: "coin_ref option \<Rightarrow> unit result" where
  "CoinRef_Validate c = (case c of
       None \<Rightarrow> failE ''nil coin reference''
     | Some c \<Rightarrow> if length (CoinAddress c) \<noteq> 32 then failE ''invalid coin reference'' else Inr ())"

definition AccountAllowanceRef_Validate :: "account_allowance_ref option \<Rightarrow> unit result" where
  "AccountAllowanceRef_Validate a = (case a of
       None \<Rightarrow> failE ''nil account allowance reference''
     | Some a \<Rightarrow> if length (AccountAllowanceAddress a) \<noteq> 32
         then failE ''invalid account allowance reference'' else Inr ())"

definition CoinAllowanceRef_Validate :: "coin_allowance_ref option \<Rightarrow> unit result" where
  "CoinAllowanceRef_Validate a = (case a of
       None \<Rightarrow> failE ''nil coin allowance reference''
     | Some a \<Rightarrow> if length (CoinAllowanceAddress a) \<noteq> 32
         then failE ''invalid coin allowance reference'' else Inr ())"

definition TransferCoinRequest_Validate :: "crypto_ops \<Rightarrow> transfer_coin_request option \<Rightarrow> unit result" where
  "TransferCoinRequest_Validate c t = (case t of
       None \<Rightarrow> failE ''nil transfer coin request''
     | Some t \<Rightarrow>
         bindE (AccountRef_Validate (ToAccount t)) (\<lambda>_.
         bindE (CoinRef_Validate (OfCoin t)) (\<lambda>_.
         bindE (Ed448Signature_Validate (TransferSignature t)) (\<lambda>_.
         TransferCoinRequest_ValidateSignature c t))))"

definition SplitCoinRequest_Validate :: "crypto_ops \<Rightarrow> split_coin_request option \<Rightarrow> unit result" where
  "SplitCoinRequest_Validate c t = (case t of
       None \<Rightarrow> failE ''nil split coin request''
     | Some t \<Rightarrow>
         bindE (CoinRef_Validate (SplitOfCoin t)) (\<lambda>_.
         if Amounts t = [] \<or> length (Amounts t) > 100 then failE ''invalid amounts''
         else bindE (foldE (\<lambda>_ a. if a = [] \<or> length a > 32 then failE ''invalid amount'' else Inr ()) () (Amounts t)) (\<lambda>_.
         bindE (Ed448Signature_Validate (SplitSignature t)) (\<lambda>_.
         SplitCoinRequest_ValidateSignature c t))))"

definition MergeCoinRequest_Validate :: "crypto_ops \<Rightarrow> merge_coin_request option \<Rightarrow> unit result" where
  "MergeCoinRequest_Validate c t = (case t of
       None \<Rightarrow> failE ''nil merge coin request''
     | Some t \<Rightarrow>
         if Coins t = [] then failE ''invalid coins''
         else bindE (foldE (\<lambda>_. CoinRef_Validate) () (Coins t)) (\<lambda>_.
         bindE (Ed448Signature_Validate (MergeSignature t)) (\<lambda>_.
         MergeCoinRequest_ValidateSignature c t)))"

definition MintCoinRequest_Validate :: "crypto_ops \<Rightarrow> mint_coin_request option \<Rightarrow> unit result" where
  "MintCoinRequest_Validate c t = (case t of
       None \<Rightarrow> failE ''nil mint coin request''
     | Some t \<Rightarrow>
         if Proofs t = [] then failE ''invalid proofs''
         else bindE (Ed448Signature_Validate (MintSignature t)) (\<lambda>_.
         MintCoinRequest_ValidateSignature c t))"

definition AnnounceProverRequest_Validate :: "crypto_ops \<Rightarrow> announce_prover_request option \<Rightarrow> unit result" where
  "AnnounceProverRequest_Validate c t = (case t of
       None \<Rightarrow> failE ''nil announce prover request''
     | Some t \<Rightarrow>
         if PublicKeySignaturesEd448 t = [] then failE ''invalid public key signatures''
         else bindE (foldE (\<lambda>_. Ed448Signature_Validate) () (PublicKeySignaturesEd448 t)) (\<lambda>_.
         AnnounceProverRequest_ValidateSignature c t))"

definition AnnounceProverJoin_Validate :: "crypto_ops \<Rightarrow> announce_prover_join option \<Rightarrow> unit result" where
  "AnnounceProverJoin_Validate c t = (case t of
       None \<Rightarrow> failE ''nil announce prover join''
     | Some t \<Rightarrow>
         if length (Filter t) \<noteq> 32 then failE ''invalid filter''
         else bindE (case Announce t of None \<Rightarrow> Inr () | Some a \<Rightarrow> AnnounceProverRequest_Validate c (Some a)) (\<lambda>_.
         bindE (Ed448Signature_Validate (PublicKeySignatureEd448 t)) (\<lambda>_.
         AnnounceProverJoin_ValidateSignature c t)))"

definition AnnounceProverLeave_Validate :: "crypto_ops \<Rightarrow> announce_prover_leave option \<Rightarrow> unit result" where
  "AnnounceProverLeave_Validate c t = (case t of
       None \<Rightarrow> failE ''nil announce prover leave''
     | Some t \<Rightarrow>
         if length (Filter t) \<noteq> 32 then failE ''invalid filter''
         else bindE (Ed448Signature_Validate (PublicKeySignatureEd448 t)) (\<lambda>_.
         AnnounceProverLeave_ValidateSignature c t))"

definition AnnounceProverPause_Validate :: "crypto_ops \<Rightarrow> announce_prover_pause option \<Rightarrow> unit result" where
  "AnnounceProverPause_Validate c t = (case t of
       None \<Rightarrow> failE ''nil announce prover pause''
     | Some t \<Rightarrow>
         if length (Filter t) \<noteq> 32 then failE ''invalid filter''
         else bindE (Ed448Signature_Validate (PublicKeySignatureEd448 t)) (\<lambda>_.
         AnnounceProverPause_ValidateSignature c t))"

definition AnnounceProverResume_Validate :: "crypto_ops \<Rightarrow> announce_prover_resume option \<Rightarrow> unit result" where
  "AnnounceProverResume_Validate c t = (case t of
       None \<Rightarrow> failE ''nil announce prover resume''
     | Some t \<Rightarrow>
         if length (Filter t) \<noteq> 32 then failE ''invalid filter''
         else bindE (Ed448Signature_Validate (PublicKeySignatureEd448 t)) (\<lambda>_.
         AnnounceProverResume_ValidateSignature c t))"

definition TokenRequest_Validate :: "crypto_ops \<Rightarrow> token_request option \<Rightarrow> unit result" where
  "TokenRequest_Validate c t = (case t of
       None \<Rightarrow> failE ''nil token request''
     | Some t \<Rightarrow> (case Request t of
           Transfer r \<Rightarrow> TransferCoinRequest_Validate c (Some r)
         | Split r \<Rightarrow> SplitCoinRequest_Validate c (Some r)
         | Merge r \<Rightarrow> MergeCoinRequest_Validate c (Some r)
         | Mint r \<Rightarrow> MintCoinRequest_Validate c (Some r)
         | AnnounceR r \<Rightarrow> AnnounceProverRequest_Validate c (Some r)
         | Join r \<Rightarrow> AnnounceProverJoin_Validate c (Some r)
         | Leave r \<Rightarrow> AnnounceProverLeave_Validate c (Some r)
         | Pause r \<Rightarrow> AnnounceProverPause_Validate c (Some r)
         | Resume r \<Rightarrow> AnnounceProverResume_Validate c (Some r)
         | RequestUnset \<Rightarrow> Inr ()))"

section \<open>Signing\<close>

definition newED448Signature :: "bytes \<Rightarrow> bytes \<Rightarrow> ed448_signature option" where
  "newED448Signature publicKey signature =
     Some \<lparr>Signature = signature, PublicKey = Some \<lparr>KeyValue = publicKey\<rparr>\<rparr>"

type_synonym signer = "bytes \<Rightarrow> bytes result"

definition ClockFrameFragment_SignED448 ::
    "crypto_ops \<Rightarrow> clock_frame_fragment \<Rightarrow> bytes \<Rightarrow> signer \<Rightarrow> clock_frame_fragment result" where
  "ClockFrameFragment_SignED448 c t publicKey sign =
     bindE (sign (ClockFrameFragment_signatureMessage c t)) (\<lambda>signature.
     Inr (t\<lparr>FragSignature := newED448Signature publicKey signature\<rparr>))"

definition TransferCoinRequest_SignED448 ::
    "transfer_coin_request \<Rightarrow> bytes \<Rightarrow> signer \<Rightarrow> transfer_coin_request result" where
  "TransferCoinRequest_SignED448 t publicKey sign =
     bindE (TransferCoinRequest_signatureMessage t) (\<lambda>m. bindE (sign m) (\<lambda>signature.
     Inr (t\<lparr>TransferSignature := newED448Signature publicKey signature\<rparr>)))"

definition SplitCoinRequest_SignED448 ::
    "split_coin_request \<Rightarrow> bytes \<Rightarrow> signer \<Rightarrow> split_coin_request result" where
  "SplitCoinRequest_SignED448 t publicKey sign =
     bindE (SplitCoinRequest_signatureMessage t) (\<lambda>m. bindE (sign m) (\<lambda>signature.
     Inr (t\<lparr>SplitSignature := newED448Signature publicKey signature\<rparr>)))"

definition MergeCoinRequest_SignED448 ::
    "merge_coin_request \<Rightarrow> bytes \<Rightarrow> signer \<Rightarrow> merge_coin_request result" where
  "MergeCoinRequest_SignED448 t publicKey sign =
     bindE (MergeCoinRequest_signatureMessage t) (\<lambda>m. bindE (sign m) (\<lambda>signature.
     Inr (t\<lparr>MergeSignature := newED448Signature publicKey signature\<rparr>)))"

definition MintCoinRequest_SignED448 ::
    "mint_coin_request \<Rightarrow> bytes \<Rightarrow> signer \<Rightarrow> mint_coin_request result" where
  "MintCoinRequest_SignED448 t publicKey sign =
     bindE (MintCoinRequest_signatureMessage t) (\<lambda>m. bindE (sign m) (\<lambda>signature.
     Inr (t\<lparr>MintSignature := newED448Signature publicKey signature\<rparr>)))"

record ed448_sign_helper =
  HelperPublicKey :: bytes
  Sign :: signer

fun sign_others ::
    "bytes \<Rightarrow> ed448_sign_helper list \<Rightarrow> ed448_signature option list result" where
  "sign_others primary [] = Inr []"
| "sign_others primary (k # ks) =
     bindE (Sign k primary) (\<lambda>signature.
     bindE (sign_others primary ks) (\<lambda>rest.
     Inr (newED448Signature (HelperPublicKey k) signature # rest)))"

definition AnnounceProverRequest_SignED448 ::
    "announce_prover_request \<Rightarrow> ed448_sign_helper list \<Rightarrow> announce_prover_request result" where
  "AnnounceProverRequest_SignED448 t helpers =
     (case helpers of
        [] \<Rightarrow> failE ''no keys''
      | primary # others \<Rightarrow>
          bindE (sign_others (HelperPublicKey primary) others) (\<lambda>rest.
          bindE (Sign primary (concat (map HelperPublicKey others))) (\<lambda>signature.
          Inr (t\<lparr>PublicKeySignaturesEd448 :=
                 newED448Signature (HelperPublicKey primary) signature # rest\<rparr>))))"

definition AnnounceProverJoin_SignED448 ::
    "announce_prover_join \<Rightarrow> bytes \<Rightarrow> signer \<Rightarrow> announce_prover_join result" where
  "AnnounceProverJoin_SignED448 t publicKey sign =
     bindE (AnnounceProverJoin_signatureMessage t) (\<lambda>m. bindE (sign m) (\<lambda>signature.
     Inr (t\<lparr>PublicKeySignatureEd448 := newED448Signature publicKey signature\<rparr>)))"

definition AnnounceProverLeave_SignED448 ::
    "announce_prover_leave \<Rightarrow> bytes \<Rightarrow> signer \<Rightarrow> announce_prover_leave result" where
  "AnnounceProverLeave_SignED448 t publicKey sign =
     bindE (AnnounceProverLeave_signatureMessage t) (\<lambda>m. bindE (sign m) (\<lambda>signature.
     Inr (t\<lparr>PublicKeySignatureEd448 := newED448Signature publicKey signature\<rparr>)))"

definition AnnounceProverPause_SignED448 ::
    "announce_prover_pause \<Rightarrow> bytes \<Rightarrow> signer \<Rightarrow> announce_prover_pause result" where
  "AnnounceProverPause_SignED448 t publicKey sign =
     bindE (AnnounceProverPause_signatureMessage t) (\<lambda>m. bindE (sign m) (\<lambda>signature.
     Inr (t\<lparr>PublicKeySignatureEd448 := newED448Signature publicKey signature\<rparr>)))"

definition AnnounceProverResume_SignED448 ::
    "announce_prover_resume \<Rightarrow> bytes \<Rightarrow> signer \<Rightarrow> announce_prover_resume result" where
  "AnnounceProverResume_SignED448 t publicKey sign =
     bindE (AnnounceProverResume_signatureMessage t) (\<lambda>m. bindE (sign m) (\<lambda>signature.
     Inr (t\<lparr>PublicKeySignatureEd448 := newED448Signature publicKey signature\<rparr>)))"

section \<open>What acceptance means\<close>

lemma failE_ne [simp]: "failE m \<noteq> Inr x" "failE m \<noteq> Inl Panic"
  by (simp_all add: failE_def)

lemma Ed448Signature_Validate_iff [result_simps]:
  "Ed448Signature_Validate e = Inr () \<longleftrightarrow>
   (\<exists>s pk. e = Some s \<and> PublicKey s = Some pk \<and> length (KeyValue pk) = 57 \<and> length (Signature s) = 114)"
  by (auto simp: Ed448Signature_Validate_def Ed448PublicKey_Validate_def result_simps
      split: option.splits if_splits)

lemma CoinRef_Validate_iff [result_simps]:
  "CoinRef_Validate e = Inr () \<longleftrightarrow> (\<exists>c. e = Some c \<and> length (CoinAddress c) = 32)"
  by (auto simp: CoinRef_Validate_def split: option.splits)

lemma verifyUnsafe_iff [result_simps]:
  "verifyUnsafe c e m = Inr () \<longleftrightarrow>
   (\<exists>s pk. e = Some s \<and> PublicKey s = Some pk \<and> ed448_Verify c (KeyValue pk) m (Signature s))"
  by (auto simp: verifyUnsafe_def result_simps)

lemma check_signed_iff [result_simps]:
  "check_signed c e p = Inr () \<longleftrightarrow> (\<exists>m. p = Inr m \<and> verifyUnsafe c e m = Inr ())"
  by (simp add: check_signed_def bindE_eq_Inr)

text \<open>The signature a request carries and the payload it signs; announcements have several.\<close>

fun request_signature :: "request \<Rightarrow> ed448_signature option" where
  "request_signature (Transfer t) = TransferSignature t"
| "request_signature (Split t) = SplitSignature t"
| "request_signature (Merge t) = MergeSignature t"
| "request_signature (Mint t) = MintSignature t"
| "request_signature (Join t) = PublicKeySignatureEd448 t"
| "request_signature (Leave t) = PublicKeySignatureEd448 t"
| "request_signature (Pause t) = PublicKeySignatureEd448 t"
| "request_signature (Resume t) = PublicKeySignatureEd448 t"
| "request_signature _ = None"

fun request_payload :: "request \<Rightarrow> bytes result" where
  "request_payload (Transfer t) = TransferCoinRequest_signatureMessage t"
| "request_payload (Split t) = SplitCoinRequest_signatureMessage t"
| "request_payload (Merge t) = MergeCoinRequest_signatureMessage t"
| "request_payload (Mint t) = MintCoinRequest_signatureMessage t"
| "request_payload (Join t) = AnnounceProverJoin_signatureMessage t"
| "request_payload (Leave t) = AnnounceProverLeave_signatureMessage t"
| "request_payload (Pause t) = AnnounceProverPause_signatureMessage t"
| "request_payload (Resume t) = AnnounceProverResume_signatureMessage t"
| "request_payload _ = Inl Panic"

text \<open>The conditions on contents, without the signature.\<close>

fun request_content :: "crypto_ops \<Rightarrow> request \<Rightarrow> bool" where
  "request_content c (Transfer t) \<longleftrightarrow>
     (\<exists>i. ToAccount t = Some (ImplicitAccount i) \<and> length (ImplicitAddress i) = 32) \<and>
     (\<exists>r. OfCoin t = Some r \<and> length (CoinAddress r) = 32)"
| "request_content c (Split t) \<longleftrightarrow>
     (\<exists>r. SplitOfCoin t = Some r \<and> length (CoinAddress r) = 32) \<and>
     Amounts t \<noteq> [] \<and> length (Amounts t) \<le> 100 \<and> (\<forall>a\<in>set (Amounts t). a \<noteq> [] \<and> length a \<le> 32)"
| "request_content c (Merge t) \<longleftrightarrow>
     Coins t \<noteq> [] \<and> (\<forall>e\<in>set (Coins t). \<exists>r. e = Some r \<and> length (CoinAddress r) = 32)"
| "request_content c (Mint t) \<longleftrightarrow> Proofs t \<noteq> []"
| "request_content c (Join t) \<longleftrightarrow> length (Filter t) = 32 \<and>
     (case Announce t of None \<Rightarrow> True | Some a \<Rightarrow> AnnounceProverRequest_Validate c (Some a) = Inr ())"
| "request_content c (Leave t) \<longleftrightarrow> length (Filter t) = 32"
| "request_content c (Pause t) \<longleftrightarrow> length (Filter t) = 32"
| "request_content c (Resume t) \<longleftrightarrow> length (Filter t) = 32"
| "request_content c _ \<longleftrightarrow> False"

definition signed_ok :: "crypto_ops \<Rightarrow> request \<Rightarrow> bool" where
  "signed_ok c r \<longleftrightarrow> (\<exists>s pk m. request_signature r = Some s \<and> PublicKey s = Some pk \<and>
     length (KeyValue pk) = 57 \<and> length (Signature s) = 114 \<and>
     request_payload r = Inr m \<and> ed448_Verify c (KeyValue pk) m (Signature s))"

lemmas Validate_defs =
  TransferCoinRequest_Validate_def SplitCoinRequest_Validate_def MergeCoinRequest_Validate_def
  MintCoinRequest_Validate_def AnnounceProverJoin_Validate_def AnnounceProverLeave_Validate_def
  AnnounceProverPause_Validate_def AnnounceProverResume_Validate_def

lemmas ValidateSignature_defs =
  TransferCoinRequest_ValidateSignature_def SplitCoinRequest_ValidateSignature_def
  MergeCoinRequest_ValidateSignature_def MintCoinRequest_ValidateSignature_def
  AnnounceProverJoin_ValidateSignature_def AnnounceProverLeave_ValidateSignature_def
  AnnounceProverPause_ValidateSignature_def AnnounceProverResume_ValidateSignature_def

lemmas signatureMessage_defs =
  TransferCoinRequest_signatureMessage_def SplitCoinRequest_signatureMessage_def
  MergeCoinRequest_signatureMessage_def MintCoinRequest_signatureMessage_def
  AnnounceProverJoin_signatureMessage_def AnnounceProverLeave_signatureMessage_def
  AnnounceProverPause_signatureMessage_def AnnounceProverResume_signatureMessage_def

lemma signed_validate:
  "bindE (Ed448Signature_Validate (request_signature r)) (\<lambda>_. check_signed c (request_signature r) (request_payload r)) = Inr ()
   \<longleftrightarrow> signed_ok c r"
  by (auto simp: signed_ok_def result_simps)

lemma AccountRef_Validate_iff:
  "AccountRef_Validate e = Inr () \<longleftrightarrow>
     (\<exists>i. e = Some (ImplicitAccount i) \<and> length (ImplicitAddress i) = 32) \<or>
     (\<exists>i. e = Some (OriginatedAccount i) \<and> length (OriginatedAddress i) = 32)"
  by (auto simp: AccountRef_Validate_def ImplicitAccount_Validate_def OriginatedAccountRef_Validate_def
      split: option.splits account_ref.splits)

lemma Validate_iff:
  "TransferCoinRequest_Validate c (Some tr) = Inr () \<longleftrightarrow> request_content c (Transfer tr) \<and> signed_ok c (Transfer tr)"
  "SplitCoinRequest_Validate c (Some sp) = Inr () \<longleftrightarrow> request_content c (Split sp) \<and> signed_ok c (Split sp)"
  "MergeCoinRequest_Validate c (Some me) = Inr () \<longleftrightarrow> request_content c (Merge me) \<and> signed_ok c (Merge me)"
  "MintCoinRequest_Validate c (Some mi) = Inr () \<longleftrightarrow> request_content c (Mint mi) \<and> signed_ok c (Mint mi)"
  "AnnounceProverJoin_Validate c (Some j) = Inr () \<longleftrightarrow> request_content c (Join j) \<and> signed_ok c (Join j)"
  "AnnounceProverLeave_Validate c (Some l) = Inr () \<longleftrightarrow> request_content c (Leave l) \<and> signed_ok c (Leave l)"
  "AnnounceProverPause_Validate c (Some l) = Inr () \<longleftrightarrow> request_content c (Pause l) \<and> signed_ok c (Pause l)"
  "AnnounceProverResume_Validate c (Some l) = Inr () \<longleftrightarrow> request_content c (Resume l) \<and> signed_ok c (Resume l)"
         apply (simp_all add: Validate_defs ValidateSignature_defs signed_validate [symmetric] bindE_eq_Inr)
     apply (auto simp: AccountRef_Validate_iff CoinRef_Validate_iff TransferCoinRequest_signatureMessage_def
        result_simps)[1]
    apply (auto simp: foldE_unit CoinRef_Validate_iff split: if_splits)[2]
  apply (auto split: option.splits)
  done

section \<open>Properties\<close>

text \<open>The content a payload determines.\<close>

definition same_content :: "request \<Rightarrow> request \<Rightarrow> bool" where
  "same_content r q = (case (r, q) of
       (Transfer a, Transfer b) \<Rightarrow>
         map_option CoinAddress (OfCoin a) = map_option CoinAddress (OfCoin b) \<and>
         map_option ImplicitAddress (GetImplicitAccount (ToAccount a)) =
         map_option ImplicitAddress (GetImplicitAccount (ToAccount b))
     | (Split a, Split b) \<Rightarrow>
         map_option CoinAddress (SplitOfCoin a) = map_option CoinAddress (SplitOfCoin b) \<and>
         concat (Amounts a) = concat (Amounts b)
     | (Merge a, Merge b) \<Rightarrow> map (map_option CoinAddress) (Coins a) = map (map_option CoinAddress) (Coins b)
     | (Mint a, Mint b) \<Rightarrow> concat (Proofs a) = concat (Proofs b)
     | (Join a, Join b) \<Rightarrow> FrameNumber a = FrameNumber b \<and> Filter a = Filter b
     | (Leave a, Leave b) \<Rightarrow> FrameNumber a = FrameNumber b \<and> Filter a = Filter b
     | (Pause a, Pause b) \<Rightarrow> FrameNumber a = FrameNumber b \<and> Filter a = Filter b
     | (Resume a, Resume b) \<Rightarrow> FrameNumber a = FrameNumber b \<and> Filter a = Filter b
     | _ \<Rightarrow> False)"

definition kind_tag :: "request \<Rightarrow> bytes" where
  "kind_tag r = str_bytes (case r of
       Transfer _ \<Rightarrow> ''transfer'' | Split _ \<Rightarrow> ''split'' | Merge _ \<Rightarrow> ''merge'' | Mint _ \<Rightarrow> ''mint''
     | Join _ \<Rightarrow> ''join'' | Leave _ \<Rightarrow> ''leave'' | Pause _ \<Rightarrow> ''pause'' | Resume _ \<Rightarrow> ''resume'' | _ \<Rightarrow> '''')"

lemma payload_tag:
  "request_payload r = Inr m \<Longrightarrow> \<exists>rest. m = kind_tag r @ rest"
  by (cases r) (auto simp: signatureMessage_defs kind_tag_def result_simps)

lemma tags_differ:
  assumes "kind_tag r @ x = kind_tag q @ y" "request_payload r = Inr m" "request_payload q = Inr m'"
  shows "kind_tag r = kind_tag q"
  using assms by (cases r; cases q) (simp_all add: kind_tag_def str_bytes_def)

lemma payload_inject_transfer:
  assumes "request_content c (Transfer a)" "request_content c (Transfer b)"
    and "request_payload (Transfer a) = Inr m" "request_payload (Transfer b) = Inr m"
  shows "same_content (Transfer a) (Transfer b)"
  using assms by (auto simp: TransferCoinRequest_signatureMessage_def same_content_def result_simps)

lemma payload_inject_merge:
  assumes "request_content c (Merge a)" "request_content c (Merge b)"
    and "request_payload (Merge a) = Inr m" "request_payload (Merge b) = Inr m"
  shows "same_content (Merge a) (Merge b)"
proof -
  obtain as bs where ab: "Coins a = map Some as" "Coins b = map Some bs"
    "concat (map CoinAddress as) = concat (map CoinAddress bs)"
    using assms(3,4) by (auto simp: MergeCoinRequest_signatureMessage_def bindE_eq_Inr mapE_derefE)
  have "map CoinAddress as = map CoinAddress bs"
    using ab assms(1,2) by (intro concat_fixed_inject [of _ _ 32]) auto
  moreover have "map (map_option CoinAddress) (map Some xs) = map Some (map CoinAddress xs)" for xs :: "coin_ref list"
    by simp
  ultimately show ?thesis by (simp only: ab same_content_def prod.case request.case)
qed

lemma payload_inject_others:
  "request_payload (Split a) = Inr m \<Longrightarrow> request_payload (Split b) = Inr m \<Longrightarrow>
   request_content c (Split a) \<Longrightarrow> request_content c (Split b) \<Longrightarrow> same_content (Split a) (Split b)"
  "request_payload (Mint a') = Inr m \<Longrightarrow> request_payload (Mint b') = Inr m \<Longrightarrow> same_content (Mint a') (Mint b')"
  "request_payload (Join j) = Inr m \<Longrightarrow> request_payload (Join k) = Inr m \<Longrightarrow> same_content (Join j) (Join k)"
  "request_payload (Leave l) = Inr m \<Longrightarrow> request_payload (Leave n) = Inr m \<Longrightarrow> same_content (Leave l) (Leave n)"
  "request_payload (Pause l) = Inr m \<Longrightarrow> request_payload (Pause n) = Inr m \<Longrightarrow> same_content (Pause l) (Pause n)"
  "request_payload (Resume l) = Inr m \<Longrightarrow> request_payload (Resume n) = Inr m \<Longrightarrow> same_content (Resume l) (Resume n)"
  by (auto simp: signatureMessage_defs same_content_def result_simps be_put_uint64_inject)

lemma kind_tag_same:
  assumes "kind_tag r = kind_tag q" "request_payload r = Inr m" "request_payload q = Inr m"
  shows "case (r, q) of
      (Transfer _, Transfer _) \<Rightarrow> True | (Split _, Split _) \<Rightarrow> True | (Merge _, Merge _) \<Rightarrow> True
    | (Mint _, Mint _) \<Rightarrow> True | (Join _, Join _) \<Rightarrow> True | (Leave _, Leave _) \<Rightarrow> True
    | (Pause _, Pause _) \<Rightarrow> True | (Resume _, Resume _) \<Rightarrow> True | _ \<Rightarrow> False"
  using assms by (cases r; cases q) (simp_all add: kind_tag_def str_bytes_def)

lemma payload_inject:
  assumes "kind_tag r = kind_tag q" "request_content c r" "request_content c q"
    and "request_payload r = Inr m" "request_payload q = Inr m"
  shows "same_content r q"
  using kind_tag_same [OF assms(1,4,5)] assms(2-5)
  by (auto split: request.splits simp del: request_payload.simps request_content.simps
      intro: payload_inject_transfer payload_inject_merge payload_inject_others)

text \<open>
  C20: a signature authorises one request. If two accepted requests (other than bare
  announcements) sign the same payload, they are of the same kind and agree on what the
  signature covers: the coin and the receiving address of a transfer, the coins of a merge in
  order, the frame number and filter of a join, leave, pause or resume, the coin and the
  concatenated amounts of a split, the concatenated proofs of a mint. So no signature can be
  moved from one kind of request to another.
\<close>

theorem signature_binds_request:
  assumes "TokenRequest_Validate c (Some t) = Inr ()" "TokenRequest_Validate c (Some u) = Inr ()"
    and "request_payload (Request t) = Inr m" "request_payload (Request u) = Inr m"
  shows "same_content (Request t) (Request u)"
proof -
  have ok: "request_content c (Request x)"
    if "TokenRequest_Validate c (Some x) = Inr ()" "request_payload (Request x) = Inr m" for x
    using that by (auto simp: TokenRequest_Validate_def Validate_iff split: request.splits)
  obtain x y where "m = kind_tag (Request t) @ x" "m = kind_tag (Request u) @ y"
    using payload_tag [OF assms(3)] payload_tag [OF assms(4)] by blast
  then have "kind_tag (Request t) = kind_tag (Request u)"
    using assms(3,4) tags_differ by metis
  then show ?thesis
    using assms ok by (intro payload_inject)
qed

text \<open>
  A concrete instance of the external code: a signature is accepted when it starts with the
  first byte of the key; hashes are the sum of the bytes.
\<close>

definition sample_crypto :: crypto_ops where
  "sample_crypto = \<lparr>
     ed448_Verify = (\<lambda>pk m s. take 1 s = take 1 pk),
     sha256_Sum256 = (\<lambda>b. be_of_nat 32 (sum_list (map unat b))),
     sha3_Sum256 = (\<lambda>b. be_of_nat 32 (sum_list (map unat b))),
     shake256_Read = (\<lambda>b n. be_of_nat n (sum_list (map unat b))),
     poseidon_HashBytes = (\<lambda>b. Inr (sum_list (map unat b))),
     marshal_Ed448PublicKey = (\<lambda>b. Inr b),
     mh_Sum = (\<lambda>b alg. b)\<rparr>"

definition sample_sign :: signer where
  "sample_sign m = Inr (replicate 114 1)"

definition sample_key :: bytes where
  "sample_key = replicate 57 1"

definition sample_leave :: announce_prover_leave where
  "sample_leave = \<lparr>Filter = replicate 32 7, FrameNumber = 9,
     PublicKeySignatureEd448 = newED448Signature sample_key (replicate 114 1)\<rparr>"

theorem signature_binds_request_witness:
  "let t = AnnounceProverLeave_TokenRequest 1 sample_leave; u = AnnounceProverLeave_TokenRequest 2 sample_leave in
   TokenRequest_Validate sample_crypto (Some t) = Inr () \<and> TokenRequest_Validate sample_crypto (Some u) = Inr () \<and>
   same_content (Request t) (Request u)"
proof -
  let ?t = "AnnounceProverLeave_TokenRequest 1 sample_leave"
  let ?u = "AnnounceProverLeave_TokenRequest 2 sample_leave"
  have *: "TokenRequest_Validate sample_crypto (Some ?t) = Inr ()" "TokenRequest_Validate sample_crypto (Some ?u) = Inr ()"
    by (simp_all add: TokenRequest_Validate_def AnnounceProverLeave_TokenRequest_def TokenRequest_of_def
        Validate_iff signed_ok_def AnnounceProverLeave_signatureMessage_def sample_leave_def
        newED448Signature_def sample_crypto_def sample_key_def)
  obtain m where "request_payload (Request ?t) = Inr m" "request_payload (Request ?u) = Inr m"
    by (simp add: AnnounceProverLeave_TokenRequest_def TokenRequest_of_def AnnounceProverLeave_signatureMessage_def)
  from signature_binds_request [OF * this] * show ?thesis
    by (simp add: Let_def)
qed

text \<open>Signing dispatched on the kind, as the clients of \<open>SignED448\<close> do.\<close>

fun sign_request :: "request \<Rightarrow> bytes \<Rightarrow> signer \<Rightarrow> request result" where
  "sign_request (Transfer t) pk s = bindE (TransferCoinRequest_SignED448 t pk s) (\<lambda>t. Inr (Transfer t))"
| "sign_request (Split t) pk s = bindE (SplitCoinRequest_SignED448 t pk s) (\<lambda>t. Inr (Split t))"
| "sign_request (Merge t) pk s = bindE (MergeCoinRequest_SignED448 t pk s) (\<lambda>t. Inr (Merge t))"
| "sign_request (Mint t) pk s = bindE (MintCoinRequest_SignED448 t pk s) (\<lambda>t. Inr (Mint t))"
| "sign_request (Join t) pk s = bindE (AnnounceProverJoin_SignED448 t pk s) (\<lambda>t. Inr (Join t))"
| "sign_request (Leave t) pk s = bindE (AnnounceProverLeave_SignED448 t pk s) (\<lambda>t. Inr (Leave t))"
| "sign_request (Pause t) pk s = bindE (AnnounceProverPause_SignED448 t pk s) (\<lambda>t. Inr (Pause t))"
| "sign_request (Resume t) pk s = bindE (AnnounceProverResume_SignED448 t pk s) (\<lambda>t. Inr (Resume t))"
| "sign_request r pk s = Inl Panic"

text \<open>
  What Ed448 promises of a key pair: the signer answers every message with 114 bytes that
  verify under the 57-byte public key.
\<close>

definition key_pair :: "crypto_ops \<Rightarrow> bytes \<Rightarrow> signer \<Rightarrow> bool" where
  "key_pair c pk sign \<longleftrightarrow> length pk = 57 \<and>
     (\<forall>m. \<exists>s. sign m = Inr s \<and> length s = 114 \<and> ed448_Verify c pk m s)"

lemmas SignED448_defs =
  TransferCoinRequest_SignED448_def SplitCoinRequest_SignED448_def MergeCoinRequest_SignED448_def
  MintCoinRequest_SignED448_def AnnounceProverJoin_SignED448_def AnnounceProverLeave_SignED448_def
  AnnounceProverPause_SignED448_def AnnounceProverResume_SignED448_def

text \<open>Signing succeeds on a payload, leaves the payload and the content, and sets the signature.\<close>

lemma sign_request_ok:
  assumes "request_payload r = Inr m" "sign m = Inr s"
  shows "\<exists>r'. sign_request r pk sign = Inr r' \<and> request_payload r' = Inr m \<and>
              request_signature r' = newED448Signature pk s \<and> (\<forall>c. request_content c r' = request_content c r)"
  using assms by (cases r) (auto simp: SignED448_defs signatureMessage_defs bindE_eq_Inr)

lemma content_payload:
  assumes "request_content c r"
  shows "\<exists>m. request_payload r = Inr m"
proof (cases r)
  case (Merge t)
  have "\<exists>ys. xs = map Some ys" if "\<forall>e\<in>set xs. \<exists>r. e = Some r" for xs :: "coin_ref option list"
    using that by (induction xs) (auto, metis list.simps(9))
  then show ?thesis
    using Merge assms by (force simp: MergeCoinRequest_signatureMessage_def bindE_eq_Inr mapE_derefE)
qed (use assms in \<open>auto simp: signatureMessage_defs\<close>)

text \<open>
  C21: signing and validating agree. For a request of any signed kind with valid contents and
  a key pair of Ed448, \<open>SignED448\<close> succeeds and the signed request, wrapped by
  \<open>TokenRequest()\<close> at any time, passes \<open>Validate\<close>.
\<close>

theorem sign_then_validate:
  assumes "key_pair c pk sign" "request_content c r"
  shows "\<exists>r'. sign_request r pk sign = Inr r' \<and>
              TokenRequest_Validate c (Some (TokenRequest_of now r')) = Inr ()"
proof -
  obtain m where m: "request_payload r = Inr m" using content_payload [OF assms(2)] by blast
  obtain s where s: "sign m = Inr s" "length s = 114" "ed448_Verify c pk m s"
    using assms(1) by (auto simp: key_pair_def)
  obtain r' where r': "sign_request r pk sign = Inr r'" "request_payload r' = Inr m"
    "request_signature r' = newED448Signature pk s" "request_content c r'"
    using sign_request_ok [of r m sign s pk, OF m s(1)] assms(2) by auto
  have "signed_ok c r'"
    using r' s assms(1) by (auto simp: signed_ok_def newED448Signature_def key_pair_def)
  then have "TokenRequest_Validate c (Some (TokenRequest_of now r')) = Inr ()"
    using r'(4) by (cases r') (auto simp: TokenRequest_Validate_def TokenRequest_of_def Validate_iff)
  then show ?thesis using r'(1) by blast
qed

definition unsigned_leave :: announce_prover_leave where
  "unsigned_leave = \<lparr>Filter = replicate 32 7, FrameNumber = 9, PublicKeySignatureEd448 = None\<rparr>"

lemma sample_key_pair: "key_pair sample_crypto sample_key sample_sign"
  by (simp add: key_pair_def sample_crypto_def sample_key_def sample_sign_def)

theorem sign_then_validate_witness:
  "key_pair sample_crypto sample_key sample_sign \<and> request_content sample_crypto (Leave unsigned_leave) \<and>
   (\<exists>r'. sign_request (Leave unsigned_leave) sample_key sample_sign = Inr r' \<and>
         TokenRequest_Validate sample_crypto (Some (TokenRequest_of 5 r')) = Inr ())"
  using sign_then_validate [OF sample_key_pair, of "Leave unsigned_leave" 5] sample_key_pair
  by (simp add: unsigned_leave_def)

lemma key_pairE:
  assumes "key_pair c pk sign"
  obtains s where "sign m = Inr s" "length s = 114" "ed448_Verify c pk m s" "length pk = 57"
  using assms by (auto simp: key_pair_def dest: spec [of _ m])

lemma sign_others_ok:
  assumes "\<forall>k\<in>set ks. key_pair c (HelperPublicKey k) (Sign k)"
  shows "\<exists>rest. sign_others pk ks = Inr rest \<and> (\<forall>e\<in>set rest. Ed448Signature_Validate e = Inr ()) \<and>
     (\<forall>s p. announce_payload c (newED448Signature pk s) p rest = Inr (p @ concat (map HelperPublicKey ks)))"
  using assms
proof (induction ks)
  case (Cons k ks)
  then obtain rest where rest: "sign_others pk ks = Inr rest"
    "\<forall>e\<in>set rest. Ed448Signature_Validate e = Inr ()"
    "\<And>s p. announce_payload c (newED448Signature pk s) p rest = Inr (p @ concat (map HelperPublicKey ks))"
    by auto
  obtain s where s: "Sign k pk = Inr s" "length s = 114" "ed448_Verify c (HelperPublicKey k) pk s"
    and len: "length (HelperPublicKey k) = 57"
    using Cons.prems by (auto elim: key_pairE [of c "HelperPublicKey k" "Sign k" pk])
  have "verifyUnsafe c (newED448Signature (HelperPublicKey k) s) pk = Inr ()"
    using s by (simp add: newED448Signature_def verifyUnsafe_iff)
  then show ?case
    using rest s len
    by (auto simp: key_of_def newED448Signature_def Ed448Signature_Validate_iff)
qed simp

text \<open>
  C22: the same for announcements: \<open>SignED448\<close> with one or more Ed448 key pairs succeeds, lists
  one signature per key in the order of the keys, and the announcement passes \<open>Validate\<close>.
\<close>

theorem announce_sign_then_validate:
  assumes "\<forall>k\<in>set helpers. key_pair c (HelperPublicKey k) (Sign k)" "helpers \<noteq> []"
  shows "\<exists>a. AnnounceProverRequest_SignED448 t helpers = Inr a \<and>
             AnnounceProverRequest_Validate c (Some a) = Inr () \<and>
             mapE key_of (PublicKeySignaturesEd448 a) = Inr (map HelperPublicKey helpers)"
proof -
  obtain k ks where h: "helpers = k # ks" using assms(2) by (cases helpers) auto
  obtain rest where rest: "sign_others (HelperPublicKey k) ks = Inr rest"
    "\<forall>e\<in>set rest. Ed448Signature_Validate e = Inr ()"
    "\<And>s p. announce_payload c (newED448Signature (HelperPublicKey k) s) p rest = Inr (p @ concat (map HelperPublicKey ks))"
    using sign_others_ok [of ks c "HelperPublicKey k"] assms(1) h by auto
  obtain s where s: "Sign k (concat (map HelperPublicKey ks)) = Inr s" "length s = 114"
    "ed448_Verify c (HelperPublicKey k) (concat (map HelperPublicKey ks)) s" "length (HelperPublicKey k) = 57"
    using assms(1) h by (auto elim: key_pairE [of c _ _ "concat (map HelperPublicKey ks)"])
  have keys: "sign_others p ks = Inr rest \<Longrightarrow> mapE key_of rest = Inr (map HelperPublicKey ks)" for p
    by (induction ks arbitrary: rest) (auto simp: result_simps key_of_def newED448Signature_def)
  have "verifyUnsafe c (newED448Signature (HelperPublicKey k) s) (concat (map HelperPublicKey ks)) = Inr ()"
    using s by (simp add: newED448Signature_def verifyUnsafe_iff)
  moreover have "Ed448Signature_Validate (newED448Signature (HelperPublicKey k) s) = Inr ()"
    using s by (simp add: newED448Signature_def Ed448Signature_Validate_iff)
  moreover have "key_of (newED448Signature (HelperPublicKey k) s) = Inr (HelperPublicKey k)"
    by (simp add: key_of_def newED448Signature_def)
  ultimately show ?thesis
    using rest s keys [OF rest(1)]
    by (simp add: AnnounceProverRequest_SignED448_def h AnnounceProverRequest_Validate_def
        AnnounceProverRequest_ValidateSignature_def bindE_eq_Inr foldE_unit)
qed

definition sample_helpers :: "ed448_sign_helper list" where
  "sample_helpers = [\<lparr>HelperPublicKey = sample_key, Sign = sample_sign\<rparr>, \<lparr>HelperPublicKey = sample_key, Sign = sample_sign\<rparr>]"

theorem announce_sign_then_validate_witness:
  "sample_helpers \<noteq> [] \<and> list_all (\<lambda>k. key_pair sample_crypto (HelperPublicKey k) (Sign k)) sample_helpers \<and>
   (\<exists>a. AnnounceProverRequest_SignED448 \<lparr>PublicKeySignaturesEd448 = []\<rparr> sample_helpers = Inr a \<and>
        AnnounceProverRequest_Validate sample_crypto (Some a) = Inr () \<and>
        mapE key_of (PublicKeySignaturesEd448 a) = Inr [sample_key, sample_key])"
  using announce_sign_then_validate [of sample_helpers sample_crypto "\<lparr>PublicKeySignaturesEd448 = []\<rparr>"]
    sample_key_pair
  by (simp add: sample_helpers_def)

text \<open>None of the checks on contents panics, and verifying a checked signature does not.\<close>

lemma no_panic [simp]:
  "Ed448Signature_Validate e \<noteq> Inl Panic"
  "CoinRef_Validate r \<noteq> Inl Panic"
  "AccountRef_Validate a \<noteq> Inl Panic"
  by (auto simp: Ed448Signature_Validate_def Ed448PublicKey_Validate_def CoinRef_Validate_def
      AccountRef_Validate_def ImplicitAccount_Validate_def OriginatedAccountRef_Validate_def bindE_eq_Inl
      split: option.splits account_ref.splits if_splits)

lemma verifyUnsafe_no_panic:
  "Ed448Signature_Validate e = Inr () \<Longrightarrow> verifyUnsafe c e m \<noteq> Inl Panic"
  by (auto simp: Ed448Signature_Validate_iff verifyUnsafe_def guardE_def split: if_splits)

lemma announce_payload_no_panic:
  assumes "\<forall>e\<in>set ps. Ed448Signature_Validate e = Inr ()" "Ed448Signature_Validate primary = Inr ()"
  shows "announce_payload c primary p ps \<noteq> Inl Panic"
  using assms
proof (induction ps arbitrary: p)
  case (Cons e ps)
  have k: "\<exists>k. key_of x = Inr k" if "Ed448Signature_Validate x = Inr ()" for x
    using that by (auto simp: key_of_def Ed448Signature_Validate_iff)
  obtain ke kp where "key_of e = Inr ke" "key_of primary = Inr kp"
    using k Cons.prems by (meson list.set_intros(1))
  then show ?case
    using Cons verifyUnsafe_no_panic [of e c kp] by (auto simp: bindE_eq_Inl)
qed simp

lemma AnnounceProverRequest_no_panic: "AnnounceProverRequest_Validate c a \<noteq> Inl Panic"
proof
  assume "AnnounceProverRequest_Validate c a = Inl Panic"
  then obtain t where t: "PublicKeySignaturesEd448 t \<noteq> []"
    and "foldE (\<lambda>_. Ed448Signature_Validate) () (PublicKeySignaturesEd448 t) = Inl Panic \<or>
         foldE (\<lambda>_. Ed448Signature_Validate) () (PublicKeySignaturesEd448 t) = Inr () \<and>
         AnnounceProverRequest_ValidateSignature c t = Inl Panic"
    by (auto simp: AnnounceProverRequest_Validate_def bindE_eq_Inl split: option.splits if_splits)
  moreover have "foldE (\<lambda>_. Ed448Signature_Validate) () (PublicKeySignaturesEd448 t) \<noteq> Inl Panic"
    by (rule foldE_unit_Panic) simp
  ultimately have ok: "\<forall>e\<in>set (PublicKeySignaturesEd448 t). Ed448Signature_Validate e = Inr ()"
    and p: "AnnounceProverRequest_ValidateSignature c t = Inl Panic"
    by (auto simp: foldE_unit)
  obtain e es where es: "PublicKeySignaturesEd448 t = e # es" using t by (cases "PublicKeySignaturesEd448 t") auto
  then show False
    using p ok announce_payload_no_panic [of es e c "[]"] verifyUnsafe_no_panic [of e c]
    by (auto simp: AnnounceProverRequest_ValidateSignature_def bindE_eq_Inl)
qed

lemma signed_no_panic:
  "bindE (Ed448Signature_Validate e) (\<lambda>_. check_signed c e p) = Inl Panic \<longleftrightarrow>
   Ed448Signature_Validate e = Inr () \<and> p = Inl Panic"
  using verifyUnsafe_no_panic [of e c] by (auto simp: bindE_eq_Inl check_signed_def)

lemma mapE_derefE_Panic: "\<forall>e\<in>set xs. CoinRef_Validate e = Inr () \<Longrightarrow> mapE derefE xs \<noteq> Inl e"
  by (induction xs) (auto simp: bindE_eq_Inl CoinRef_Validate_iff)

lemma Split_no_panic: "SplitCoinRequest_Validate c (Some t) \<noteq> Inl Panic"
  by (auto simp: SplitCoinRequest_Validate_def SplitCoinRequest_ValidateSignature_def signed_no_panic
      bindE_eq_Inl [of "CoinRef_Validate _"] bindE_eq_Inl [of "foldE _ _ _"] foldE_unit_Panic
      CoinRef_Validate_iff SplitCoinRequest_signatureMessage_def)

lemma Merge_no_panic: "MergeCoinRequest_Validate c (Some t) \<noteq> Inl Panic"
proof -
  have "foldE (\<lambda>_. CoinRef_Validate) () (Coins t) \<noteq> Inl Panic" by (rule foldE_unit_Panic) simp
  then show ?thesis
    by (auto simp: MergeCoinRequest_Validate_def MergeCoinRequest_ValidateSignature_def signed_no_panic
        bindE_eq_Inl [of "foldE _ _ _"] foldE_unit MergeCoinRequest_signatureMessage_def
        bindE_eq_Inl [of "mapE _ _"] mapE_derefE_Panic)
qed

lemma other_no_panic:
  "MintCoinRequest_Validate c (Some mi) \<noteq> Inl Panic"
  "AnnounceProverJoin_Validate c (Some j) \<noteq> Inl Panic"
  "AnnounceProverLeave_Validate c (Some l) \<noteq> Inl Panic"
  "AnnounceProverPause_Validate c (Some l) \<noteq> Inl Panic"
  "AnnounceProverResume_Validate c (Some l) \<noteq> Inl Panic"
  by (auto simp: Validate_defs ValidateSignature_defs signed_no_panic signatureMessage_defs
      AnnounceProverRequest_no_panic bindE_eq_Inl [of "case_option _ _ _"] split: option.splits)

text \<open>
  C23: \<open>TokenRequest.Validate\<close> returns on every input but one kind, on which it panics: a
  transfer to a well-formed originated account, whose coin reference and signature are well
  formed. \<open>signatureMessage\<close> reads the implicit account, which is nil there.
\<close>

theorem validate_panics_iff:
  "TokenRequest_Validate c t = Inl Panic \<longleftrightarrow>
   (\<exists>t0 r i. t = Some t0 \<and> Request t0 = Transfer r \<and> ToAccount r = Some (OriginatedAccount i) \<and>
      length (OriginatedAddress i) = 32 \<and> CoinRef_Validate (OfCoin r) = Inr () \<and>
      Ed448Signature_Validate (TransferSignature r) = Inr ())"
proof -
  have "TransferCoinRequest_Validate c (Some r) = Inl Panic \<longleftrightarrow>
      (\<exists>i. ToAccount r = Some (OriginatedAccount i) \<and> length (OriginatedAddress i) = 32 \<and>
       CoinRef_Validate (OfCoin r) = Inr () \<and> Ed448Signature_Validate (TransferSignature r) = Inr ())" for r
    by (auto simp: TransferCoinRequest_Validate_def TransferCoinRequest_ValidateSignature_def signed_no_panic
        bindE_eq_Inl [of "AccountRef_Validate _"] bindE_eq_Inl [of "CoinRef_Validate _"]
        AccountRef_Validate_iff CoinRef_Validate_iff TransferCoinRequest_signatureMessage_def derefE_def)
  then show ?thesis
    by (auto simp: TokenRequest_Validate_def Split_no_panic Merge_no_panic other_no_panic
        AnnounceProverRequest_no_panic split: option.splits request.splits)
qed

text \<open>
  The payload of a split concatenates amounts of any length from 1 to 32 bytes, so a signature
  over one list of amounts is a signature over every other list with that concatenation.
\<close>

theorem split_amounts_ambiguous:
  "\<exists>a b. Amounts a = [[0], [5]] \<and> Amounts b = [[0, 5]] \<and>
     SplitCoinRequest_signatureMessage a = SplitCoinRequest_signatureMessage b \<and>
     SplitCoinRequest_Validate sample_crypto (Some a) = Inr () \<and>
     SplitCoinRequest_Validate sample_crypto (Some b) = Inr ()"
proof -
  let ?s = "\<lambda>as. \<lparr>SplitOfCoin = Some \<lparr>CoinAddress = replicate 32 3\<rparr>, Amounts = as,
      SplitSignature = newED448Signature sample_key (replicate 114 1)\<rparr>"
  have "Amounts (?s [[0], [5]]) = [[0], [5]] \<and> Amounts (?s [[0, 5]]) = [[0, 5]] \<and>
     SplitCoinRequest_signatureMessage (?s [[0], [5]]) = SplitCoinRequest_signatureMessage (?s [[0, 5]]) \<and>
     SplitCoinRequest_Validate sample_crypto (Some (?s [[0], [5]])) = Inr () \<and>
     SplitCoinRequest_Validate sample_crypto (Some (?s [[0, 5]])) = Inr ()"
    by (simp add: Validate_iff signed_ok_def SplitCoinRequest_signatureMessage_def newED448Signature_def
        sample_crypto_def sample_key_def)
  then show ?thesis by blast
qed

end
