(* ===== verification/KVDB.thy ===== *)
theory KVDB
  imports Interfaces "HOL-Library.List_Lexorder"
begin

text \<open>
  The interfaces \<open>KVDB\<close> and \<open>Transaction\<close> of \<open>node/store/kvdb.go\<close> as a record of operations,
  the argument of the stores built on them, and the contract of the operations as a locale. The
  database a transaction was made from is passed with it. \<open>kv_Scan\<close> is the loop
  \<open>for iter.First(); iter.Valid(); iter.Next()\<close> over an iterator from \<open>NewIter(lower, upper)\<close>:
  \<open>None\<close> is a loop that does not end.
\<close>

section \<open>Operations\<close>

record ('d, 't) kvdb_ops =
  kv_Get :: "'d \<Rightarrow> bytes \<Rightarrow> bytes result"
  kv_Delete :: "'d \<Rightarrow> bytes \<Rightarrow> 'd result"
  kv_DeleteRange :: "'d \<Rightarrow> bytes \<Rightarrow> bytes \<Rightarrow> 'd result option"
  kv_Scan :: "'d \<Rightarrow> bytes \<Rightarrow> bytes \<Rightarrow> (bytes \<times> bytes) list result option"
  kv_NewBatch :: "'d \<Rightarrow> 't option"
  tx_Get :: "'d \<Rightarrow> 't \<Rightarrow> bytes \<Rightarrow> bytes result"
  tx_Set :: "'d \<Rightarrow> 't \<Rightarrow> bytes \<Rightarrow> bytes \<Rightarrow> 't result"
  tx_Delete :: "'d \<Rightarrow> 't \<Rightarrow> bytes \<Rightarrow> 't result"
  tx_Commit :: "'d \<Rightarrow> 't \<Rightarrow> 'd result"

section \<open>Contract\<close>

definition apply_changes :: "(bytes \<times> bytes option) list \<Rightarrow> (bytes \<rightharpoonup> bytes) \<Rightarrow> (bytes \<rightharpoonup> bytes)" where
  "apply_changes cs m = fold (\<lambda>(k, v) m. m(k := v)) cs m"

lemma apply_changes_simps [simp]:
  "apply_changes [] m = m"
  "apply_changes ((k, v) # cs) m = apply_changes cs (m(k := v))"
  "apply_changes (cs @ ds) m = apply_changes ds (apply_changes cs m)"
  by (simp_all add: apply_changes_def)

text \<open>The entries of a map in a key range, in ascending order.\<close>

definition range_entries :: "(bytes \<rightharpoonup> bytes) \<Rightarrow> bytes \<Rightarrow> bytes \<Rightarrow> (bytes \<times> bytes) list \<Rightarrow> bool" where
  "range_entries m lo hi kvs \<longleftrightarrow> sorted (map fst kvs) \<and> distinct (map fst kvs) \<and>
     (\<forall>k v. (k, v) \<in> set kvs \<longleftrightarrow> m k = Some v \<and> lo \<le> k \<and> k < hi)"

locale kvdb =
  fixes k :: "('d, 't) kvdb_ops"
    and ok :: "'d \<Rightarrow> bool"
    and view :: "'d \<Rightarrow> bytes \<rightharpoonup> bytes"
    and pending :: "'t \<Rightarrow> (bytes \<times> bytes option) list"
  assumes Get: "ok d \<Longrightarrow> kv_Get k d key = (case view d key of None \<Rightarrow> Inl ErrNotFound | Some v \<Rightarrow> Inr v)"
    and Scan: "ok d \<Longrightarrow> \<exists>kvs. kv_Scan k d lo hi = Some (Inr kvs) \<and> range_entries (view d) lo hi kvs"
    and Delete: "ok d \<Longrightarrow> \<exists>d'. kv_Delete k d key = Inr d' \<and> ok d' \<and> view d' = (view d)(key := None)"
    and NewBatch: "ok d \<Longrightarrow> \<exists>t. kv_NewBatch k d = Some t \<and> pending t = []"
    and txn_Set: "ok d \<Longrightarrow> \<exists>t'. tx_Set k d t key v = Inr t' \<and> pending t' = pending t @ [(key, Some v)]"
    and txn_Delete: "ok d \<Longrightarrow> \<exists>t'. tx_Delete k d t key = Inr t' \<and> pending t' = pending t @ [(key, None)]"
    and txn_Commit: "ok d \<Longrightarrow> \<exists>d'. tx_Commit k d t = Inr d' \<and> ok d' \<and> view d' = apply_changes (pending t) (view d)"
begin

text \<open>A transaction sees nothing until it commits, and then everything at once.\<close>

lemma set_two:
  assumes "ok d"
  shows "\<exists>t'. bindE (tx_Set k d t a v) (\<lambda>t. tx_Set k d t b w) = Inr t' \<and>
              pending t' = pending t @ [(a, Some v), (b, Some w)]"
proof -
  obtain t1 where t1: "tx_Set k d t a v = Inr t1" "pending t1 = pending t @ [(a, Some v)]"
    using txn_Set [OF assms] by blast
  obtain t2 where "tx_Set k d t1 b w = Inr t2" "pending t2 = pending t1 @ [(b, Some w)]"
    using txn_Set [OF assms] by blast
  with t1 show ?thesis by simp
qed

lemma delete_two:
  assumes "ok d"
  shows "\<exists>t'. bindE (tx_Delete k d t a) (\<lambda>t. tx_Delete k d t b) = Inr t' \<and>
              pending t' = pending t @ [(a, None), (b, None)]"
proof -
  obtain t1 where t1: "tx_Delete k d t a = Inr t1" "pending t1 = pending t @ [(a, None)]"
    using txn_Delete [OF assms] by blast
  obtain t2 where "tx_Delete k d t1 b = Inr t2" "pending t2 = pending t1 @ [(b, None)]"
    using txn_Delete [OF assms] by blast
  with t1 show ?thesis by simp
qed

lemma commit_view:
  assumes "ok d" "tx_Commit k d t = Inr d'"
  shows "ok d' \<and> view d' = apply_changes (pending t) (view d)"
  using txn_Commit [OF assms(1), of t] assms(2) by auto

end

end
