(* ===== verification/InMemKVDB.thy ===== *)
theory InMemKVDB
  imports KVDB
begin

text \<open>
  The in-memory key-value database of \<open>node/store/inmem.go\<close>: the map, its sorted list of keys,
  iterators over a key range and transactions (a log of changes applied by \<open>Commit\<close>). The mutex
  only serialises the operations. Keys compare as Go strings do, byte by byte (the order of
  lists of bytes). An operation on a closed database fails; indexing \<open>sortedKeys\<close> out of range
  panics.
\<close>

section \<open>Searching\<close>

text \<open>\<open>sort.SearchStrings\<close>: binary search for the first index whose key is at least \<open>x\<close>.\<close>

function search_between :: "bytes list \<Rightarrow> bytes \<Rightarrow> nat \<Rightarrow> nat \<Rightarrow> nat" where
  "search_between a x i j =
     (if i < j then
        let h = (i + j) div 2 in
        if \<not> (a ! h \<ge> x) then search_between a x (h + 1) j else search_between a x i h
      else i)"
  by pat_completeness auto
termination
  by (relation "measure (\<lambda>(a, x, i, j). j - i)") auto

declare search_between.simps [simp del]

definition SearchStrings :: "bytes list \<Rightarrow> bytes \<Rightarrow> nat" where
  "SearchStrings a x = search_between a x 0 (length a)"

section \<open>Database\<close>

record inmem =
  db_open :: bool
  sortedKeys :: "bytes list"
  db_store :: "bytes \<rightharpoonup> bytes"

definition closed_err :: go_err where
  "closed_err = ErrMsg ''inmem db closed''"

definition NewInMemKVDB :: inmem where
  "NewInMemKVDB = \<lparr>db_open = True, sortedKeys = [], db_store = Map.empty\<rparr>"

definition db_Get :: "inmem \<Rightarrow> bytes \<Rightarrow> bytes result" where
  "db_Get d key =
     bindE (guardE (db_open d) closed_err) (\<lambda>_.
     case db_store d key of None \<Rightarrow> Inl ErrNotFound | Some b \<Rightarrow> Inr b)"

definition insert_key :: "bytes list \<Rightarrow> bytes \<Rightarrow> bytes list" where
  "insert_key ks key =
     (let i = SearchStrings ks key in
      if length ks > i then (take (i + 1) ks @ drop i ks)[i := key] else ks @ [key])"

definition db_Set :: "inmem \<Rightarrow> bytes \<Rightarrow> bytes \<Rightarrow> inmem result" where
  "db_Set d key value =
     bindE (guardE (db_open d) closed_err) (\<lambda>_.
     Inr (d\<lparr>sortedKeys := (if db_store d key = None then insert_key (sortedKeys d) key else sortedKeys d),
            db_store := (db_store d)(key \<mapsto> value)\<rparr>))"

definition remove_key :: "bytes list \<Rightarrow> bytes \<Rightarrow> bytes list" where
  "remove_key ks key =
     (let i = SearchStrings ks key in
      if length ks > i + 1 then take i ks @ drop (i + 1) ks else take i ks)"

definition db_Delete :: "inmem \<Rightarrow> bytes \<Rightarrow> inmem result" where
  "db_Delete d key =
     bindE (guardE (db_open d) closed_err) (\<lambda>_.
     Inr (d\<lparr>sortedKeys := (if db_store d key \<noteq> None then remove_key (sortedKeys d) key else sortedKeys d),
            db_store := (db_store d)(key := None)\<rparr>))"

definition db_Compact :: "inmem \<Rightarrow> unit result" where
  "db_Compact d = guardE (db_open d) closed_err"

definition db_CompactAll :: "inmem \<Rightarrow> unit result" where
  "db_CompactAll d = Inr ()"

definition db_Close :: "inmem \<Rightarrow> inmem result" where
  "db_Close d = bindE (guardE (db_open d) closed_err) (\<lambda>_. Inr (d\<lparr>db_open := False\<rparr>))"

section \<open>Iterators\<close>

record inmem_iter =
  it_start :: bytes
  it_end :: bytes
  it_pos :: int
  it_open :: bool

definition db_NewIter :: "inmem \<Rightarrow> bytes \<Rightarrow> bytes \<Rightarrow> inmem_iter result" where
  "db_NewIter d lowerBound upperBound =
     bindE (guardE (db_open d) closed_err) (\<lambda>_.
     Inr \<lparr>it_start = lowerBound, it_end = upperBound, it_pos = -1, it_open = True\<rparr>)"

text \<open>\<open>sortedKeys[i.pos]\<close>.\<close>

definition key_at :: "inmem \<Rightarrow> inmem_iter \<Rightarrow> bytes result" where
  "key_at d i =
     (if 0 \<le> it_pos i \<and> it_pos i < int (length (sortedKeys d))
      then Inr (sortedKeys d ! nat (it_pos i)) else Inl Panic)"

definition it_Key :: "inmem \<Rightarrow> inmem_iter \<Rightarrow> bytes result" where
  "it_Key d i =
     (if \<not> it_open i then Inr []
      else bindE (key_at d i) (\<lambda>k. if db_store d k = None then Inr [] else Inr k))"

definition it_First :: "inmem \<Rightarrow> inmem_iter \<Rightarrow> inmem_iter \<times> bool" where
  "it_First d i =
     (if \<not> it_open i then (i, False)
      else let idx = SearchStrings (sortedKeys d) (it_start i);
               final = SearchStrings (sortedKeys d) (it_end i)
           in if idx < final then (i\<lparr>it_pos := int idx\<rparr>, True) else (i, False))"

definition it_Next :: "inmem \<Rightarrow> inmem_iter \<Rightarrow> (inmem_iter \<times> bool) result" where
  "it_Next d i =
     (if \<not> it_open i then Inr (i, False)
      else bindE (key_at d i) (\<lambda>k.
        if db_store d k \<noteq> None \<and> it_pos i < int (SearchStrings (sortedKeys d) (it_end i))
        then Inr (i\<lparr>it_pos := it_pos i + 1\<rparr>, True) else Inr (i, False)))"

definition it_Last :: "inmem \<Rightarrow> inmem_iter \<Rightarrow> inmem_iter \<times> bool" where
  "it_Last d i =
     (if \<not> it_open i then (i, False)
      else let final = SearchStrings (sortedKeys d) (it_end i) in
           (i\<lparr>it_pos := (if length (sortedKeys d) = final \<or> sortedKeys d ! final \<noteq> it_end i
                          then int final - 1 else int final)\<rparr>, True))"

definition it_Prev :: "inmem \<Rightarrow> inmem_iter \<Rightarrow> (inmem_iter \<times> bool) result" where
  "it_Prev d i =
     (if \<not> it_open i then Inr (i, False)
      else bindE (key_at d i) (\<lambda>k.
        if db_store d k \<noteq> None \<and> it_pos i - 1 > int (SearchStrings (sortedKeys d) (it_start i))
        then Inr (i\<lparr>it_pos := it_pos i - 1\<rparr>, True) else Inr (i, False)))"

definition it_Valid :: "inmem \<Rightarrow> inmem_iter \<Rightarrow> bool" where
  "it_Valid d i \<longleftrightarrow> it_open i \<and>
     it_pos i < int (SearchStrings (sortedKeys d) (it_end i)) \<and>
     it_pos i \<ge> int (SearchStrings (sortedKeys d) (it_start i))"

text \<open>A missing key reads as nil.\<close>

definition it_Value :: "inmem \<Rightarrow> inmem_iter \<Rightarrow> bytes result" where
  "it_Value d i =
     (if \<not> it_open i then Inr []
      else bindE (key_at d i) (\<lambda>k. Inr (case db_store d k of None \<Rightarrow> [] | Some v \<Rightarrow> v)))"

definition it_Close :: "inmem_iter \<Rightarrow> inmem_iter result" where
  "it_Close i = (if \<not> it_open i then Inl (ErrMsg ''already closed iterator'') else Inr (i\<lparr>it_open := False\<rparr>))"

definition it_SeekLT :: "inmem \<Rightarrow> inmem_iter \<Rightarrow> bytes \<Rightarrow> (inmem_iter \<times> bool) result" where
  "it_SeekLT d i lt =
     (if \<not> it_open i then Inr (i, False)
      else bindE (key_at d i) (\<lambda>k.
        let idx = SearchStrings (sortedKeys d) lt in
        if db_store d k \<noteq> None \<and> idx \<ge> SearchStrings (sortedKeys d) (it_start i)
        then Inr (i\<lparr>it_pos := int idx + 1\<rparr>, True) else Inr (i, False)))"

text \<open>
  The loop \<open>for iter.First(); iter.Valid(); iter.Next()\<close> of the stores, collecting the keys and
  values. The fuel bounds the number of rounds; \<open>None\<close> is a loop that has not ended by then.
\<close>

fun scan_loop :: "nat \<Rightarrow> inmem \<Rightarrow> inmem_iter \<Rightarrow> (bytes \<times> bytes) list result option" where
  "scan_loop 0 d i = None"
| "scan_loop (Suc n) d i =
     (if \<not> it_Valid d i then Some (Inr [])
      else case bindE (it_Key d i) (\<lambda>k. bindE (it_Value d i) (\<lambda>v. bindE (it_Next d i) (\<lambda>(i', _). Inr (k, v, i')))) of
        Inl e \<Rightarrow> Some (Inl e)
      | Inr (k, v, i') \<Rightarrow> map_option (\<lambda>r. bindE r (\<lambda>kvs. Inr ((k, v) # kvs))) (scan_loop n d i'))"

definition db_scan :: "inmem \<Rightarrow> bytes \<Rightarrow> bytes \<Rightarrow> (bytes \<times> bytes) list result option" where
  "db_scan d lo hi =
     (case db_NewIter d lo hi of
        Inl e \<Rightarrow> Some (Inl e)
      | Inr i \<Rightarrow> scan_loop (Suc (length (sortedKeys d))) d (fst (it_First d i)))"

text \<open>\<open>DeleteRange\<close> deletes in the database while iterating over it.\<close>

fun delete_loop :: "nat \<Rightarrow> inmem \<Rightarrow> inmem_iter \<Rightarrow> inmem result option" where
  "delete_loop 0 d i = None"
| "delete_loop (Suc n) d i =
     (if \<not> it_Valid d i then Some (Inr d)
      else case bindE (it_Key d i) (\<lambda>k. bindE (db_Delete d k) (\<lambda>d'. bindE (it_Next d' i) (\<lambda>(i', _). Inr (d', i')))) of
        Inl e \<Rightarrow> Some (Inl e)
      | Inr (d', i') \<Rightarrow> delete_loop n d' i')"

definition db_DeleteRange :: "inmem \<Rightarrow> bytes \<Rightarrow> bytes \<Rightarrow> inmem result option" where
  "db_DeleteRange d lo hi =
     (case db_NewIter d lo hi of
        Inl e \<Rightarrow> Some (Inl e)
      | Inr i \<Rightarrow> delete_loop (Suc (length (sortedKeys d))) d (fst (it_First d i)))"

section \<open>Transactions\<close>

datatype inmem_op = SetOperation bytes bytes | DeleteOperation bytes

type_synonym inmem_txn = "inmem_op list"

definition db_NewBatch :: "inmem \<Rightarrow> inmem_txn option" where
  "db_NewBatch d = (if db_open d then Some [] else None)"

fun op_key :: "inmem_op \<Rightarrow> bytes" where
  "op_key (SetOperation k v) = k"
| "op_key (DeleteOperation k) = k"

fun op_value :: "inmem_op \<Rightarrow> bytes" where
  "op_value (SetOperation k v) = v"
| "op_value (DeleteOperation k) = []"

definition txn_Get :: "inmem \<Rightarrow> inmem_txn \<Rightarrow> bytes \<Rightarrow> bytes result" where
  "txn_Get d t key =
     bindE (guardE (db_open d) closed_err) (\<lambda>_.
     case find (\<lambda>c. op_key c = key) t of
       Some c \<Rightarrow> Inr (op_value c)
     | None \<Rightarrow> (case db_store d key of None \<Rightarrow> Inl ErrNotFound | Some b \<Rightarrow> Inr b))"

definition txn_Set :: "inmem \<Rightarrow> inmem_txn \<Rightarrow> bytes \<Rightarrow> bytes \<Rightarrow> inmem_txn result" where
  "txn_Set d t key value =
     bindE (guardE (db_open d) closed_err) (\<lambda>_. Inr (t @ [SetOperation key value]))"

definition txn_Delete :: "inmem \<Rightarrow> inmem_txn \<Rightarrow> bytes \<Rightarrow> inmem_txn result" where
  "txn_Delete d t key =
     bindE (guardE (db_open d) closed_err) (\<lambda>_. Inr (t @ [DeleteOperation key]))"

fun commit_op :: "inmem \<Rightarrow> inmem_op \<Rightarrow> inmem result" where
  "commit_op d (SetOperation k v) = db_Set d k v"
| "commit_op d (DeleteOperation k) = db_Delete d k"

definition txn_Commit :: "inmem \<Rightarrow> inmem_txn \<Rightarrow> inmem result" where
  "txn_Commit d t = bindE (guardE (db_open d) closed_err) (\<lambda>_. foldE commit_op d t)"

definition txn_NewIter :: "inmem \<Rightarrow> inmem_txn \<Rightarrow> bytes \<Rightarrow> bytes \<Rightarrow> inmem_iter result" where
  "txn_NewIter d t lo hi = db_NewIter d lo hi"

definition txn_DeleteRange :: "inmem \<Rightarrow> inmem_txn \<Rightarrow> bytes \<Rightarrow> bytes \<Rightarrow> inmem_txn result option" where
  "txn_DeleteRange d t lo hi =
     map_option (\<lambda>r. bindE r (\<lambda>kvs. Inr (t @ map (\<lambda>(k, v). DeleteOperation k) kvs))) (db_scan d lo hi)"

definition txn_Abort :: "inmem_txn \<Rightarrow> unit result" where
  "txn_Abort t = Inr ()"

section \<open>Invariant\<close>

definition db_ok :: "inmem \<Rightarrow> bool" where
  "db_ok d \<longleftrightarrow> db_open d \<and> sorted (sortedKeys d) \<and> distinct (sortedKeys d) \<and>
     set (sortedKeys d) = dom (db_store d)"

lemma search_between_correct:
  assumes "sorted a" "i \<le> j" "j \<le> length a" "\<forall>k. k < i \<longrightarrow> a ! k < x" "\<forall>k. j \<le> k \<and> k < length a \<longrightarrow> x \<le> a ! k"
  shows "search_between a x i j \<le> length a \<and> (\<forall>k. k < search_between a x i j \<longrightarrow> a ! k < x) \<and>
         (\<forall>k. search_between a x i j \<le> k \<and> k < length a \<longrightarrow> x \<le> a ! k)"
  using assms
proof (induction a x i j rule: search_between.induct)
  case (1 a x i j)
  note prems = 1(3-7)
  show ?case
  proof (cases "i < j")
    case False
    then have "search_between a x i j = i" by (subst search_between.simps) simp
    moreover have "i = j" using False prems(2) by simp
    ultimately show ?thesis using prems(3-5) by simp
  next
    case True
    let ?h = "(i + j) div 2"
    have h: "i \<le> ?h" "?h < j" "?h < length a" using True prems(3) by auto
    show ?thesis
    proof (cases "x \<le> a ! ?h")
      case ge: True
      have step: "search_between a x i j = search_between a x i ?h"
        using True ge by (subst search_between.simps) (simp add: Let_def)
      have "x \<le> a ! k" if "?h \<le> k" "k < length a" for k
        by (rule order_trans [OF ge sorted_nth_mono [OF prems(1) that]])
      then have "\<forall>k. ?h \<le> k \<and> k < length a \<longrightarrow> x \<le> a ! k" by blast
      moreover have "\<not> \<not> x \<le> a ! ?h" "?h \<le> length a" using ge h by simp_all
      ultimately show ?thesis
        unfolding step using 1(2) [OF True refl _ prems(1) h(1) _ prems(4)] by blast
    next
      case lt: False
      have step: "search_between a x i j = search_between a x (?h + 1) j"
        using True lt by (subst search_between.simps) (simp add: Let_def)
      have "a ! k < x" if "k < ?h + 1" for k
      proof -
        have "a ! k \<le> a ! ?h" using that h(3) by (intro sorted_nth_mono [OF prems(1)]) auto
        also have "\<dots> < x" using lt by simp
        finally show ?thesis .
      qed
      then have "\<forall>k. k < ?h + 1 \<longrightarrow> a ! k < x" by blast
      moreover have "?h + 1 \<le> j" using h by simp
      ultimately show ?thesis
        unfolding step using 1(1) [OF True refl lt prems(1) _ prems(3) _ prems(5)] by blast
    qed
  qed
qed

lemma SearchStrings_correct:
  assumes "sorted a"
  shows "SearchStrings a x \<le> length a" "k < SearchStrings a x \<Longrightarrow> a ! k < x"
    "SearchStrings a x \<le> k \<Longrightarrow> k < length a \<Longrightarrow> x \<le> a ! k"
proof -
  have "SearchStrings a x \<le> length a \<and> (\<forall>k. k < SearchStrings a x \<longrightarrow> a ! k < x) \<and>
     (\<forall>k. SearchStrings a x \<le> k \<and> k < length a \<longrightarrow> x \<le> a ! k)"
    unfolding SearchStrings_def by (rule search_between_correct [OF assms]) auto
  then show "SearchStrings a x \<le> length a" "k < SearchStrings a x \<Longrightarrow> a ! k < x"
    "SearchStrings a x \<le> k \<Longrightarrow> k < length a \<Longrightarrow> x \<le> a ! k"
    by blast+
qed

lemma SearchStrings_take:
  assumes "sorted a"
  shows "take (SearchStrings a x) a = filter (\<lambda>k. k < x) a" "drop (SearchStrings a x) a = filter (\<lambda>k. \<not> k < x) a"
proof -
  let ?i = "SearchStrings a x"
  have lt: "\<forall>k\<in>set (take ?i a). k < x"
    using SearchStrings_correct [OF assms, where x = x] by (auto simp: in_set_conv_nth)
  have ge: "\<forall>k\<in>set (drop ?i a). \<not> k < x"
    using SearchStrings_correct(3) [OF assms, where x = x] by (auto simp: in_set_conv_nth not_less)
  have f: "filter P a = filter P (take ?i a) @ filter P (drop ?i a)" for P
    by (metis append_take_drop_id filter_append)
  show "take ?i a = filter (\<lambda>k. k < x) a" "drop ?i a = filter (\<lambda>k. \<not> k < x) a"
    unfolding f using lt ge by (simp_all add: filter_id_conv filter_empty_conv)
qed

lemma insert_key_split:
  "i \<le> length ks \<Longrightarrow> (if length ks > i then (take (i + 1) ks @ drop i ks)[i := key] else ks @ [key]) =
   take i ks @ key # drop i ks"
  by (auto simp: take_Suc_conv_app_nth list_update_append)

lemma insert_key_correct:
  assumes "sorted ks" "distinct ks" "key \<notin> set ks"
  shows "sorted (insert_key ks key) \<and> distinct (insert_key ks key) \<and> set (insert_key ks key) = insert key (set ks)"
proof -
  have eq: "insert_key ks key = filter (\<lambda>k. k < key) ks @ key # filter (\<lambda>k. \<not> k < key) ks"
    using insert_key_split [of "SearchStrings ks key" ks key] SearchStrings_correct(1) [OF assms(1)]
      SearchStrings_take [OF assms(1)] by (simp add: insert_key_def Let_def)
  have "sorted (filter P ks)" "distinct (filter P ks)" for P
    using assms(1,2) sorted_wrt_filter by auto
  then show ?thesis
    unfolding eq using assms(3) by (auto simp: sorted_append)
qed

lemma remove_key_correct:
  assumes "sorted ks" "distinct ks" "key \<in> set ks"
  shows "remove_key ks key = filter (\<lambda>k. k \<noteq> key) ks"
proof -
  let ?i = "SearchStrings ks key"
  have i: "?i < length ks" "ks ! ?i = key"
  proof -
    obtain k where k: "k < length ks" "ks ! k = key" using assms(3) by (auto simp: in_set_conv_nth)
    have "\<not> k < ?i" using SearchStrings_correct(2) [OF assms(1), of k key] k by auto
    then show il: "?i < length ks" using k by simp
    have "ks ! ?i \<le> ks ! k" using \<open>\<not> k < ?i\<close> k by (intro sorted_nth_mono [OF assms(1)]) auto
    moreover have "key \<le> ks ! ?i" using SearchStrings_correct(3) [OF assms(1), of key ?i] il by simp
    ultimately show "ks ! ?i = key" using k by order
  qed
  have r: "remove_key ks key = take ?i ks @ drop (Suc ?i) ks"
    by (auto simp: remove_key_def Let_def)
  have ks: "ks = take ?i ks @ key # drop (Suc ?i) ks"
    using i by (metis id_take_nth_drop)
  then have "distinct (take ?i ks @ key # drop (Suc ?i) ks)"
    using assms(2) by metis
  moreover have "filter (\<lambda>k. k \<noteq> key) xs = xs" if "key \<notin> set xs" for xs :: "bytes list"
    using that by (induction xs) auto
  ultimately have "filter (\<lambda>k. k \<noteq> key) (take ?i ks @ key # drop (Suc ?i) ks) = take ?i ks @ drop (Suc ?i) ks"
    by simp
  then show ?thesis using ks r by metis
qed

lemma db_Set_ok:
  assumes "db_ok d"
  shows "\<exists>d'. db_Set d k v = Inr d' \<and> db_ok d' \<and> db_store d' = (db_store d)(k \<mapsto> v)"
  using assms insert_key_correct [of "sortedKeys d" k]
  by (auto simp: db_Set_def db_ok_def guardE_def dom_def insert_absorb)

lemma db_Delete_ok:
  assumes "db_ok d"
  shows "\<exists>d'. db_Delete d k = Inr d' \<and> db_ok d' \<and> db_store d' = (db_store d)(k := None)"
  using assms remove_key_correct [of "sortedKeys d" k] sorted_wrt_filter [of "(\<le>)" "sortedKeys d"]
  by (auto simp: db_Delete_def db_ok_def guardE_def dom_def)

section \<open>Scanning\<close>

lemma SearchStrings_length:
  assumes "sorted a"
  shows "SearchStrings a x = length (filter (\<lambda>k. k < x) a)"
  using SearchStrings_take(1) [OF assms, of x] SearchStrings_correct(1) [OF assms, of x]
  by (metis length_take min_absorb2)

text \<open>The keys an iterator covers.\<close>

lemma range_keys:
  assumes "sorted a"
  shows "drop (SearchStrings a lo) (take (SearchStrings a hi) a) = filter (\<lambda>k. lo \<le> k \<and> k < hi) a"
proof -
  let ?b = "filter (\<lambda>k. k < hi) a"
  have b: "take (SearchStrings a hi) a = ?b" by (rule SearchStrings_take(1) [OF assms])
  have sb: "sorted ?b" using assms by (rule sorted_wrt_filter)
  have f: "filter (\<lambda>k. lo \<le> k \<and> k < hi) a = filter (\<lambda>k. \<not> k < lo) ?b"
    by (auto simp: not_less intro: filter_cong)
  show ?thesis
  proof (cases "lo \<le> hi")
    case True
    then have "filter (\<lambda>k. k < lo) ?b = filter (\<lambda>k. k < lo) a"
      by (auto intro!: filter_cong)
    then have "SearchStrings ?b lo = SearchStrings a lo"
      by (simp add: SearchStrings_length assms sb)
    then show ?thesis
      unfolding b f using SearchStrings_take(2) [OF sb, of lo] by simp
  next
    case False
    then have "length ?b \<le> length (filter (\<lambda>k. k < lo) a)"
      by (induction a) auto
    moreover have "filter (\<lambda>k. lo \<le> k \<and> k < hi) a = []"
      using False by (auto simp: filter_empty_conv)
    ultimately show ?thesis
      unfolding b by (simp add: SearchStrings_length assms)
  qed
qed

definition entry_of :: "inmem \<Rightarrow> bytes \<Rightarrow> bytes \<times> bytes" where
  "entry_of d k = (k, the (db_store d k))"

lemma scan_loop_correct:
  assumes ok: "db_ok d" and it: "it_open i" "it_pos i \<ge> int (SearchStrings (sortedKeys d) (it_start i))"
    and n: "SearchStrings (sortedKeys d) (it_end i) < nat (it_pos i) + n" "0 < n"
  shows "scan_loop n d i = Some (Inr (map (entry_of d)
           (drop (nat (it_pos i)) (take (SearchStrings (sortedKeys d) (it_end i)) (sortedKeys d)))))"
  using it n
proof (induction n arbitrary: i)
  case 0
  then show ?case by simp
next
  case (Suc n)
  let ?f = "SearchStrings (sortedKeys d) (it_end i)" and ?p = "nat (it_pos i)"
  have f: "?f \<le> length (sortedKeys d)"
    using ok SearchStrings_correct(1) by (auto simp: db_ok_def)
  show ?case
  proof (cases "it_pos i < int ?f")
    case False
    then have "\<not> it_Valid d i" "?f \<le> ?p" by (auto simp: it_Valid_def)
    then show ?thesis by simp
  next
    case True
    then have p: "?p < ?f" "0 \<le> it_pos i" using Suc.prems(2) by auto
    have v: "it_Valid d i" using True Suc.prems by (simp add: it_Valid_def)
    have key: "key_at d i = Inr (sortedKeys d ! ?p)"
      using p f by (simp add: key_at_def)
    obtain v where st: "db_store d (sortedKeys d ! ?p) = Some v"
    proof -
      have "sortedKeys d ! ?p \<in> dom (db_store d)"
        using ok p f by (metis db_ok_def less_le_trans nth_mem)
      then show ?thesis using that by blast
    qed
    let ?i = "i\<lparr>it_pos := it_pos i + 1\<rparr>"
    have "scan_loop n d ?i = Some (Inr (map (entry_of d) (drop (Suc ?p) (take ?f (sortedKeys d)))))"
    proof -
      have "nat (it_pos ?i) = Suc ?p" using p by simp
      moreover have "0 < n" "?f < Suc ?p + n" using Suc.prems p by auto
      ultimately show ?thesis
        using Suc.IH [of ?i] Suc.prems(1,2) by simp
    qed
    moreover have "drop ?p (take ?f (sortedKeys d)) = sortedKeys d ! ?p # drop (Suc ?p) (take ?f (sortedKeys d))"
      using p f by (metis Cons_nth_drop_Suc length_take min_absorb2 nth_take)
    ultimately show ?thesis
      using v key st Suc.prems(1) True
      by (simp add: it_Key_def it_Value_def it_Next_def entry_of_def)
  qed
qed

lemma db_scan_correct:
  assumes "db_ok d"
  shows "db_scan d lo hi =
    Some (Inr (map (entry_of d) (filter (\<lambda>k. lo \<le> k \<and> k < hi) (sortedKeys d))))"
proof -
  let ?s = "SearchStrings (sortedKeys d) lo" and ?f = "SearchStrings (sortedKeys d) hi"
  have srt: "sorted (sortedKeys d)" and op: "db_open d" using assms by (auto simp: db_ok_def)
  have f: "?f \<le> length (sortedKeys d)" by (rule SearchStrings_correct(1) [OF srt])
  let ?i = "\<lparr>it_start = lo, it_end = hi, it_pos = -1, it_open = True\<rparr>"
  have new: "db_NewIter d lo hi = Inr ?i" by (simp add: db_NewIter_def op guardE_def)
  show ?thesis
  proof (cases "?s < ?f")
    case True
    then have "scan_loop (Suc (length (sortedKeys d))) d (?i\<lparr>it_pos := int ?s\<rparr>) =
      Some (Inr (map (entry_of d) (drop ?s (take ?f (sortedKeys d)))))"
      using scan_loop_correct [OF assms, of "?i\<lparr>it_pos := int ?s\<rparr>" "Suc (length (sortedKeys d))"] f by simp
    then show ?thesis
      using True new range_keys [OF srt] by (simp add: db_scan_def it_First_def del: scan_loop.simps)
  next
    case False
    then have "filter (\<lambda>k. lo \<le> k \<and> k < hi) (sortedKeys d) = []"
      using range_keys [OF srt, of lo hi] by simp
    moreover have "\<not> it_Valid d ?i" by (simp add: it_Valid_def)
    ultimately show ?thesis
      using False new by (simp add: db_scan_def it_First_def)
  qed
qed

section \<open>Interface\<close>

definition inmem_ops :: "(inmem, inmem_txn) kvdb_ops" where
  "inmem_ops = \<lparr>kv_Get = db_Get, kv_Delete = db_Delete, kv_DeleteRange = db_DeleteRange, kv_Scan = db_scan,
     kv_NewBatch = db_NewBatch, tx_Get = txn_Get, tx_Set = txn_Set, tx_Delete = txn_Delete, tx_Commit = txn_Commit\<rparr>"

fun op_change :: "inmem_op \<Rightarrow> bytes \<times> bytes option" where
  "op_change (SetOperation k v) = (k, Some v)"
| "op_change (DeleteOperation k) = (k, None)"

lemma commit_ops_ok:
  assumes "db_ok d"
  shows "\<exists>d'. foldE commit_op d t = Inr d' \<and> db_ok d' \<and>
    db_store d' = apply_changes (map op_change t) (db_store d)"
  using assms
proof (induction t arbitrary: d)
  case Nil
  then show ?case by simp
next
  case (Cons p t)
  obtain d1 where d1: "commit_op d p = Inr d1" "db_ok d1"
    "db_store d1 = (db_store d)(fst (op_change p) := snd (op_change p))"
    using db_Set_ok [OF Cons.prems] db_Delete_ok [OF Cons.prems] by (cases p) force+
  obtain d2 where "foldE commit_op d1 t = Inr d2" "db_ok d2"
    "db_store d2 = apply_changes (map op_change t) (db_store d1)"
    using Cons.IH [OF d1(2)] by blast
  moreover have "apply_changes (map op_change (p # t)) (db_store d) = apply_changes (map op_change t) (db_store d1)"
    using d1(3) by (cases "op_change p") simp
  ultimately show ?case using d1(1) by simp
qed

interpretation imdb: kvdb inmem_ops db_ok db_store "map op_change"
proof
  fix d :: inmem and key :: bytes and lo hi v :: bytes and t :: inmem_txn
  assume ok: "db_ok d"
  then have op: "db_open d" by (simp add: db_ok_def)
  show "kv_Get inmem_ops d key = (case db_store d key of None \<Rightarrow> Inl ErrNotFound | Some v \<Rightarrow> Inr v)"
    by (simp add: inmem_ops_def db_Get_def op guardE_def)
  let ?ks = "filter (\<lambda>k. lo \<le> k \<and> k < hi) (sortedKeys d)"
  have "range_entries (db_store d) lo hi (map (entry_of d) ?ks)"
    using ok sorted_wrt_filter [of "(\<le>)" "sortedKeys d"]
    by (auto simp: range_entries_def db_ok_def entry_of_def comp_def image_iff)
  then show "\<exists>kvs. kv_Scan inmem_ops d lo hi = Some (Inr kvs) \<and> range_entries (db_store d) lo hi kvs"
    using db_scan_correct [OF ok] by (auto simp: inmem_ops_def)
  show "\<exists>d'. kv_Delete inmem_ops d key = Inr d' \<and> db_ok d' \<and> db_store d' = (db_store d)(key := None)"
    using db_Delete_ok [OF ok] by (simp add: inmem_ops_def)
  show "\<exists>t. kv_NewBatch inmem_ops d = Some t \<and> map op_change t = []"
    by (simp add: inmem_ops_def db_NewBatch_def op)
  show "\<exists>t'. tx_Set inmem_ops d t key v = Inr t' \<and> map op_change t' = map op_change t @ [(key, Some v)]"
    "\<exists>t'. tx_Delete inmem_ops d t key = Inr t' \<and> map op_change t' = map op_change t @ [(key, None)]"
    by (simp_all add: inmem_ops_def txn_Set_def txn_Delete_def op guardE_def)
  show "\<exists>d'. tx_Commit inmem_ops d t = Inr d' \<and> db_ok d' \<and>
      db_store d' = apply_changes (map op_change t) (db_store d)"
    using commit_ops_ok [OF ok, of t] by (simp add: inmem_ops_def txn_Commit_def op guardE_def)
qed

section \<open>Properties\<close>

lemma db_ok_New: "db_ok NewInMemKVDB"
  by (simp add: db_ok_def NewInMemKVDB_def)

lemma commit_all_ok:
  assumes "db_ok d"
  shows "\<exists>d'. foldE txn_Commit d ts = Inr d' \<and> db_ok d' \<and>
    db_store d' = apply_changes (concat (map (map op_change) ts)) (db_store d)"
  using assms
proof (induction ts arbitrary: d)
  case (Cons t ts)
  obtain d1 where d1: "txn_Commit d t = Inr d1" "db_ok d1"
    "db_store d1 = apply_changes (map op_change t) (db_store d)"
    using imdb.txn_Commit [OF Cons.prems, of t] by (auto simp: inmem_ops_def)
  with Cons.IH [OF d1(2)] show ?case by auto
qed simp

text \<open>
  C24: the in-memory database refines a map. After any sequence of committed transactions on a
  new database, \<open>Get\<close> of every key returns what the last change to that key wrote (not found
  if that was a deletion, or there was none), and the loop over an iterator ends and visits
  exactly the stored keys from the lower bound up to, without, the upper bound, once each and
  in ascending order, with their values.
\<close>

theorem inmem_refines_map:
  "\<exists>d kvs. foldE txn_Commit NewInMemKVDB ts = Inr d \<and>
     (\<forall>key. db_Get d key =
        (case apply_changes (concat (map (map op_change) ts)) Map.empty key of
           None \<Rightarrow> Inl ErrNotFound | Some v \<Rightarrow> Inr v)) \<and>
     db_scan d lo hi = Some (Inr kvs) \<and>
     range_entries (apply_changes (concat (map (map op_change) ts)) Map.empty) lo hi kvs"
proof -
  obtain d where d: "foldE txn_Commit NewInMemKVDB ts = Inr d" "db_ok d"
    "db_store d = apply_changes (concat (map (map op_change) ts)) Map.empty"
    using commit_all_ok [OF db_ok_New, of ts] by (auto simp: NewInMemKVDB_def)
  obtain kvs where "db_scan d lo hi = Some (Inr kvs)" "range_entries (db_store d) lo hi kvs"
    using imdb.Scan [OF d(2), of lo hi] by (auto simp: inmem_ops_def)
  moreover have "db_Get d key = (case db_store d key of None \<Rightarrow> Inl ErrNotFound | Some v \<Rightarrow> Inr v)" for key
    using imdb.Get [OF d(2), of key] by (simp add: inmem_ops_def)
  ultimately show ?thesis using d(1,3) by auto
qed

text \<open>
  Inside a transaction a read returns the first change of the key, not the last, and a key the
  transaction has deleted reads as present with an empty value.
\<close>

theorem txn_reads_first_change:
  "db_open d \<Longrightarrow> txn_Get d [SetOperation k v, SetOperation k w] k = Inr v"
  "db_open d \<Longrightarrow> txn_Get d [DeleteOperation k] k = Inr []"
  by (simp_all add: txn_Get_def guardE_def)

text \<open>
  \<open>DeleteRange\<close> on the database steps over the key that moves into the place of a deleted one,
  and panics after deleting the last key of the database.
\<close>

definition db_with :: "bytes list \<Rightarrow> inmem" where
  "db_with ks = \<lparr>db_open = True, sortedKeys = ks, db_store = (\<lambda>k. if k \<in> set ks then Some [] else None)\<rparr>"

theorem delete_range_skips:
  "map_option (map_sum id sortedKeys) (db_DeleteRange (db_with [[1], [2], [9]]) [0] [5]) =
     Some (Inr [[2], [9]])"
  by code_simp

theorem delete_range_panics:
  "map_option (map_sum id sortedKeys) (db_DeleteRange (db_with [[1]]) [0] [5]) = Some (Inl Panic)"
  by code_simp

text \<open>
  \<open>Prev\<close> never returns to the first key of the range, and \<open>SeekLT\<close> stops after the bound, not
  before it.
\<close>

theorem prev_misses_first:
  "it_Prev (db_with [[1], [2]]) \<lparr>it_start = [0], it_end = [5], it_pos = 1, it_open = True\<rparr> =
   Inr (\<lparr>it_start = [0], it_end = [5], it_pos = 1, it_open = True\<rparr>, False)"
  by code_simp

theorem seeklt_overshoots:
  "bindE (it_SeekLT (db_with [[1], [2], [3]]) \<lparr>it_start = [0], it_end = [5], it_pos = 0, it_open = True\<rparr> [2])
     (\<lambda>(i, _). it_Key (db_with [[1], [2], [3]]) i) = Inr [3]"
  by code_simp

end
