(* ===== verification/StoreKeys.thy ===== *)
theory StoreKeys
  imports Prelude
begin

text \<open>
  The keys the coin store and the clock store write under (\<open>node/store/coin.go\<close> and
  \<open>node/store/clock.go\<close>, with \<open>rightAlign\<close> of \<open>node/store/pebble.go\<close>), and that no two of them
  clash.
\<close>

section \<open>Coin store keys\<close>

definition COIN :: byte where "COIN = 7"
definition PROOF :: byte where "PROOF = 8"
definition COIN_BY_ADDRESS :: byte where "COIN_BY_ADDRESS = 0"
definition COIN_BY_OWNER :: byte where "COIN_BY_OWNER = 1"
definition MIGRATION :: byte where "MIGRATION = 2"
definition GENESIS :: byte where "GENESIS = 254"
definition LATEST_EXECUTION :: byte where "LATEST_EXECUTION = 255"

lemmas coin_prefixes = COIN_def PROOF_def COIN_BY_ADDRESS_def COIN_BY_OWNER_def MIGRATION_def
  GENESIS_def LATEST_EXECUTION_def

definition coinKey :: "bytes \<Rightarrow> bytes" where
  "coinKey address = [COIN, COIN_BY_ADDRESS] @ address"

definition coinByOwnerKey :: "bytes \<Rightarrow> bytes \<Rightarrow> bytes" where
  "coinByOwnerKey owner address = [COIN, COIN_BY_OWNER] @ owner @ address"

definition proofKey :: "bytes \<Rightarrow> bytes" where
  "proofKey address = [PROOF, COIN_BY_ADDRESS] @ address"

definition proofByOwnerKey :: "bytes \<Rightarrow> bytes \<Rightarrow> bytes" where
  "proofByOwnerKey owner address = [PROOF, COIN_BY_OWNER] @ owner @ address"

definition latestExecutionKey :: bytes where
  "latestExecutionKey = [COIN, LATEST_EXECUTION]"

definition migrationKey :: bytes where
  "migrationKey = [COIN, MIGRATION]"

definition genesisSeedKey :: bytes where
  "genesisSeedKey = [COIN, GENESIS]"

lemmas coin_key_defs = coinKey_def coinByOwnerKey_def proofKey_def proofByOwnerKey_def
  latestExecutionKey_def migrationKey_def genesisSeedKey_def

section \<open>Clock store keys\<close>

definition rightAlign :: "bytes \<Rightarrow> nat \<Rightarrow> bytes" where
  "rightAlign data sz =
     (let l = length data in
      if l = sz then data
      else if l > sz then drop (l - sz) data
      else replicate (sz - l) 0 @ data)"

definition be_put_uint16 :: "16 word \<Rightarrow> bytes" where
  "be_put_uint16 w = be_of_nat 2 (unat w)"

definition CLOCK_FRAME :: byte where "CLOCK_FRAME = 0"
definition CLOCK_COMPACTION_DATA :: byte where "CLOCK_COMPACTION_DATA = 5"

definition clockFrameKey :: "bytes \<Rightarrow> u64 \<Rightarrow> byte \<Rightarrow> bytes" where
  "clockFrameKey flt frameNumber frameType = [CLOCK_FRAME, frameType] @ be_put_uint64 frameNumber @ flt"

definition clockMasterFrameKey :: "bytes \<Rightarrow> u64 \<Rightarrow> bytes" where
  "clockMasterFrameKey flt frameNumber = clockFrameKey flt frameNumber 0x00"

definition extractFrameNumberAndFilterFromMasterFrameKey :: "bytes \<Rightarrow> (u64 \<times> bytes) result" where
  "extractFrameNumberAndFilterFromMasterFrameKey key =
     (if length key < 11 then Inl (ErrMsg ''invalid data'')
      else bindE (be_uint64 (take 8 (drop 2 key))) (\<lambda>n. Inr (n, drop 10 key)))"

definition clockDataFrameKey :: "bytes \<Rightarrow> u64 \<Rightarrow> bytes" where
  "clockDataFrameKey flt frameNumber = clockFrameKey flt frameNumber 0x01"

definition clockLatestIndex :: "bytes \<Rightarrow> byte \<Rightarrow> bytes" where
  "clockLatestIndex flt frameType = [CLOCK_FRAME, frameType] @ flt"

definition clockMasterLatestIndex :: "bytes \<Rightarrow> bytes" where
  "clockMasterLatestIndex flt = clockLatestIndex flt 0x20"

definition clockDataLatestIndex :: "bytes \<Rightarrow> bytes" where
  "clockDataLatestIndex flt = clockLatestIndex flt 0x21"

definition clockDataCandidateLatestIndex :: "bytes \<Rightarrow> bytes" where
  "clockDataCandidateLatestIndex flt = clockLatestIndex flt 0x22"

definition clockEarliestIndex :: "bytes \<Rightarrow> byte \<Rightarrow> bytes" where
  "clockEarliestIndex flt frameType = [CLOCK_FRAME, frameType] @ flt"

definition clockMasterEarliestIndex :: "bytes \<Rightarrow> bytes" where
  "clockMasterEarliestIndex flt = clockEarliestIndex flt 0x10"

definition clockDataEarliestIndex :: "bytes \<Rightarrow> bytes" where
  "clockDataEarliestIndex flt = clockEarliestIndex flt 0x11"

definition clockParentIndexKey :: "bytes \<Rightarrow> u64 \<Rightarrow> bytes \<Rightarrow> byte \<Rightarrow> bytes" where
  "clockParentIndexKey flt frameNumber selector frameType =
     [CLOCK_FRAME, frameType] @ be_put_uint64 frameNumber @ flt @ rightAlign selector 32"

definition clockDataParentIndexKey :: "bytes \<Rightarrow> u64 \<Rightarrow> bytes \<Rightarrow> bytes" where
  "clockDataParentIndexKey flt frameNumber selector =
     clockParentIndexKey flt frameNumber (rightAlign selector 32) 0x31"

definition clockDataCandidateFrameKey :: "bytes \<Rightarrow> u64 \<Rightarrow> bytes \<Rightarrow> bytes \<Rightarrow> bytes" where
  "clockDataCandidateFrameKey flt frameNumber parent distance =
     [CLOCK_FRAME, 0x02] @ be_put_uint64 frameNumber @ flt @ rightAlign parent 32 @ rightAlign distance 32"

definition clockProverTrieKey :: "bytes \<Rightarrow> 16 word \<Rightarrow> u64 \<Rightarrow> bytes" where
  "clockProverTrieKey flt ring frameNumber =
     [CLOCK_FRAME, 0x03] @ be_put_uint16 ring @ be_put_uint64 frameNumber @ flt"

definition clockDataTotalDistanceKey :: "bytes \<Rightarrow> u64 \<Rightarrow> bytes \<Rightarrow> bytes" where
  "clockDataTotalDistanceKey flt frameNumber selector =
     [CLOCK_FRAME, 0x04] @ be_put_uint64 frameNumber @ flt @ rightAlign selector 32"

definition clockDataSeniorityKey :: "bytes \<Rightarrow> bytes" where
  "clockDataSeniorityKey flt = [CLOCK_FRAME, 0x06] @ flt"

definition clockDataStateTreeKey :: "bytes \<Rightarrow> bytes" where
  "clockDataStateTreeKey flt = [CLOCK_FRAME, 0x07] @ flt"

lemmas clock_key_defs = clockFrameKey_def clockMasterFrameKey_def clockDataFrameKey_def clockLatestIndex_def
  clockMasterLatestIndex_def clockDataLatestIndex_def clockDataCandidateLatestIndex_def clockEarliestIndex_def
  clockMasterEarliestIndex_def clockDataEarliestIndex_def clockParentIndexKey_def clockDataParentIndexKey_def
  clockDataCandidateFrameKey_def clockProverTrieKey_def clockDataTotalDistanceKey_def clockDataSeniorityKey_def
  clockDataStateTreeKey_def CLOCK_FRAME_def

section \<open>No clashes\<close>

text \<open>Every key of the two stores, with the data it is made of.\<close>

datatype store_key =
    KCoin bytes | KCoinByOwner bytes bytes | KProof bytes | KProofByOwner bytes bytes
  | KLatestExecution | KMigration | KGenesisSeed
  | KMasterFrame bytes u64 | KDataFrame bytes u64
  | KMasterLatest bytes | KDataLatest bytes | KCandidateLatest bytes
  | KMasterEarliest bytes | KDataEarliest bytes
  | KParent bytes u64 bytes | KCandidate bytes u64 bytes bytes
  | KProverTrie bytes "16 word" u64 | KDistance bytes u64 bytes
  | KSeniority bytes | KStateTree bytes | KCompaction

fun encode_key :: "store_key \<Rightarrow> bytes" where
  "encode_key (KCoin a) = coinKey a"
| "encode_key (KCoinByOwner w a) = coinByOwnerKey w a"
| "encode_key (KProof a) = proofKey a"
| "encode_key (KProofByOwner w a) = proofByOwnerKey w a"
| "encode_key KLatestExecution = latestExecutionKey"
| "encode_key KMigration = migrationKey"
| "encode_key KGenesisSeed = genesisSeedKey"
| "encode_key (KMasterFrame f n) = clockMasterFrameKey f n"
| "encode_key (KDataFrame f n) = clockDataFrameKey f n"
| "encode_key (KMasterLatest f) = clockMasterLatestIndex f"
| "encode_key (KDataLatest f) = clockDataLatestIndex f"
| "encode_key (KCandidateLatest f) = clockDataCandidateLatestIndex f"
| "encode_key (KMasterEarliest f) = clockMasterEarliestIndex f"
| "encode_key (KDataEarliest f) = clockDataEarliestIndex f"
| "encode_key (KParent f n s) = clockDataParentIndexKey f n s"
| "encode_key (KCandidate f n p d) = clockDataCandidateFrameKey f n p d"
| "encode_key (KProverTrie f r n) = clockProverTrieKey f r n"
| "encode_key (KDistance f n s) = clockDataTotalDistanceKey f n s"
| "encode_key (KSeniority f) = clockDataSeniorityKey f"
| "encode_key (KStateTree f) = clockDataStateTreeKey f"
| "encode_key KCompaction = [CLOCK_COMPACTION_DATA]"

text \<open>Addresses, owners and selectors have 32 bytes; filters may have any length.\<close>

fun key_ok :: "store_key \<Rightarrow> bool" where
  "key_ok (KCoin a) \<longleftrightarrow> length a = 32"
| "key_ok (KCoinByOwner w a) \<longleftrightarrow> length w = 32 \<and> length a = 32"
| "key_ok (KProof a) \<longleftrightarrow> length a = 32"
| "key_ok (KProofByOwner w a) \<longleftrightarrow> length w = 32 \<and> length a = 32"
| "key_ok (KParent f n s) \<longleftrightarrow> length s = 32"
| "key_ok (KCandidate f n p d) \<longleftrightarrow> length p = 32 \<and> length d = 32"
| "key_ok (KDistance f n s) \<longleftrightarrow> length s = 32"
| "key_ok _ \<longleftrightarrow> True"

text \<open>The two bytes every key but the one of compaction starts with, one pair per kind of key.\<close>

fun key_tag :: "store_key \<Rightarrow> byte \<times> byte" where
  "key_tag (KCoin a) = (7, 0)"
| "key_tag (KCoinByOwner w a) = (7, 1)"
| "key_tag (KProof a) = (8, 0)"
| "key_tag (KProofByOwner w a) = (8, 1)"
| "key_tag KLatestExecution = (7, 255)"
| "key_tag KMigration = (7, 2)"
| "key_tag KGenesisSeed = (7, 254)"
| "key_tag (KMasterFrame f n) = (0, 0)"
| "key_tag (KDataFrame f n) = (0, 1)"
| "key_tag (KMasterLatest f) = (0, 0x20)"
| "key_tag (KDataLatest f) = (0, 0x21)"
| "key_tag (KCandidateLatest f) = (0, 0x22)"
| "key_tag (KMasterEarliest f) = (0, 0x10)"
| "key_tag (KDataEarliest f) = (0, 0x11)"
| "key_tag (KParent f n s) = (0, 0x31)"
| "key_tag (KCandidate f n p d) = (0, 2)"
| "key_tag (KProverTrie f r n) = (0, 3)"
| "key_tag (KDistance f n s) = (0, 4)"
| "key_tag (KSeniority f) = (0, 6)"
| "key_tag (KStateTree f) = (0, 7)"
| "key_tag KCompaction = (5, 0)"

lemma encode_key_tag: "k \<noteq> KCompaction \<Longrightarrow> \<exists>rest. encode_key k = fst (key_tag k) # snd (key_tag k) # rest"
  by (cases k) (simp_all add: coin_key_defs clock_key_defs coin_prefixes)

lemma rightAlign_32 [simp]: "length s = n \<Longrightarrow> rightAlign s n = s"
  by (simp add: rightAlign_def)

lemma length_rightAlign [simp]: "length (rightAlign s n) = n"
  by (auto simp: rightAlign_def Let_def)

lemma be_put_uint16_inject [simp]: "be_put_uint16 v = be_put_uint16 w \<longleftrightarrow> v = w"
proof -
  have "unat w < 256 ^ 2" for w :: "16 word" using unsigned_less [of w] by simp
  then show ?thesis
    by (metis be_put_uint16_def be_of_nat_inject word_unat_eq_iff)
qed

lemma length_be_put_uint16 [simp]: "length (be_put_uint16 v) = 2"
  by (simp add: be_put_uint16_def)

lemma encode_same_kind:
  "encode_key (KCoin a) = encode_key (KCoin a') \<Longrightarrow> KCoin a = KCoin a'"
  "encode_key (KProof a) = encode_key (KProof a') \<Longrightarrow> KProof a = KProof a'"
  "length w = 32 \<Longrightarrow> length w' = 32 \<Longrightarrow> encode_key (KCoinByOwner w a) = encode_key (KCoinByOwner w' a') \<Longrightarrow> KCoinByOwner w a = KCoinByOwner w' a'"
  "length w = 32 \<Longrightarrow> length w' = 32 \<Longrightarrow> encode_key (KProofByOwner w a) = encode_key (KProofByOwner w' a') \<Longrightarrow> KProofByOwner w a = KProofByOwner w' a'"
  "encode_key (KMasterFrame f n) = encode_key (KMasterFrame f' n') \<Longrightarrow> KMasterFrame f n = KMasterFrame f' n'"
  "encode_key (KDataFrame f n) = encode_key (KDataFrame f' n') \<Longrightarrow> KDataFrame f n = KDataFrame f' n'"
  "encode_key (KProverTrie f r n) = encode_key (KProverTrie f' r' n') \<Longrightarrow> KProverTrie f r n = KProverTrie f' r' n'"
  "encode_key (KMasterLatest f) = encode_key (KMasterLatest f') \<Longrightarrow> KMasterLatest f = KMasterLatest f'"
  "encode_key (KDataLatest f) = encode_key (KDataLatest f') \<Longrightarrow> KDataLatest f = KDataLatest f'"
  "encode_key (KCandidateLatest f) = encode_key (KCandidateLatest f') \<Longrightarrow> KCandidateLatest f = KCandidateLatest f'"
  "encode_key (KMasterEarliest f) = encode_key (KMasterEarliest f') \<Longrightarrow> KMasterEarliest f = KMasterEarliest f'"
  "encode_key (KDataEarliest f) = encode_key (KDataEarliest f') \<Longrightarrow> KDataEarliest f = KDataEarliest f'"
  "encode_key (KSeniority f) = encode_key (KSeniority f') \<Longrightarrow> KSeniority f = KSeniority f'"
  "encode_key (KStateTree f) = encode_key (KStateTree f') \<Longrightarrow> KStateTree f = KStateTree f'"
  by (auto simp: coin_key_defs clock_key_defs be_put_uint64_inject)

lemma encode_same_kind_selectors:
  assumes "length s = 32" "length s' = 32"
  shows "encode_key (KParent f n s) = encode_key (KParent f' n' s') \<Longrightarrow> KParent f n s = KParent f' n' s'"
    "encode_key (KDistance f n s) = encode_key (KDistance f' n' s') \<Longrightarrow> KDistance f n s = KDistance f' n' s'"
    "length d = 32 \<Longrightarrow> length d' = 32 \<Longrightarrow>
     encode_key (KCandidate f n s d) = encode_key (KCandidate f' n' s' d') \<Longrightarrow> KCandidate f n s d = KCandidate f' n' s' d'"
proof -
  have *: "x @ y = x' @ y' \<Longrightarrow> length y = length y' \<Longrightarrow> x = x' \<and> y = y'" for x y x' y' :: bytes
    by simp
  show "encode_key (KParent f n s) = encode_key (KParent f' n' s') \<Longrightarrow> KParent f n s = KParent f' n' s'"
    "encode_key (KDistance f n s) = encode_key (KDistance f' n' s') \<Longrightarrow> KDistance f n s = KDistance f' n' s'"
    using assms by (auto simp: clock_key_defs be_put_uint64_inject)
  assume d: "length d = 32" "length d' = 32" and e: "encode_key (KCandidate f n s d) = encode_key (KCandidate f' n' s' d')"
  from e have n: "n = n'" and "f @ s @ d = f' @ s' @ d'"
    using assms d by (auto simp: clock_key_defs be_put_uint64_inject)
  then have "f = f' \<and> s @ d = s' @ d'" using assms d by (intro *) auto
  then show "KCandidate f n s d = KCandidate f' n' s' d'" using n assms by simp
qed

text \<open>The tag of a key gives its kind.\<close>

lemma key_tag_kind:
  "key_tag k = key_tag (KCoin a1) \<Longrightarrow> \<exists>a'. k = KCoin a'"
  "key_tag k = key_tag (KCoinByOwner a2 b2) \<Longrightarrow> \<exists>a' b'. k = KCoinByOwner a' b'"
  "key_tag k = key_tag (KProof a3) \<Longrightarrow> \<exists>a'. k = KProof a'"
  "key_tag k = key_tag (KProofByOwner a4 b4) \<Longrightarrow> \<exists>a' b'. k = KProofByOwner a' b'"
  "key_tag k = key_tag KLatestExecution \<Longrightarrow> k = KLatestExecution"
  "key_tag k = key_tag KMigration \<Longrightarrow> k = KMigration"
  "key_tag k = key_tag KGenesisSeed \<Longrightarrow> k = KGenesisSeed"
  "key_tag k = key_tag (KMasterFrame a8 b8) \<Longrightarrow> \<exists>a' b'. k = KMasterFrame a' b'"
  "key_tag k = key_tag (KDataFrame a9 b9) \<Longrightarrow> \<exists>a' b'. k = KDataFrame a' b'"
  "key_tag k = key_tag (KMasterLatest a10) \<Longrightarrow> \<exists>a'. k = KMasterLatest a'"
  "key_tag k = key_tag (KDataLatest a11) \<Longrightarrow> \<exists>a'. k = KDataLatest a'"
  "key_tag k = key_tag (KCandidateLatest a12) \<Longrightarrow> \<exists>a'. k = KCandidateLatest a'"
  "key_tag k = key_tag (KMasterEarliest a13) \<Longrightarrow> \<exists>a'. k = KMasterEarliest a'"
  "key_tag k = key_tag (KDataEarliest a14) \<Longrightarrow> \<exists>a'. k = KDataEarliest a'"
  "key_tag k = key_tag (KParent a15 b15 c15) \<Longrightarrow> \<exists>a' b' c'. k = KParent a' b' c'"
  "key_tag k = key_tag (KCandidate a16 b16 c16 d16) \<Longrightarrow> \<exists>a' b' c' d'. k = KCandidate a' b' c' d'"
  "key_tag k = key_tag (KProverTrie a17 b17 c17) \<Longrightarrow> \<exists>a' b' c'. k = KProverTrie a' b' c'"
  "key_tag k = key_tag (KDistance a18 b18 c18) \<Longrightarrow> \<exists>a' b' c'. k = KDistance a' b' c'"
  "key_tag k = key_tag (KSeniority a19) \<Longrightarrow> \<exists>a'. k = KSeniority a'"
  "key_tag k = key_tag (KStateTree a20) \<Longrightarrow> \<exists>a'. k = KStateTree a'"
  "key_tag k = key_tag KCompaction \<Longrightarrow> k = KCompaction"
  by (cases k; simp)+

text \<open>
  C26: no two keys of the coin store and the clock store are the same bytes: the compaction key is
  one byte, other keys of different kinds differ in their first two bytes, and a key of one kind determines the filter, frame
  number, ring, addresses and selectors it was made of (addresses and selectors of 32 bytes,
  filters of any length).
\<close>

theorem store_keys_injective:
  assumes "key_ok k" "key_ok k'" "encode_key k = encode_key k'"
  shows "k = k'"
proof -
  have "length (encode_key x) = 1 \<longleftrightarrow> x = KCompaction" for x
    using encode_key_tag [of x] by (cases "x = KCompaction") (auto simp del: encode_key.simps(1-20))
  then have "k = KCompaction \<longleftrightarrow> k' = KCompaction" using assms(3) by metis
  then have tag: "key_tag k' = key_tag k"
    using encode_key_tag [of k] encode_key_tag [of k'] assms(3) by (cases "k = KCompaction") (auto simp: prod_eq_iff)
  then show ?thesis
    using assms
    by (cases k; hypsubst)
      (drule key_tag_kind, (elim exE)?, hypsubst,
       (rule refl | (rule encode_same_kind encode_same_kind_selectors; simp del: encode_key.simps)))+
qed

theorem store_keys_injective_witness:
  "let k = KCoinByOwner (replicate 32 1) (replicate 32 2); k' = KParent [1, 2, 3] 7 (replicate 32 4) in
   key_ok k \<and> key_ok k' \<and> encode_key k \<noteq> encode_key k'"
proof -
  let ?k = "KCoinByOwner (replicate 32 1) (replicate 32 2)"
  let ?k' = "KParent [1, 2, 3] 7 (replicate 32 4)"
  have ok: "key_ok ?k" "key_ok ?k'" by simp_all
  have "encode_key ?k \<noteq> encode_key ?k'"
    using store_keys_injective [OF ok] by blast
  then show ?thesis using ok by (simp add: Let_def del: encode_key.simps)
qed

text \<open>
  C31: the frame number and filter of a master frame are read back from its key, for every
  non-empty filter.
\<close>

theorem master_frame_key_roundtrip:
  assumes "flt \<noteq> []"
  shows "extractFrameNumberAndFilterFromMasterFrameKey (clockMasterFrameKey flt n) = Inr (n, flt)"
proof -
  have "length (clockMasterFrameKey flt n) \<ge> 11"
    using assms by (cases flt) (simp_all add: clock_key_defs)
  moreover have "take 8 (drop 2 (clockMasterFrameKey flt n)) = be_put_uint64 n" "drop 10 (clockMasterFrameKey flt n) = flt"
    by (simp_all add: clock_key_defs)
  ultimately show ?thesis
    using be_uint64_put [of n "[]"] by (simp add: extractFrameNumberAndFilterFromMasterFrameKey_def)
qed

theorem master_frame_key_roundtrip_witness:
  "extractFrameNumberAndFilterFromMasterFrameKey (clockMasterFrameKey [1, 2] 77) = Inr (77, [1, 2])"
  by (rule master_frame_key_roundtrip) simp

end
