(* ===== verification/CoinStore.thy ===== *)
theory CoinStore
  imports InMemKVDB StoreKeys Messages
begin

text \<open>
  \<open>node/store/coin.go\<close>: the coins and pre-coin proofs under their addresses and under their
  owners. The database is any implementation of \<open>KVDB\<close>, passed as its operations; the protobuf
  encoding of a coin and of a proof is the argument \<open>coin_codec\<close>. A transaction that failed to
  record a change is dropped.
\<close>

section \<open>Operations\<close>

record coin_codec =
  marshal_Coin :: "coin \<Rightarrow> bytes result"
  unmarshal_Coin :: "bytes \<Rightarrow> coin result"
  marshal_PreCoinProof :: "pre_coin_proof \<Rightarrow> bytes result"
  unmarshal_PreCoinProof :: "bytes \<Rightarrow> pre_coin_proof result"

definition NewTransaction :: "('d, 't) kvdb_ops \<Rightarrow> 'd \<Rightarrow> 't result" where
  "NewTransaction k d = derefE (kv_NewBatch k d)"

text \<open>The slices \<open>b[:8]\<close> and \<open>b[8:]\<close> of a stored value panic when it is shorter.\<close>

definition split_value :: "bytes \<Rightarrow> (u64 \<times> bytes) result" where
  "split_value b =
     (if length b < 8 then Inl Panic else bindE (be_uint64 (take 8 b)) (\<lambda>f. Inr (f, drop 8 b)))"

definition owner_entry :: "coin_codec \<Rightarrow> bytes \<times> bytes \<Rightarrow> (u64 \<times> bytes \<times> coin) result" where
  "owner_entry c kv =
     bindE (split_value (snd kv)) (\<lambda>(frameNumber, b).
     bindE (unmarshal_Coin c b) (\<lambda>coin.
     if length (fst kv) < 34 then Inl Panic
     else Inr (frameNumber, take 32 (drop 34 (fst kv) @ replicate 32 0), coin)))"

definition GetCoinsForOwner ::
    "('d, 't) kvdb_ops \<Rightarrow> coin_codec \<Rightarrow> 'd \<Rightarrow> bytes \<Rightarrow> (u64 list \<times> bytes list \<times> coin list) result option" where
  "GetCoinsForOwner k c d owner =
     map_option (\<lambda>r. bindE r (\<lambda>kvs. bindE (mapE (owner_entry c) kvs) (\<lambda>es.
         Inr (map fst es, map (fst \<circ> snd) es, map (snd \<circ> snd) es))))
       (kv_Scan k d (coinByOwnerKey owner (replicate 32 0x00)) (coinByOwnerKey owner (replicate 32 0xff)))"

definition owner_proof :: "coin_codec \<Rightarrow> bytes \<times> bytes \<Rightarrow> (u64 \<times> pre_coin_proof) result" where
  "owner_proof c kv =
     bindE (split_value (snd kv)) (\<lambda>(frameNumber, b).
     bindE (unmarshal_PreCoinProof c b) (\<lambda>proof. Inr (frameNumber, proof)))"

definition GetPreCoinProofsForOwner ::
    "('d, 't) kvdb_ops \<Rightarrow> coin_codec \<Rightarrow> 'd \<Rightarrow> bytes \<Rightarrow> (u64 list \<times> pre_coin_proof list) result option" where
  "GetPreCoinProofsForOwner k c d owner =
     map_option (\<lambda>r. bindE r (\<lambda>kvs. bindE (mapE (owner_proof c) kvs) (\<lambda>es. Inr (map fst es, map snd es))))
       (kv_Scan k d (proofByOwnerKey owner (replicate 32 0x00)) (proofByOwnerKey owner (replicate 32 0xff)))"

definition GetCoinByAddress ::
    "('d, 't) kvdb_ops \<Rightarrow> coin_codec \<Rightarrow> 'd \<Rightarrow> 't option \<Rightarrow> bytes \<Rightarrow> coin result" where
  "GetCoinByAddress k c d txn address =
     bindE (case txn of None \<Rightarrow> kv_Get k d (coinKey address) | Some t \<Rightarrow> tx_Get k d t (coinKey address)) (\<lambda>coinBytes.
     bindE (guardE (length coinBytes \<ge> 8) Panic) (\<lambda>_.
     unmarshal_Coin c (drop 8 coinBytes)))"

definition GetPreCoinProofByAddress ::
    "('d, 't) kvdb_ops \<Rightarrow> coin_codec \<Rightarrow> 'd \<Rightarrow> bytes \<Rightarrow> pre_coin_proof result" where
  "GetPreCoinProofByAddress k c d address =
     bindE (kv_Get k d (proofKey address)) (\<lambda>b.
     bindE (guardE (length b \<ge> 8) Panic) (\<lambda>_.
     unmarshal_PreCoinProof c (drop 8 b)))"

definition RangePreCoinProofs :: "('d, 't) kvdb_ops \<Rightarrow> 'd \<Rightarrow> (bytes \<times> bytes) list result option" where
  "RangePreCoinProofs k d = kv_Scan k d (proofKey (replicate 32 0x00)) (proofKey (replicate 32 0xff))"

definition RangeCoins :: "('d, 't) kvdb_ops \<Rightarrow> 'd \<Rightarrow> (bytes \<times> bytes) list result option" where
  "RangeCoins k d = kv_Scan k d (coinKey (replicate 32 0x00)) (coinKey (replicate 32 0xff))"

definition PutCoin ::
    "('d, 't) kvdb_ops \<Rightarrow> coin_codec \<Rightarrow> 'd \<Rightarrow> 't \<Rightarrow> u64 \<Rightarrow> bytes \<Rightarrow> coin \<Rightarrow> 't result" where
  "PutCoin k c d txn frameNumber address coin =
     bindE (marshal_Coin c coin) (\<lambda>coinBytes.
     let data = be_put_uint64 frameNumber @ coinBytes in
     bindE (derefE (GetImplicitAccount (Owner coin))) (\<lambda>acc.
     bindE (tx_Set k d txn (coinByOwnerKey (ImplicitAddress acc) address) data) (\<lambda>txn.
     tx_Set k d txn (coinKey address) data)))"

text \<open>\<open>GetAddress()\<close> of a nil account is nil.\<close>

definition owner_address :: "account_ref option \<Rightarrow> bytes" where
  "owner_address w = (case GetImplicitAccount w of None \<Rightarrow> [] | Some i \<Rightarrow> ImplicitAddress i)"

definition DeleteCoin :: "('d, 't) kvdb_ops \<Rightarrow> 'd \<Rightarrow> 't \<Rightarrow> bytes \<Rightarrow> coin \<Rightarrow> 't result" where
  "DeleteCoin k d txn address coin =
     bindE (tx_Delete k d txn (coinKey address)) (\<lambda>txn.
     tx_Delete k d txn (coinByOwnerKey (owner_address (Owner coin)) address))"

definition PutPreCoinProof ::
    "('d, 't) kvdb_ops \<Rightarrow> coin_codec \<Rightarrow> 'd \<Rightarrow> 't \<Rightarrow> u64 \<Rightarrow> bytes \<Rightarrow> pre_coin_proof \<Rightarrow> 't result" where
  "PutPreCoinProof k c d txn frameNumber address proof =
     bindE (marshal_PreCoinProof c proof) (\<lambda>proofBytes.
     let data = be_put_uint64 frameNumber @ proofBytes in
     bindE (derefE (GetImplicitAccount (ProofOwner proof))) (\<lambda>acc.
     bindE (tx_Set k d txn (proofByOwnerKey (ImplicitAddress acc) address) data) (\<lambda>txn.
     tx_Set k d txn (proofKey address) data)))"

definition DeletePreCoinProof ::
    "('d, 't) kvdb_ops \<Rightarrow> 'd \<Rightarrow> 't \<Rightarrow> bytes \<Rightarrow> pre_coin_proof \<Rightarrow> 't result" where
  "DeletePreCoinProof k d txn address proof =
     bindE (tx_Delete k d txn (proofKey address)) (\<lambda>txn.
     tx_Delete k d txn (proofByOwnerKey (owner_address (ProofOwner proof)) address))"

definition GetLatestFrameProcessed :: "('d, 't) kvdb_ops \<Rightarrow> 'd \<Rightarrow> u64 result" where
  "GetLatestFrameProcessed k d =
     (case kv_Get k d latestExecutionKey of
        Inl ErrNotFound \<Rightarrow> Inr 0
      | Inl e \<Rightarrow> Inl e
      | Inr v \<Rightarrow> be_uint64 v)"

definition SetLatestFrameProcessed :: "('d, 't) kvdb_ops \<Rightarrow> 'd \<Rightarrow> 't \<Rightarrow> u64 \<Rightarrow> 't result" where
  "SetLatestFrameProcessed k d txn frameNumber = tx_Set k d txn latestExecutionKey (be_put_uint64 frameNumber)"

section \<open>Migration\<close>

text \<open>\<open>hex.DecodeString\<close>.\<close>

definition hex_digit :: "char \<Rightarrow> nat option" where
  "hex_digit ch =
     (let n = of_char ch :: nat in
      if 48 \<le> n \<and> n \<le> 57 then Some (n - 48)
      else if 97 \<le> n \<and> n \<le> 102 then Some (n - 87)
      else if 65 \<le> n \<and> n \<le> 70 then Some (n - 55)
      else None)"

fun hex_DecodeString :: "string \<Rightarrow> bytes result" where
  "hex_DecodeString [] = Inr []"
| "hex_DecodeString [a] = Inl (ErrMsg ''odd length hex string'')"
| "hex_DecodeString (a # b # s) =
     (case (hex_digit a, hex_digit b) of
        (Some x, Some y) \<Rightarrow> bindE (hex_DecodeString s) (\<lambda>bs. Inr (of_nat (16 * x + y) # bs))
      | _ \<Rightarrow> Inl (ErrMsg ''invalid byte''))"

definition migration_version :: bytes where
  "migration_version = [0x02, 0x00, 0x01, 0x04]"

text \<open>\<open>if err != nil { panic(err) }\<close>.\<close>

definition panicE :: "'a result \<Rightarrow> 'a result" where
  "panicE m = (case m of Inl _ \<Rightarrow> Inl Panic | Inr x \<Rightarrow> Inr x)"

definition set_version :: "('d, 't) kvdb_ops \<Rightarrow> 'd \<Rightarrow> bytes \<Rightarrow> 'd result" where
  "set_version k d seed =
     bindE (NewTransaction k d) (\<lambda>txn.
     bindE (panicE (tx_Set k d txn migrationKey migration_version)) (\<lambda>txn.
     bindE (panicE (tx_Set k d txn genesisSeedKey seed)) (\<lambda>txn.
     tx_Commit k d txn)))"

definition SetMigrationVersion :: "('d, 't) kvdb_ops \<Rightarrow> 'd \<Rightarrow> string \<Rightarrow> 'd result" where
  "SetMigrationVersion k d genesisSeedHex =
     bindE (hex_DecodeString genesisSeedHex) (\<lambda>seed. set_version k d seed)"

text \<open>The ranges that \<open>internalMigrate\<close> deletes, in order.\<close>

definition migrate_ranges :: "(bytes \<times> bytes) list" where
  "migrate_ranges =
     (let z = replicate 32 0x00; f = replicate 32 0xff in
      [(coinByOwnerKey z z, coinByOwnerKey f f), (coinKey z, coinKey f),
       (proofByOwnerKey z z, proofByOwnerKey f f), (proofKey z, proofKey f)])"

fun delete_ranges :: "('d, 't) kvdb_ops \<Rightarrow> 'd \<Rightarrow> (bytes \<times> bytes) list \<Rightarrow> 'd result option" where
  "delete_ranges k d [] = Some (Inr d)"
| "delete_ranges k d ((lo, hi) # rs) =
     (case kv_DeleteRange k d lo hi of
        None \<Rightarrow> None
      | Some (Inl e) \<Rightarrow> Some (Inl Panic)
      | Some (Inr d') \<Rightarrow> delete_ranges k d' rs)"

definition internalMigrate :: "('d, 't) kvdb_ops \<Rightarrow> 'd \<Rightarrow> bytes \<Rightarrow> bytes \<Rightarrow> 'd result option" where
  "internalMigrate k d flt genesisSeed =
     map_option (\<lambda>r. bindE r (\<lambda>d.
       bindE (panicE (kv_Delete k d (clockDataEarliestIndex flt))) (\<lambda>d.
       bindE (panicE (kv_Delete k d (clockDataLatestIndex flt))) (\<lambda>d.
       set_version k d genesisSeed))))
     (delete_ranges k d migrate_ranges)"

definition Migrate :: "('d, 't) kvdb_ops \<Rightarrow> 'd \<Rightarrow> bytes \<Rightarrow> string \<Rightarrow> 'd result option" where
  "Migrate k d flt genesisSeedHex =
     (case hex_DecodeString genesisSeedHex of
        Inl e \<Rightarrow> Some (Inl e)
      | Inr seed \<Rightarrow>
     (case kv_Get k d genesisSeedKey of
        Inl ErrNotFound \<Rightarrow> internalMigrate k d flt seed
      | Inl e \<Rightarrow> Some (Inl e)
      | Inr compare \<Rightarrow>
          if compare \<noteq> seed then internalMigrate k d flt seed
          else (case kv_Get k d migrationKey of
              Inl ErrNotFound \<Rightarrow>
                Some (bindE (NewTransaction k d) (\<lambda>txn.
                      bindE (panicE (tx_Set k d txn migrationKey migration_version)) (\<lambda>txn.
                      tx_Commit k d txn)))
            | Inl e \<Rightarrow> Some (Inl e)
            | Inr status \<Rightarrow>
                if length status = 4 \<and> status > migration_version then Some (Inl Panic)
                else if length status = 3 \<or> status < migration_version then internalMigrate k d flt seed
                else Some (Inr d))))"

section \<open>Order of keys\<close>

lemma append_less_iff [simp]: "(p @ a < p @ b) \<longleftrightarrow> a < (b :: bytes)"
  by (induction p) auto

lemma append_le_iff [simp]: "(p @ a \<le> p @ b) \<longleftrightarrow> a \<le> (b :: bytes)"
  by (induction p) auto

lemma append_less_same_length:
  "length w = length v \<Longrightarrow> w @ a < v @ b \<longleftrightarrow> w < v \<or> w = v \<and> a < (b :: bytes)"
  by (induction w v rule: list_induct2) auto

lemma zeros_least: "replicate (length a) 0 \<le> (a :: bytes)"
  by (induction a) (auto simp: less_le)

lemma ones_greatest: "length a = n \<Longrightarrow> (a :: bytes) < replicate n 0xff \<longleftrightarrow> a \<noteq> replicate n 0xff"
proof (induction a arbitrary: n)
  case (Cons x a)
  have "x \<le> 0xff" using unsigned_less [of x, where 'a = nat] by (simp add: word_le_nat_alt)
  with Cons show ?case by (cases n) (auto simp: less_le)
qed simp

section \<open>The coins a database holds\<close>

text \<open>What a stored value decodes to, under an address and under an owner and an address.\<close>

definition decode_coin :: "coin_codec \<Rightarrow> bytes \<Rightarrow> (u64 \<times> coin) option" where
  "decode_coin c v = (case bindE (split_value v) (\<lambda>(f, b). bindE (unmarshal_Coin c b) (\<lambda>x. Inr (f, x))) of
       Inl _ \<Rightarrow> None | Inr x \<Rightarrow> Some x)"

definition ledger :: "coin_codec \<Rightarrow> (bytes \<rightharpoonup> bytes) \<Rightarrow> bytes \<rightharpoonup> u64 \<times> coin" where
  "ledger c m a = Option.bind (m (coinKey a)) (decode_coin c)"

definition owner_index :: "coin_codec \<Rightarrow> (bytes \<rightharpoonup> bytes) \<Rightarrow> bytes \<times> bytes \<rightharpoonup> u64 \<times> coin" where
  "owner_index c m = (\<lambda>(w, a). if length w = 32 then Option.bind (m (COIN # COIN_BY_OWNER # w @ a)) (decode_coin c) else None)"

text \<open>
  The invariant: values under addresses decode to coins with a 32-byte owner, and values under
  owners decode to coins of that owner.
\<close>

definition coins_ok :: "coin_codec \<Rightarrow> (bytes \<rightharpoonup> bytes) \<Rightarrow> bool" where
  "coins_ok c m \<longleftrightarrow>
     (\<forall>a v. m (coinKey a) = Some v \<longrightarrow>
        (\<exists>f x. decode_coin c v = Some (f, x) \<and> length (owner_address (Owner x)) = 32)) \<and>
     (\<forall>r v. m (COIN # COIN_BY_OWNER # r) = Some v \<longrightarrow>
        (\<exists>a f x. r = owner_address (Owner x) @ a \<and> length a = 32 \<and> length (owner_address (Owner x)) = 32 \<and>
           decode_coin c v = Some (f, x)))"

text \<open>What the code relies on of the protobuf encoding.\<close>

definition codec_ok :: "coin_codec \<Rightarrow> bool" where
  "codec_ok c \<longleftrightarrow> (\<forall>x. \<exists>b. marshal_Coin c x = Inr b \<and> unmarshal_Coin c b = Inr x)"

lemma split_value_put [simp]: "split_value (be_put_uint64 f @ b) = Inr (f, b)"
  using be_uint64_put [of f "[]"] by (simp add: split_value_def)

lemma decode_coin_put: "unmarshal_Coin c b = Inr x \<Longrightarrow> decode_coin c (be_put_uint64 f @ b) = Some (f, x)"
  by (simp add: decode_coin_def)

lemma decode_coinE:
  assumes "decode_coin c v = Some (f, x)"
  shows "split_value v = Inr (f, drop 8 v) \<and> unmarshal_Coin c (drop 8 v) = Inr x \<and> length v \<ge> 8"
  using assms
  by (auto simp: decode_coin_def split_value_def bindE_def split: sum.splits prod.splits if_splits)

lemma key_simps [simp]:
  "coinKey a = coinKey b \<longleftrightarrow> a = b"
  "coinKey a \<noteq> COIN # COIN_BY_OWNER # r" "COIN # COIN_BY_OWNER # r \<noteq> coinKey a"
  "coinByOwnerKey w a = COIN # COIN_BY_OWNER # w @ a"
  "proofKey a \<noteq> coinKey b" "proofKey a \<noteq> COIN # COIN_BY_OWNER # r"
  "latestExecutionKey \<noteq> coinKey a" "latestExecutionKey \<noteq> COIN # COIN_BY_OWNER # r"
  by (auto simp: coin_key_defs coin_prefixes)

definition put_changes :: "bytes \<Rightarrow> bytes \<Rightarrow> bytes option \<Rightarrow> (bytes \<rightharpoonup> bytes) \<Rightarrow> (bytes \<rightharpoonup> bytes)" where
  "put_changes w a v m = m(COIN # COIN_BY_OWNER # w @ a := v, coinKey a := v)"

lemma ledger_put_changes:
  "ledger c (put_changes w a v m) = (ledger c m)(a := Option.bind v (decode_coin c))"
  by (auto simp: ledger_def put_changes_def fun_eq_iff)

lemma owner_index_put_changes:
  assumes "length w = 32"
  shows "owner_index c (put_changes w a v m) = (owner_index c m)((w, a) := Option.bind v (decode_coin c))"
  using assms by (auto simp: owner_index_def put_changes_def fun_eq_iff)

lemma coins_ok_put:
  assumes "coins_ok c m" "length a = 32" "decode_coin c v = Some (f, x)" "length (owner_address (Owner x)) = 32"
  shows "coins_ok c (put_changes (owner_address (Owner x)) a (Some v) m)"
  using assms by (auto simp: coins_ok_def put_changes_def)

lemma coins_ok_delete:
  assumes "coins_ok c m"
  shows "coins_ok c (put_changes w a None m)"
  using assms by (auto simp: coins_ok_def put_changes_def)

section \<open>Listing by owner\<close>

lemma mapE_map: "(\<And>x. x \<in> set xs \<Longrightarrow> f x = Inr (g x)) \<Longrightarrow> mapE f xs = Inr (map g xs)"
  by (induction xs) simp_all

text \<open>Keys between the two bounds of an owner are entries of that owner.\<close>

lemma owner_range:
  fixes w :: bytes
  assumes "COIN # COIN_BY_OWNER # w @ replicate 32 0 \<le> k" "k < COIN # COIN_BY_OWNER # w @ replicate 32 0xff"
  shows "\<exists>r. k = COIN # COIN_BY_OWNER # r \<and> w @ replicate 32 0 \<le> r \<and> r < w @ replicate 32 0xff"
proof -
  obtain x y r where k: "k = x # y # r"
    using assms by (cases k; cases "tl k") (auto simp: coin_prefixes)
  with assms show ?thesis by (auto simp: coin_prefixes)
qed

lemma owner_range_address:
  fixes w v a :: bytes
  assumes "length w = 32" "length v = 32" "length a = 32"
  shows "w @ replicate 32 0 \<le> v @ a \<and> v @ a < w @ replicate 32 0xff \<longleftrightarrow> v = w \<and> a \<noteq> replicate 32 0xff"
proof -
  have "\<not> v @ a < w @ replicate 32 0 \<longleftrightarrow> \<not> v < w"
    using assms zeros_least [of a] append_less_same_length [of v w a "replicate 32 0"] by (auto simp: not_less)
  moreover have "v @ a < w @ replicate 32 0xff \<longleftrightarrow> v < w \<or> v = w \<and> a \<noteq> replicate 32 0xff"
    using assms append_less_same_length [of v w a] ones_greatest [OF assms(3)] by simp
  ultimately show ?thesis by (auto simp: linorder_not_less [symmetric])
qed

text \<open>The entries of an owner in a map that satisfies the invariant.\<close>

lemma owner_entries:
  assumes ok: "coins_ok c m" and w: "length w = 32"
    and r: "range_entries m (coinByOwnerKey w (replicate 32 0)) (coinByOwnerKey w (replicate 32 0xff)) kvs"
  shows "(k, v) \<in> set kvs \<longleftrightarrow> (\<exists>a. k = coinByOwnerKey w a \<and> length a = 32 \<and> m k = Some v \<and> a \<noteq> replicate 32 0xff)"
    (is "_ \<longleftrightarrow> ?R")
proof -
  let ?in = "\<lambda>k. coinByOwnerKey w (replicate 32 0) \<le> k \<and> k < coinByOwnerKey w (replicate 32 0xff)"
  have kv: "(k, v) \<in> set kvs \<longleftrightarrow> m k = Some v \<and> ?in k" using r by (auto simp: range_entries_def)
  show ?thesis
  proof
    assume "(k, v) \<in> set kvs"
    then have mk: "m k = Some v" and "?in k" using kv by auto
    then obtain r where k: "k = COIN # COIN_BY_OWNER # r" "w @ replicate 32 0 \<le> r" "r < w @ replicate 32 0xff"
      using owner_range [of w k] by auto
    then obtain a u where a: "r = u @ a" "length a = 32" "length u = 32"
      using ok mk unfolding coins_ok_def by blast
    then have "u = w \<and> a \<noteq> replicate 32 0xff" using k owner_range_address [OF w, of u a] by simp
    then show ?R using a k mk by auto
  next
    assume ?R
    then obtain a where a: "k = coinByOwnerKey w a" "length a = 32" "m k = Some v" "a \<noteq> replicate 32 0xff" by blast
    then have "?in k" using owner_range_address [OF w w a(2)] by simp
    then show "(k, v) \<in> set kvs" using kv a(3) by simp
  qed
qed

lemma owner_entry_decode:
  assumes "decode_coin c v = Some (f, x)" "length w = 32" "length a = 32"
  shows "owner_entry c (coinByOwnerKey w a, v) = Inr (f, a, x)"
  using decode_coinE [OF assms(1)] assms by (simp add: owner_entry_def)

text \<open>
  The list of an owner: the entries of the index under that owner, except at the greatest address,
  in strictly ascending order of address.
\<close>

definition owner_listing :: "(bytes \<times> bytes \<rightharpoonup> u64 \<times> coin) \<Rightarrow> bytes \<Rightarrow> (u64 \<times> bytes \<times> coin) list \<Rightarrow> bool" where
  "owner_listing j w es \<longleftrightarrow> sorted_wrt (<) (map (fst \<circ> snd) es) \<and>
     (\<forall>f a x. (f, a, x) \<in> set es \<longleftrightarrow> j (w, a) = Some (f, x) \<and> a \<noteq> replicate 32 0xff)"

lemma owner_entries_listing:
  assumes ok: "coins_ok c m" and w: "length w = 32"
    and r: "range_entries m (coinByOwnerKey w (replicate 32 0)) (coinByOwnerKey w (replicate 32 0xff)) kvs"
  shows "\<exists>es. mapE (owner_entry c) kvs = Inr es \<and> owner_listing (owner_index c m) w es"
proof -
  define e where "e = (\<lambda>(k :: bytes, v). case decode_coin c v of Some (f, x) \<Rightarrow> (f, drop 34 k, x))"
  note oe = owner_entries [OF ok w r]
  have one: "owner_entry c (k, v) = Inr (e (k, v)) \<and> k = coinByOwnerKey w (fst (snd (e (k, v)))) \<and>
      (\<exists>f a x. k = coinByOwnerKey w a \<and> e (k, v) = (f, a, x) \<and> decode_coin c v = Some (f, x))"
    if kvs: "(k, v) \<in> set kvs" for k v
  proof -
    obtain a where a: "k = coinByOwnerKey w a" "length a = 32" "m k = Some v" using oe kvs by blast
    obtain f x where x: "decode_coin c v = Some (f, x)" using ok a(1,3) by (fastforce simp: coins_ok_def)
    have "e (k, v) = (f, a, x)" using x w a(1) by (simp add: e_def)
    then show ?thesis using a x owner_entry_decode [OF x w a(2)] by auto
  qed
  have m: "mapE (owner_entry c) kvs = Inr (map e kvs)"
    by (rule mapE_map) (use one in force)
  have "sorted_wrt (<) (map fst kvs)"
    using r by (simp add: range_entries_def strict_sorted_iff)
  then have "sorted_wrt (\<lambda>x y. fst x < fst y) kvs" by (simp add: sorted_wrt_map)
  then have "sorted_wrt (\<lambda>x y. fst (snd (e x)) < fst (snd (e y))) kvs"
  proof (rule sorted_wrt_mono_rel [rotated])
    fix x y assume "x \<in> set kvs" "y \<in> set kvs" "fst x < fst y"
    moreover have "fst x = coinByOwnerKey w (fst (snd (e x)))" "fst y = coinByOwnerKey w (fst (snd (e y)))"
      using calculation(1,2) one by (metis prod.collapse)+
    ultimately have "coinByOwnerKey w (fst (snd (e x))) < coinByOwnerKey w (fst (snd (e y)))"
      by metis
    then show "fst (snd (e x)) < fst (snd (e y))" by simp
  qed
  then have srt: "sorted_wrt (<) (map (fst \<circ> snd) (map e kvs))" by (simp add: sorted_wrt_map)
  have "(f, a, x) \<in> set (map e kvs) \<longleftrightarrow> owner_index c m (w, a) = Some (f, x) \<and> a \<noteq> replicate 32 0xff" for f a x
  proof
    assume "(f, a, x) \<in> set (map e kvs)"
    then obtain k v where kv: "(k, v) \<in> set kvs" "e (k, v) = (f, a, x)" by auto
    then have "k = coinByOwnerKey w a" "decode_coin c v = Some (f, x)" using one [OF kv(1)] by auto
    then show "owner_index c m (w, a) = Some (f, x) \<and> a \<noteq> replicate 32 0xff"
      using oe [of k v] kv(1) w by (auto simp: owner_index_def)
  next
    assume l: "owner_index c m (w, a) = Some (f, x) \<and> a \<noteq> replicate 32 0xff"
    then obtain v where v: "m (coinByOwnerKey w a) = Some v" "decode_coin c v = Some (f, x)"
      using w by (auto simp: owner_index_def bind_eq_Some_conv)
    have "length a = 32" using ok v(1) w by (fastforce simp: coins_ok_def append_eq_append_conv)
    then have "(coinByOwnerKey w a, v) \<in> set kvs" using oe l v by blast
    moreover have "e (coinByOwnerKey w a, v) = (f, a, x)" using v w by (simp add: e_def)
    ultimately show "(f, a, x) \<in> set (map e kvs)" by (metis image_eqI set_map)
  qed
  with m srt show ?thesis unfolding owner_listing_def by blast
qed

section \<open>The store over a key-value database\<close>

datatype coin_op = OpPutCoin u64 bytes coin | OpDeleteCoin bytes

text \<open>One operation in a transaction of its own; a deletion reads the coin first, as the engine does.\<close>

fun run_coin_op :: "('d, 't) kvdb_ops \<Rightarrow> coin_codec \<Rightarrow> 'd \<Rightarrow> coin_op \<Rightarrow> 'd result" where
  "run_coin_op k c d (OpPutCoin f a x) =
     bindE (NewTransaction k d) (\<lambda>t. bindE (PutCoin k c d t f a x) (\<lambda>t. tx_Commit k d t))"
| "run_coin_op k c d (OpDeleteCoin a) =
     bindE (GetCoinByAddress k c d None a) (\<lambda>x.
     bindE (NewTransaction k d) (\<lambda>t. bindE (DeleteCoin k d t a x) (\<lambda>t. tx_Commit k d t)))"

text \<open>
  The specification: a map from addresses to coins, and one from owners and addresses. Putting a
  coin changes one entry of each; deleting one removes the entry of its owner only.
\<close>

type_synonym coin_book = "(bytes \<rightharpoonup> u64 \<times> coin) \<times> (bytes \<times> bytes \<rightharpoonup> u64 \<times> coin)"

fun spec_coin_op :: "coin_op \<Rightarrow> coin_book \<Rightarrow> coin_book" where
  "spec_coin_op (OpPutCoin f a x) (l, j) = (l(a \<mapsto> (f, x)), j((owner_address (Owner x), a) \<mapsto> (f, x)))"
| "spec_coin_op (OpDeleteCoin a) (l, j) = (case l a of
       None \<Rightarrow> (l, j)
     | Some (f, x) \<Rightarrow> (l(a := None), j((owner_address (Owner x), a) := None)))"

text \<open>Coins are put at 32-byte addresses, with a 32-byte implicit owner; only stored coins are deleted.\<close>

fun coin_op_ok :: "coin_book \<Rightarrow> coin_op \<Rightarrow> bool" where
  "coin_op_ok (l, j) (OpPutCoin f a x) \<longleftrightarrow> length a = 32 \<and>
     (\<exists>i. GetImplicitAccount (Owner x) = Some i \<and> length (ImplicitAddress i) = 32)"
| "coin_op_ok (l, j) (OpDeleteCoin a) \<longleftrightarrow> l a \<noteq> None"

fun coin_ops_ok :: "coin_book \<Rightarrow> coin_op list \<Rightarrow> bool" where
  "coin_ops_ok b [] \<longleftrightarrow> True"
| "coin_ops_ok b (p # ps) \<longleftrightarrow> coin_op_ok b p \<and> coin_ops_ok (spec_coin_op p b) ps"

text \<open>
  No coin is put over a coin of another owner. Then the two maps agree; otherwise the entry of the
  first owner stays.
\<close>

fun owners_kept :: "coin_book \<Rightarrow> coin_op list \<Rightarrow> bool" where
  "owners_kept b [] \<longleftrightarrow> True"
| "owners_kept b (p # ps) \<longleftrightarrow>
     (case p of
        OpPutCoin f a x \<Rightarrow> (case fst b a of None \<Rightarrow> True | Some (g, y) \<Rightarrow> owner_address (Owner y) = owner_address (Owner x))
      | OpDeleteCoin a \<Rightarrow> True) \<and>
     owners_kept (spec_coin_op p b) ps"

definition books_agree :: "coin_book \<Rightarrow> bool" where
  "books_agree b \<longleftrightarrow> (\<forall>w a f x. snd b (w, a) = Some (f, x) \<longleftrightarrow> fst b a = Some (f, x) \<and> owner_address (Owner x) = w)"

lemma books_agree_op:
  assumes "books_agree b" "owners_kept b [p]"
  shows "books_agree (spec_coin_op p b)"
proof -
  obtain l j where b: "b = (l, j)" by (cases b)
  have j: "j (w, a) = Some (f, x) \<longleftrightarrow> l a = Some (f, x) \<and> owner_address (Owner x) = w" for w a f x
    using assms(1) by (simp add: books_agree_def b)
  show ?thesis
  proof (cases p)
    case (OpPutCoin f a x)
    then show ?thesis using assms(2) j by (auto simp: books_agree_def b split: option.splits)
  next
    case (OpDeleteCoin a)
    then show ?thesis using j by (auto simp: books_agree_def b split: option.splits)
  qed
qed

lemma books_agree_ops: "books_agree b \<Longrightarrow> owners_kept b ps \<Longrightarrow> books_agree (fold spec_coin_op ps b)"
proof (induction ps arbitrary: b)
  case (Cons p ps)
  then have "books_agree (spec_coin_op p b)" by (intro books_agree_op) simp_all
  then show ?case using Cons by simp
qed simp

definition coin_book_of :: "coin_codec \<Rightarrow> (bytes \<rightharpoonup> bytes) \<Rightarrow> coin_book" where
  "coin_book_of c m = (ledger c m, owner_index c m)"

context kvdb
begin

lemma new_transaction: "ok d \<Longrightarrow> \<exists>t. NewTransaction k d = Inr t \<and> pending t = []"
  using NewBatch by (force simp: NewTransaction_def)

lemma put_coin_pending:
  assumes "ok d" "codec_ok c" "GetImplicitAccount (Owner x) = Some i"
  shows "\<exists>t' v. PutCoin k c d t f a x = Inr t' \<and> decode_coin c v = Some (f, x) \<and>
     pending t' = pending t @ [(coinByOwnerKey (ImplicitAddress i) a, Some v), (coinKey a, Some v)]"
proof -
  obtain b where b: "marshal_Coin c x = Inr b" "unmarshal_Coin c b = Inr x"
    using assms(2) by (auto simp: codec_ok_def)
  obtain t' where "bindE (tx_Set k d t (coinByOwnerKey (ImplicitAddress i) a) (be_put_uint64 f @ b))
      (\<lambda>t. tx_Set k d t (coinKey a) (be_put_uint64 f @ b)) = Inr t'"
    "pending t' = pending t @ [(coinByOwnerKey (ImplicitAddress i) a, Some (be_put_uint64 f @ b)),
       (coinKey a, Some (be_put_uint64 f @ b))]"
    using set_two [OF assms(1)] by metis
  then show ?thesis
    using b assms(3) decode_coin_put [OF b(2), of f] by (auto simp: PutCoin_def Let_def)
qed

lemma get_coin:
  assumes "ok d" "coins_ok c (view d)"
  shows "GetCoinByAddress k c d None a =
    (case ledger c (view d) a of None \<Rightarrow> Inl ErrNotFound | Some (f, x) \<Rightarrow> Inr x)"
proof (cases "view d (coinKey a)")
  case None
  then show ?thesis using Get [OF assms(1)] by (simp add: GetCoinByAddress_def ledger_def)
next
  case (Some v)
  then obtain f x where v: "decode_coin c v = Some (f, x)" using assms(2) unfolding coins_ok_def by blast
  then show ?thesis
    using Some Get [OF assms(1)] decode_coinE [OF v]
    by (simp add: GetCoinByAddress_def ledger_def guardE_def)
qed

lemma run_put:
  assumes ok: "ok d" "coins_ok c (view d)" "codec_ok c" and p: "coin_op_ok b (OpPutCoin f a x)"
  shows "\<exists>d'. run_coin_op k c d (OpPutCoin f a x) = Inr d' \<and> ok d' \<and> coins_ok c (view d') \<and>
     coin_book_of c (view d') = spec_coin_op (OpPutCoin f a x) (coin_book_of c (view d))"
proof -
  obtain i where i: "GetImplicitAccount (Owner x) = Some i" "length (ImplicitAddress i) = 32" and a: "length a = 32"
    using p by (cases b) auto
  have w: "owner_address (Owner x) = ImplicitAddress i" using i by (simp add: owner_address_def)
  obtain t where t: "NewTransaction k d = Inr t" "pending t = []" using new_transaction [OF ok(1)] by blast
  obtain t' v where t': "PutCoin k c d t f a x = Inr t'" "decode_coin c v = Some (f, x)"
    "pending t' = [(coinByOwnerKey (ImplicitAddress i) a, Some v), (coinKey a, Some v)]"
    using put_coin_pending [OF ok(1,3) i(1)] t(2) by fastforce
  obtain d' where d': "tx_Commit k d t' = Inr d'" "ok d'" "view d' = apply_changes (pending t') (view d)"
    using txn_Commit [OF ok(1)] by blast
  then have v: "view d' = put_changes (owner_address (Owner x)) a (Some v) (view d)"
    using t'(3) by (simp add: put_changes_def w)
  have l: "length (owner_address (Owner x)) = 32" using w i by simp
  have "coins_ok c (view d')" unfolding v by (rule coins_ok_put [OF ok(2) a t'(2) l])
  moreover have "coin_book_of c (view d') = spec_coin_op (OpPutCoin f a x) (coin_book_of c (view d))"
    unfolding v coin_book_of_def using t'(2) by (simp add: ledger_put_changes owner_index_put_changes [OF l])
  ultimately show ?thesis
    using t(1) t'(1) d'(1,2) by simp
qed

lemma run_delete:
  assumes ok: "ok d" "coins_ok c (view d)" and p: "coin_op_ok (coin_book_of c (view d)) (OpDeleteCoin a)"
  shows "\<exists>d'. run_coin_op k c d (OpDeleteCoin a) = Inr d' \<and> ok d' \<and> coins_ok c (view d') \<and>
     coin_book_of c (view d') = spec_coin_op (OpDeleteCoin a) (coin_book_of c (view d))"
proof -
  obtain f x where x: "ledger c (view d) a = Some (f, x)" using p by (auto simp: coin_book_of_def)
  then have l: "length (owner_address (Owner x)) = 32"
    using ok(2) by (fastforce simp: coins_ok_def ledger_def bind_eq_Some_conv)
  have g: "GetCoinByAddress k c d None a = Inr x" using get_coin [OF ok] x by simp
  obtain t where t: "NewTransaction k d = Inr t" "pending t = []" using new_transaction [OF ok(1)] by blast
  obtain t' where t': "DeleteCoin k d t a x = Inr t'"
    "pending t' = [(coinKey a, None), (coinByOwnerKey (owner_address (Owner x)) a, None)]"
    using delete_two [OF ok(1), of t "coinKey a" "coinByOwnerKey (owner_address (Owner x)) a"] t(2)
    by (auto simp: DeleteCoin_def)
  obtain d' where d': "tx_Commit k d t' = Inr d'" "ok d'" "view d' = apply_changes (pending t') (view d)"
    using txn_Commit [OF ok(1)] by blast
  then have v: "view d' = put_changes (owner_address (Owner x)) a None (view d)"
    using t'(2) by (auto simp: put_changes_def fun_eq_iff)
  have "coins_ok c (view d')" unfolding v by (rule coins_ok_delete [OF ok(2)])
  moreover have "coin_book_of c (view d') = spec_coin_op (OpDeleteCoin a) (coin_book_of c (view d))"
    unfolding v coin_book_of_def using x by (simp add: ledger_put_changes owner_index_put_changes [OF l])
  ultimately show ?thesis
    using g t(1) t'(1) d'(1,2) by simp
qed

lemma run_coin_ops:
  assumes "ok d" "coins_ok c (view d)" "codec_ok c" "coin_ops_ok (coin_book_of c (view d)) ops"
  shows "\<exists>d'. foldE (run_coin_op k c) d ops = Inr d' \<and> ok d' \<and> coins_ok c (view d') \<and>
     coin_book_of c (view d') = fold spec_coin_op ops (coin_book_of c (view d))"
  using assms
proof (induction ops arbitrary: d)
  case (Cons p ops)
  have p: "coin_op_ok (coin_book_of c (view d)) p" using Cons.prems(4) by simp
  have "\<exists>d1. run_coin_op k c d p = Inr d1 \<and> ok d1 \<and> coins_ok c (view d1) \<and>
    coin_book_of c (view d1) = spec_coin_op p (coin_book_of c (view d))"
  proof (cases p)
    case (OpPutCoin f a x)
    show ?thesis using run_put [OF Cons.prems(1-3) p [unfolded OpPutCoin]] unfolding OpPutCoin .
  next
    case (OpDeleteCoin a)
    show ?thesis using run_delete [OF Cons.prems(1,2) p [unfolded OpDeleteCoin]] unfolding OpDeleteCoin .
  qed
  then obtain d1 where d1: "run_coin_op k c d p = Inr d1" "ok d1" "coins_ok c (view d1)"
    "coin_book_of c (view d1) = spec_coin_op p (coin_book_of c (view d))" by blast
  then show ?case using Cons.IH [OF d1(2,3) Cons.prems(3)] Cons.prems(4) by simp
qed simp

lemma coins_for_owner:
  assumes "ok d" "coins_ok c (view d)" "length w = 32"
  shows "\<exists>es. GetCoinsForOwner k c d w =
      Some (Inr (map fst es, map (fst \<circ> snd) es, map (snd \<circ> snd) es)) \<and> owner_listing (owner_index c (view d)) w es"
proof -
  obtain kvs where kvs: "kv_Scan k d (coinByOwnerKey w (replicate 32 0)) (coinByOwnerKey w (replicate 32 0xff)) = Some (Inr kvs)"
    "range_entries (view d) (coinByOwnerKey w (replicate 32 0)) (coinByOwnerKey w (replicate 32 0xff)) kvs"
    using Scan [OF assms(1)] by blast
  from owner_entries_listing [OF assms(2,3) kvs(2)] kvs(1) show ?thesis
    by (auto simp: GetCoinsForOwner_def simp del: key_simps(4))
qed

end

section \<open>Properties\<close>

definition no_coins :: coin_book where
  "no_coins = (Map.empty, Map.empty)"

lemma empty_store: "coins_ok c (db_store NewInMemKVDB)" "coin_book_of c (db_store NewInMemKVDB) = no_coins"
  by (auto simp: coins_ok_def coin_book_of_def ledger_def owner_index_def no_coins_def fun_eq_iff NewInMemKVDB_def)

text \<open>
  C25: the coin store refines a map from addresses to coins and an index by owner. Coins are put
  at 32-byte addresses with a 32-byte implicit owner, coins that are stored are deleted, each in a
  transaction of its own, on a new database and with an encoding that round-trips. Then
  \<open>GetCoinByAddress\<close> returns the coin last put at the address and not deleted since, and not found
  otherwise; and \<open>GetCoinsForOwner\<close> ends and returns, for every 32-byte owner, what the index holds
  for the owner, each entry once and in ascending order of address, except the one at the address
  of 32 bytes 0xff. If no coin was put over a coin of another owner, these are exactly the coins of
  that owner; otherwise the entry of the former owner is still listed.
\<close>

theorem coin_store_refines_ledger:
  assumes "codec_ok c" "coin_ops_ok no_coins ops" "length w = 32" "fold spec_coin_op ops no_coins = (l, j)"
  shows "\<exists>d es. foldE (run_coin_op inmem_ops c) NewInMemKVDB ops = Inr d \<and>
     (\<forall>a. GetCoinByAddress inmem_ops c d None a =
        (case l a of None \<Rightarrow> Inl ErrNotFound | Some (f, x) \<Rightarrow> Inr x)) \<and>
     GetCoinsForOwner inmem_ops c d w = Some (Inr (map fst es, map (fst \<circ> snd) es, map (snd \<circ> snd) es)) \<and>
     owner_listing j w es \<and>
     (owners_kept no_coins ops \<longrightarrow> (\<forall>f a x. (f, a, x) \<in> set es \<longleftrightarrow>
        l a = Some (f, x) \<and> owner_address (Owner x) = w \<and> a \<noteq> replicate 32 0xff))"
proof -
  obtain d where d: "foldE (run_coin_op inmem_ops c) NewInMemKVDB ops = Inr d" "db_ok d"
    "coins_ok c (db_store d)" "coin_book_of c (db_store d) = (l, j)"
    using imdb.run_coin_ops [OF db_ok_New empty_store(1) assms(1), of ops] assms(2,4) by (auto simp: empty_store)
  obtain es where es: "GetCoinsForOwner inmem_ops c d w = Some (Inr (map fst es, map (fst \<circ> snd) es, map (snd \<circ> snd) es))"
    "owner_listing (owner_index c (db_store d)) w es"
    using imdb.coins_for_owner [OF d(2,3) assms(3)] by blast
  have "books_agree (l, j)" if "owners_kept no_coins ops"
    using books_agree_ops [OF _ that] assms(4) by (simp add: books_agree_def no_coins_def)
  then have "owners_kept no_coins ops \<longrightarrow> (\<forall>f a x. (f, a, x) \<in> set es \<longleftrightarrow>
        l a = Some (f, x) \<and> owner_address (Owner x) = w \<and> a \<noteq> replicate 32 0xff)"
    using es(2) d(4) by (auto simp: books_agree_def owner_listing_def coin_book_of_def)
  then show ?thesis
    using d es imdb.get_coin [OF d(2,3)] by (auto simp: coin_book_of_def)
qed

text \<open>An encoding that round-trips: every byte is preceded by 1, and 0 ends a field.\<close>

definition enc_field :: "bytes \<Rightarrow> bytes" where
  "enc_field b = concat (map (\<lambda>x. [1, x]) b) @ [0]"

fun dec_field :: "bytes \<Rightarrow> bytes \<times> bytes" where
  "dec_field (t # x # r) = (if t = 0 then ([], x # r) else let (b, s) = dec_field r in (x # b, s))"
| "dec_field _ = ([], [])"

lemma dec_enc_field: "dec_field (enc_field b @ r) = (b, r)"
proof (induction b)
  case Nil
  then show ?case by (cases r) (simp_all add: enc_field_def)
next
  case (Cons x b)
  then show ?case by (simp add: enc_field_def)
qed

definition enc_account :: "account_ref option \<Rightarrow> bytes" where
  "enc_account w = (case w of
       None \<Rightarrow> [0]
     | Some AccountUnset \<Rightarrow> [1]
     | Some (OriginatedAccount i) \<Rightarrow> 2 # enc_field (OriginatedAddress i)
     | Some (ImplicitAccount i) \<Rightarrow>
         3 # be_put_uint32 (ImplicitType i) @ enc_field (ImplicitAddress i) @ enc_field (Domain i))"

definition dec_account :: "bytes \<Rightarrow> account_ref option" where
  "dec_account r =
     (if hd r = 0 then None
      else if hd r = 1 then Some AccountUnset
      else if hd r = 2 then Some (OriginatedAccount \<lparr>OriginatedAddress = fst (dec_field (tl r))\<rparr>)
      else let (a, s) = dec_field (drop 5 r) in
        Some (ImplicitAccount \<lparr>ImplicitType = of_nat (nat_of_be (take 4 (tl r))), ImplicitAddress = a,
          Domain = fst (dec_field s)\<rparr>))"

lemma dec_enc_account: "dec_account (enc_account w) = w"
proof -
  have "of_nat (nat_of_be (be_put_uint32 v)) = v" for v
    using be_uint32_put [of v "[]"] by (simp add: be_uint32_def)
  then show ?thesis
    using dec_enc_field [of _ "[]"]
    by (auto simp: enc_account_def dec_account_def dec_enc_field split: option.splits account_ref.splits)
qed

definition sample_codec :: coin_codec where
  "sample_codec = \<lparr>
     marshal_Coin = (\<lambda>x. Inr (enc_field (Amount x) @ enc_field (Intersection x) @ enc_account (Owner x))),
     unmarshal_Coin = (\<lambda>b. let (am, s) = dec_field b; (it, r) = dec_field s in
        Inr \<lparr>Amount = am, Intersection = it, Owner = dec_account r\<rparr>),
     marshal_PreCoinProof = (\<lambda>x. Inr (ProofAmount x)),
     unmarshal_PreCoinProof = (\<lambda>b. Inl ErrNotFound)\<rparr>"

lemma sample_codec_ok: "codec_ok sample_codec"
  by (simp add: codec_ok_def sample_codec_def dec_enc_field dec_enc_account)

definition sample_coin :: "byte \<Rightarrow> nat \<Rightarrow> coin" where
  "sample_coin w n = \<lparr>Amount = be_of_nat 32 n, Intersection = [],
     Owner = Some (ImplicitAccount \<lparr>ImplicitType = 0, ImplicitAddress = replicate 32 w, Domain = []\<rparr>)\<rparr>"

text \<open>
  A coin is deleted, and another put over by a coin of another owner: the listing of the former
  owner still has it.
\<close>

definition sample_coin_ops :: "coin_op list" where
  "sample_coin_ops = [OpPutCoin 5 (replicate 32 1) (sample_coin 9 100), OpPutCoin 6 (replicate 32 2) (sample_coin 9 200),
     OpDeleteCoin (replicate 32 1), OpPutCoin 7 (replicate 32 2) (sample_coin 8 300)]"

theorem coin_store_refines_ledger_witness:
  "codec_ok sample_codec \<and> coin_ops_ok no_coins sample_coin_ops \<and>
   (\<exists>d fs as xs. foldE (run_coin_op inmem_ops sample_codec) NewInMemKVDB sample_coin_ops = Inr d \<and>
      GetCoinByAddress inmem_ops sample_codec d None (replicate 32 2) = Inr (sample_coin 8 300) \<and>
      GetCoinByAddress inmem_ops sample_codec d None (replicate 32 1) = Inl ErrNotFound \<and>
      GetCoinsForOwner inmem_ops sample_codec d (replicate 32 9) = Some (Inr (fs, as, xs)) \<and>
      sample_coin 9 200 \<in> set xs)"
proof -
  have ne: "(replicate 32 2 :: bytes) \<noteq> replicate 32 1" "(replicate 32 2 :: bytes) \<noteq> replicate 32 0xff"
    "(replicate 32 9 :: bytes) \<noteq> replicate 32 8"
    by (simp_all add: replicate_eq_replicate)
  have o: "owner_address (Owner (sample_coin w n)) = replicate 32 w" for w n
    by (simp add: sample_coin_def owner_address_def)
  have ops: "coin_ops_ok no_coins sample_coin_ops"
    using ne by (auto simp: sample_coin_ops_def no_coins_def o) (simp_all add: sample_coin_def)
  obtain l j where lj: "fold spec_coin_op sample_coin_ops no_coins = (l, j)" by (cases "fold spec_coin_op sample_coin_ops no_coins")
  then have l: "l (replicate 32 2) = Some (7, sample_coin 8 300)" "l (replicate 32 1) = None"
    "j (replicate 32 9, replicate 32 2) = Some (6, sample_coin 9 200)"
    using ne by (auto simp: sample_coin_ops_def no_coins_def o)
  have "length (replicate 32 (9 :: byte)) = 32" by simp
  from coin_store_refines_ledger [OF sample_codec_ok ops this lj]
  obtain d es where d: "foldE (run_coin_op inmem_ops sample_codec) NewInMemKVDB sample_coin_ops = Inr d"
    "\<And>a. GetCoinByAddress inmem_ops sample_codec d None a = (case l a of None \<Rightarrow> Inl ErrNotFound | Some (f, x) \<Rightarrow> Inr x)"
    "GetCoinsForOwner inmem_ops sample_codec d (replicate 32 9) =
       Some (Inr (map fst es, map (fst \<circ> snd) es, map (snd \<circ> snd) es))"
    "owner_listing j (replicate 32 9) es"
    by blast
  have "(6, replicate 32 2, sample_coin 9 200) \<in> set es" using d(4) l(3) ne(2) by (simp add: owner_listing_def)
  then have "sample_coin 9 200 \<in> set (map (snd \<circ> snd) es)" by force
  then show ?thesis using sample_codec_ok ops l d(1,2,3) by auto
qed

end
