(* ===== verification/Bloom.thy ===== *)
theory Bloom
  imports InMemKVDB Validation
begin

text \<open>
  The bloom filters of \<open>node/p2p/bloom_utils.go\<close>. SHA-3 and SHAKE are arguments
  (\<open>crypto_ops\<close>). \<open>big.Int\<close> values are naturals, \<open>Bit\<close> and \<open>SetBit\<close> their bits.
\<close>

section \<open>Operations\<close>

definition GetOnesIndices :: "bytes \<Rightarrow> nat list" where
  "GetOnesIndices input =
     concat (map (\<lambda>(i, b). map (\<lambda>j. i * 8 + j) (filter (\<lambda>j. bit b j) [0..<8])) (enumerate 0 input))"

text \<open>\<open>big.NewInt(n).BitLen()\<close>.\<close>

fun BitLen :: "nat \<Rightarrow> nat" where
  "BitLen n = (if n = 0 then 0 else Suc (BitLen (n div 2)))"

declare BitLen.simps [simp del]

definition bloom_position :: "nat \<Rightarrow> nat \<Rightarrow> nat \<Rightarrow> nat" where
  "bloom_position digest sz i =
     fold (\<lambda>j position. 2 * position + (if bit digest j then 1 else 0)) [sz * i..<sz * (i + 1)] 0"

text \<open>The loop over \<open>i\<close>, with the bound \<open>k\<close> it extends on a collision, up to \<open>size\<close>.\<close>

function bloom_loop :: "nat \<Rightarrow> nat \<Rightarrow> nat \<Rightarrow> nat \<Rightarrow> nat \<Rightarrow> nat" where
  "bloom_loop digest sz i k out =
     (if i < k then
        let position = bloom_position digest sz i in
        if \<not> bit out position then bloom_loop digest sz (i + 1) k (set_bit position out)
        else if k < sz then bloom_loop digest sz (i + 1) (k + 1) out
        else bloom_loop digest sz (i + 1) k out
      else out)"
  by pat_completeness auto
termination
  by (relation "measure (\<lambda>(digest, sz, i, k, out). max k sz - i)") auto

declare bloom_loop.simps [simp del]

definition GetBloomFilter :: "crypto_ops \<Rightarrow> bytes \<Rightarrow> nat \<Rightarrow> nat \<Rightarrow> bytes result" where
  "GetBloomFilter c data bitLength k =
     (let sz = BitLen bitLength - 1;
          digest = nat_of_be (sha3_Sum256 c data)
      in fill_bytes (bitLength div 8) (bloom_loop digest sz 0 k 0))"

text \<open>
  \<open>GetBloomFilterIndices\<close>: positions of \<open>size/8\<close> bytes from the digest, kept sorted; a
  repeated position extends \<open>k\<close>, and reading past the digest panics. The fuel bounds the
  rounds; every round that does not panic reads at least one byte when \<open>size \<ge> 8\<close>.
\<close>

fun indices_loop :: "nat \<Rightarrow> bytes \<Rightarrow> nat \<Rightarrow> nat \<Rightarrow> nat \<Rightarrow> bytes list \<Rightarrow> bytes list result option" where
  "indices_loop 0 digest w i k indices = None"
| "indices_loop (Suc n) digest w i k indices =
     (if i < k then
        if length digest < w * (i + 1) then Some (Inl Panic)
        else let position = take w (drop (w * i) digest) in
          if position \<in> set indices then indices_loop n digest w (i + 1) (k + 1) indices
          else indices_loop n digest w (i + 1) k (insert_key indices position)
      else Some (Inr indices))"

definition GetBloomFilterIndices :: "crypto_ops \<Rightarrow> bytes \<Rightarrow> nat \<Rightarrow> nat \<Rightarrow> bytes result option" where
  "GetBloomFilterIndices c data bitLength k =
     (let sz = BitLen bitLength - 1;
          digest = shake256_Read c data (sz * k)
      in map_option (\<lambda>r. bindE r (\<lambda>indices. Inr (concat indices)))
           (indices_loop (sz * k + 2) digest (sz div 8) 0 k []))"

section \<open>Bits\<close>

lemma BitLen_power: "BitLen (2 ^ n) = Suc n"
  by (induction n) (simp_all add: BitLen.simps)

lemma fold_bits_less:
  fixes p :: nat
  shows "p < 2 ^ a \<Longrightarrow> fold (\<lambda>j position. 2 * position + (if bit digest j then 1 else 0)) js p < 2 ^ (a + length js)"
proof (induction js arbitrary: p a)
  case (Cons j js)
  have "2 * p + (if bit digest j then 1 else 0) < 2 ^ Suc a" using Cons.prems by auto
  from Cons.IH [OF this] show ?case by simp
qed simp

lemma bloom_position_less: "bloom_position digest sz i < 2 ^ sz"
  using fold_bits_less [of 0 0 digest "[sz * i..<sz * (i + 1)]"] by (simp add: bloom_position_def)

definition ones :: "nat \<Rightarrow> nat set" where
  "ones n = {p. bit n p}"

lemma ones_set_bit [simp]: "ones (set_bit p n) = insert p (ones n)"
  by (auto simp: ones_def bit_simps)

lemma ones_bound:
  assumes "ones n \<subseteq> {..<m}"
  shows "n < 2 ^ m"
proof -
  have "take_bit m n = n"
    by (rule bit_eqI) (use assms in \<open>auto simp: ones_def bit_simps\<close>)
  then show ?thesis using take_bit_nat_less_exp [of m n] by simp
qed

text \<open>
  The bits set so far lie below \<open>2 ^ size\<close>, and their number grows with \<open>i\<close> unless \<open>k\<close> grows
  or is at its limit.
\<close>

lemma bloom_loop_ones:
  assumes "ones out \<subseteq> {..<2 ^ sz}" "card (ones out) + (k - k0) \<le> i" "k0 \<le> k" "i \<le> max k k0"
  shows "ones (bloom_loop digest sz i k out) \<subseteq> {..<2 ^ sz} \<and> card (ones (bloom_loop digest sz i k out)) \<le> k0 \<and>
     ones out \<subseteq> ones (bloom_loop digest sz i k out)"
  using assms
proof (induction digest sz i k out rule: bloom_loop.induct)
  case (1 digest sz i k out)
  note IH = 1(1-3) and prems = 1(4-7)
  let ?p = "bloom_position digest sz i"
  show ?case
  proof (cases "i < k")
    case False
    then have "bloom_loop digest sz i k out = out" by (subst bloom_loop.simps) simp
    then show ?thesis using prems False by auto
  next
    case True
    have fin: "finite (ones out)" using prems(1) finite_subset by blast
    show ?thesis
    proof (cases "bit out ?p")
      case False
      have step: "bloom_loop digest sz i k out = bloom_loop digest sz (i + 1) k (set_bit ?p out)"
        using True False by (subst bloom_loop.simps) (simp add: Let_def)
      have "?p \<notin> ones out" using False by (simp add: ones_def)
      then have "card (ones (set_bit ?p out)) + (k - k0) \<le> i + 1" using prems(2) fin by simp
      then show ?thesis
        unfolding step using IH(1) [OF True refl False] prems True bloom_position_less [of digest sz i] by auto
    next
      case bit: True
      show ?thesis
      proof (cases "k < sz")
        case ext: True
        have step: "bloom_loop digest sz i k out = bloom_loop digest sz (i + 1) (k + 1) out"
          using True bit ext by (subst bloom_loop.simps) (simp add: Let_def)
        show ?thesis
          unfolding step using IH(2) [OF True refl _ ext] bit prems True by auto
      next
        case full: False
        have step: "bloom_loop digest sz i k out = bloom_loop digest sz (i + 1) k out"
          using True bit full by (subst bloom_loop.simps) (simp add: Let_def)
        show ?thesis
          unfolding step using IH(3) [OF True refl _ full] bit prems True by auto
      qed
    qed
  qed
qed

lemma bloom_loop_first:
  assumes "0 < k"
  shows "ones (bloom_loop digest sz 0 k 0) \<noteq> {}"
proof -
  let ?p = "bloom_position digest sz 0"
  have step: "bloom_loop digest sz 0 k 0 = bloom_loop digest sz 1 k (set_bit ?p 0)"
    using assms by (subst bloom_loop.simps) (simp add: Let_def)
  have o1: "ones (set_bit ?p 0) = {?p}" by (simp only: ones_set_bit) (simp add: ones_def)
  have "ones (set_bit ?p 0) \<subseteq> ones (bloom_loop digest sz 1 k (set_bit ?p 0))"
    using bloom_loop_ones [of "set_bit ?p 0" sz k k 1 digest] assms bloom_position_less [of digest sz 0] o1 by simp
  then show ?thesis unfolding step o1 by auto
qed

section \<open>Positions\<close>

definition chunks :: "bytes \<Rightarrow> nat \<Rightarrow> nat \<Rightarrow> bytes set" where
  "chunks digest w n = (\<lambda>i. take w (drop (w * i) digest)) ` {..<n}"

lemma finite_chunks [simp]: "finite (chunks digest w n)"
  by (simp add: chunks_def)

lemma chunks_Suc: "chunks digest w (Suc n) = insert (take w (drop (w * n) digest)) (chunks digest w n)"
  by (simp add: chunks_def lessThan_Suc)

definition indices_ok :: "bytes \<Rightarrow> nat \<Rightarrow> nat \<Rightarrow> nat \<Rightarrow> nat \<Rightarrow> bytes list \<Rightarrow> bool" where
  "indices_ok digest w k0 i k ixs \<longleftrightarrow> sorted ixs \<and> distinct ixs \<and> set ixs = chunks digest w i \<and>
     length ixs + k = i + k0 \<and> i \<le> k \<and> w * i \<le> length digest"

lemma indices_loop_result:
  assumes "indices_ok digest w k0 i k ixs" "0 < w" "length digest < n + i"
  shows "(indices_loop n digest w i k ixs = Some (Inl Panic) \<and> card (chunks digest w (length digest div w)) < k0) \<or>
     (\<exists>out. indices_loop n digest w i k ixs = Some (Inr out) \<and> sorted out \<and> distinct out \<and> length out = k0 \<and>
        (\<exists>j \<le> length digest div w. set out = chunks digest w j))"
  using assms
proof (induction n digest w i k ixs rule: indices_loop.induct)
  case (1 digest w i k ixs)
  then have "i \<le> w * i" "w * i \<le> length digest" by (simp_all add: indices_ok_def)
  with 1(3) show ?case by simp
next
  case (2 n digest w i k ixs)
  note ok = 2(3) [unfolded indices_ok_def]
  let ?p = "take w (drop (w * i) digest)"
  have card: "card (chunks digest w i) = length ixs" using ok distinct_card by fastforce
  consider "\<not> i < k" | "i < k" "length digest < w * (i + 1)" | "i < k" "w * (i + 1) \<le> length digest" by linarith
  then show ?case
  proof cases
    case 1
    have "i \<le> length digest div w" using ok 2(4) by (simp add: less_eq_div_iff_mult_less_eq mult.commute)
    then show ?thesis using 1 ok by auto
  next
    case 2
    have "length digest div w = i"
      by (rule div_nat_eqI) (use ok 2 in \<open>auto simp: mult.commute\<close>)
    then show ?thesis using 2 ok card by auto
  next
    case 3
    show ?thesis
    proof (cases "?p \<in> set ixs")
      case True
      have "indices_ok digest w k0 (i + 1) (k + 1) ixs"
        using ok 3 True by (auto simp: indices_ok_def chunks_Suc insert_absorb)
      with 2(1) [OF 3(1) _ refl True] 3 2(4,5) True show ?thesis by simp
    next
      case False
      have "indices_ok digest w k0 (i + 1) k (insert_key ixs ?p)"
        using ok 3 False insert_key_correct [of ixs ?p]
          distinct_card [of "insert_key ixs ?p"] distinct_card [of ixs]
        by (auto simp: indices_ok_def chunks_Suc)
      with 2(2) [OF 3(1) _ refl False] 3 2(4,5) False show ?thesis by (simp add: Let_def)
    qed
  qed
qed

text \<open>The filter is the integer of the loop in \<open>2 ^ n / 8\<close> bytes, which are enough for it.\<close>

lemma GetBloomFilter_value:
  fixes c :: crypto_ops and data :: bytes and k :: nat
  assumes "3 \<le> n"
  defines "out \<equiv> be_of_nat (2 ^ n div 8) (bloom_loop (nat_of_be (sha3_Sum256 c data)) n 0 k 0)"
  shows "GetBloomFilter c data (2 ^ n) k = Inr out"
    "nat_of_be out = bloom_loop (nat_of_be (sha3_Sum256 c data)) n 0 k 0" "length out = 2 ^ n div 8"
proof -
  let ?o = "bloom_loop (nat_of_be (sha3_Sum256 c data)) n 0 k 0"
  have o: "ones ?o \<subseteq> {..<2 ^ n}"
    using bloom_loop_ones [of 0 n k k 0] by (simp add: ones_def)
  have "8 * 2 ^ (n - 3) = (2 :: nat) ^ n"
    using power_add [of "2 :: nat" 3 "n - 3"] assms by simp
  then have "2 ^ n = 8 * (2 ^ n div (8 :: nat))" by (metis nonzero_mult_div_cancel_left zero_neq_numeral)
  then have w: "256 ^ (2 ^ n div 8) = (2 :: nat) ^ (2 ^ n)"
    using power_mult [of "2 :: nat" 8 "2 ^ n div 8"] by simp
  have lt: "?o < 2 ^ (2 ^ n)" by (rule ones_bound [OF o(1)])
  then show "GetBloomFilter c data (2 ^ n) k = Inr out"
    by (simp add: GetBloomFilter_def BitLen_power fill_bytes_def w out_def)
  show "nat_of_be out = ?o" using lt w by (simp add: nat_of_be_of_nat out_def)
  show "length out = 2 ^ n div 8" by (simp add: out_def)
qed

section \<open>Properties\<close>

text \<open>
  C34: for a filter of a power of two of bits, at least 8, \<open>GetBloomFilter\<close> does not panic and
  returns a filter of that many bits with at most \<open>k\<close> ones, and at least one when \<open>k\<close> is
  positive.
\<close>

theorem bloom_filter_bits:
  assumes "3 \<le> n"
  shows "\<exists>out. GetBloomFilter c data (2 ^ n) k = Inr out \<and> length out = 2 ^ n div 8 \<and>
     card (ones (nat_of_be out)) \<le> k \<and> (ones (nat_of_be out) = {} \<longleftrightarrow> k = 0)"
proof -
  let ?o = "bloom_loop (nat_of_be (sha3_Sum256 c data)) n 0 k 0"
  have "card (ones ?o) \<le> k"
    using bloom_loop_ones [of 0 n k k 0] by (simp_all add: ones_def)
  moreover have "ones ?o = {} \<longleftrightarrow> k = 0"
    using bloom_loop_first [of k] by (cases "k = 0") (simp_all add: bloom_loop.simps [of _ _ 0 0] ones_def)
  ultimately show ?thesis using GetBloomFilter_value [OF assms, of c data k] by auto
qed

lemma bloom_filter_bits_witness:
  "(3 :: nat) \<le> 10 \<and> (\<exists>out. GetBloomFilter sample_crypto [1] (2 ^ 10) 3 = Inr out \<and> length out = 2 ^ 10 div 8 \<and>
     card (ones (nat_of_be out)) \<le> 3 \<and> (ones (nat_of_be out) = {} \<longleftrightarrow> 3 = (0 :: nat)))"
  using bloom_filter_bits [of 10 sample_crypto "[1]" 3] by simp

text \<open>
  C35: for filters of at least 256 bits, \<open>GetBloomFilterIndices\<close> returns. Its result is the
  concatenation, in ascending order, of the first \<open>k\<close> distinct \<open>size/8\<close>-byte chunks of the SHAKE
  output: all the chunks of a prefix of it, of which \<open>k\<close> are distinct. If the output has fewer than
  \<open>k\<close> distinct chunks, the function reads past it and panics. SHAKE fills the buffer it is given.
\<close>

theorem bloom_indices_sorted:
  fixes c :: crypto_ops and k :: nat
  assumes "8 \<le> BitLen bitLength - 1"
    and "\<And>n. length (shake256_Read c data n) = n"
  defines "w \<equiv> (BitLen bitLength - 1) div 8"
    and "digest \<equiv> shake256_Read c data ((BitLen bitLength - 1) * k)"
  shows "if card (chunks digest w (length digest div w)) < k
     then GetBloomFilterIndices c data bitLength k = Some (Inl Panic)
     else \<exists>ps. GetBloomFilterIndices c data bitLength k = Some (Inr (concat ps)) \<and> sorted ps \<and> distinct ps \<and>
       length ps = k \<and> (\<exists>j \<le> length digest div w. set ps = chunks digest w j)"
proof -
  have w: "0 < w" using assms(1) by (simp add: w_def)
  have len: "length digest = (BitLen bitLength - 1) * k" by (simp add: digest_def assms(2))
  have "indices_ok digest w k 0 k []" by (simp add: indices_ok_def chunks_def)
  from indices_loop_result [OF this w, of "(BitLen bitLength - 1) * k + 2"]
  consider "indices_loop ((BitLen bitLength - 1) * k + 2) digest w 0 k [] = Some (Inl Panic)"
      "card (chunks digest w (length digest div w)) < k"
    | out where "indices_loop ((BitLen bitLength - 1) * k + 2) digest w 0 k [] = Some (Inr out)" "sorted out" "distinct out"
      "length out = k" "\<exists>j \<le> length digest div w. set out = chunks digest w j"
    unfolding len by auto
  then show ?thesis
  proof cases
    case 1
    then show ?thesis by (simp add: GetBloomFilterIndices_def digest_def w_def Let_def)
  next
    case 2
    have "card (set out) \<le> card (chunks digest w (length digest div w))"
      by (rule card_mono) (use 2 in \<open>auto simp: chunks_def\<close>)
    then have "k \<le> card (chunks digest w (length digest div w))" using 2 distinct_card by metis
    moreover have "GetBloomFilterIndices c data bitLength k = Some (Inr (concat out))"
      using 2(1) by (simp add: GetBloomFilterIndices_def digest_def w_def Let_def)
    ultimately show ?thesis using 2 by auto
  qed
qed

lemma bloom_indices_sorted_witness:
  "\<exists>ps. GetBloomFilterIndices sample_crypto [1] 65536 1 = Some (Inr (concat ps)) \<and> sorted ps \<and> distinct ps \<and>
     length ps = 1 \<and> (\<exists>j \<le> 8. set ps = chunks (shake256_Read sample_crypto [1] 16) 2 j)"
proof -
  have b: "BitLen 65536 = 17" using BitLen_power [of 16] by simp
  have "chunks (shake256_Read sample_crypto [1] 16) 2 8 \<noteq> {}" by (auto simp: chunks_def lessThan_empty_iff)
  then have ne: "\<not> card (chunks (shake256_Read sample_crypto [1] 16) 2 8) < 1" by (simp add: card_gt_0_iff)
  have sh: "length (shake256_Read sample_crypto [1] n) = n" for n by (simp add: sample_crypto_def)
  have "8 \<le> BitLen 65536 - 1" by (simp add: b)
  note bloom_indices_sorted [OF this sh, of 1]
  moreover have "(BitLen 65536 - 1) * 1 = 16" "(BitLen 65536 - 1) div 8 = 2" "(16 :: nat) div 2 = 8" by (simp_all add: b)
  ultimately show ?thesis using ne by (simp only: sh if_False)
qed

end
