(* ===== verification/ProofLeaf.thy ===== *)
theory ProofLeaf
  imports Bloom
begin

text \<open>
  \<open>node/tries/proof_leaf.go\<close>: the proofs of work a prover packs into a mint request and the
  checks on them. The Merkle tree package is not part of the repository: building a tree and
  checking a proof are the arguments \<open>merkle_ops\<close>. The two loops that draw indices from a
  hash need not end; they are option-valued, \<open>None\<close> is a loop that runs forever.
\<close>

section \<open>Trees\<close>

record merkle_proof =
  Siblings :: "bytes list"
  Path :: u32

record merkle_tree =
  Root :: bytes
  Leaves :: "bytes list"
  TreeProofs :: "merkle_proof list"

record merkle_ops =
  mt_New :: "(bytes \<Rightarrow> bytes) \<Rightarrow> bytes list \<Rightarrow> merkle_tree result"
  mt_Verify :: "(bytes \<Rightarrow> bytes) \<Rightarrow> bytes \<Rightarrow> merkle_proof \<Rightarrow> bytes \<Rightarrow> bool result"

section \<open>Unbiased indices\<close>

text \<open>\<open>binary.BigEndian.Uint64(input[o:o+8])\<close> of a 32-byte array.\<close>

definition input_word :: "bytes \<Rightarrow> nat \<Rightarrow> u64" where
  "input_word input off = of_nat (nat_of_be (take 8 (drop off input)))"

definition max_valid :: "u64 \<Rightarrow> u64" where
  "max_valid modulus = - 1 - (- 1 mod modulus)"

text \<open>The inner loop, at the offsets 8, 16 and 24.\<close>

fun remix :: "bytes \<Rightarrow> u64 \<Rightarrow> u64 \<Rightarrow> nat list \<Rightarrow> u64" where
  "remix input maxValid r [] = r"
| "remix input maxValid r (off # offs) =
     (if r > maxValid then remix input maxValid ((r * 31) XOR input_word input off) offs else r)"

definition remix_round :: "bytes \<Rightarrow> u64 \<Rightarrow> u64 \<Rightarrow> u64" where
  "remix_round input maxValid r =
     (let r = remix input maxValid r [8, 16, 24] in
      if r > maxValid then (r * 31) XOR drop_bit 32 r else r)"

partial_function (option) unbiased_loop :: "bytes \<Rightarrow> u64 \<Rightarrow> u64 \<Rightarrow> u64 option" where
  "unbiased_loop input maxValid r =
     (if r > maxValid then unbiased_loop input maxValid (remix_round input maxValid r) else Some r)"

definition BytesToUnbiasedMod :: "bytes \<Rightarrow> u64 \<Rightarrow> u64 option" where
  "BytesToUnbiasedMod input modulus =
     (if modulus \<le> 1 then Some 0
      else map_option (\<lambda>r. r mod modulus) (unbiased_loop input (max_valid modulus) (input_word input 0)))"

text \<open>
  Further distinct indices from the chain of hashes, as \<open>PackOutputIntoMultiPayloadAndProof\<close>
  and the check of mint requests draw them.
\<close>

partial_function (option) pick_loop :: "crypto_ops \<Rightarrow> u64 \<Rightarrow> bytes \<Rightarrow> u64 list \<Rightarrow> nat \<Rightarrow> u64 list option" where
  "pick_loop c modulus hash picks additional =
     (if additional > 0 then
        Option.bind (BytesToUnbiasedMod (sha3_Sum256 c hash) modulus) (\<lambda>pick.
        if pick \<in> set picks then pick_loop c modulus (sha3_Sum256 c hash) picks additional
        else pick_loop c modulus (sha3_Sum256 c hash) (picks @ [pick]) (additional - 1))
      else Some picks)"

section \<open>Packing\<close>

definition nthE :: "'a list \<Rightarrow> nat \<Rightarrow> 'a result" where
  "nthE xs i = (if i < length xs then Inr (xs ! i) else Inl Panic)"

text \<open>\<open>bits.Len64(uint64(modulo) - 1)\<close>.\<close>

definition num_siblings :: "u64 \<Rightarrow> nat" where
  "num_siblings modn = BitLen (unat (modn - 1))"

definition pack_head :: "merkle_tree \<Rightarrow> nat \<Rightarrow> clock_frame \<Rightarrow> bytes list" where
  "pack_head tree modn frame =
     [Root tree, be_put_uint32 (of_nat modn), be_put_uint64 (FFrameNumber frame)]"

definition pack_pick :: "merkle_tree \<Rightarrow> nat \<Rightarrow> u64 \<Rightarrow> bytes list result" where
  "pack_pick previousTree modn pick =
     (if of_nat modn < pick then Inl (ErrMsg ''proof size mismatch'')
      else bindE (nthE (TreeProofs previousTree) (unat pick)) (\<lambda>p.
           bindE (nthE (Leaves previousTree) (unat pick)) (\<lambda>leaf.
           Inr (Siblings p @ [be_put_uint32 (Path p), leaf]))))"

definition PackOutputIntoPayloadAndProof ::
    "crypto_ops \<Rightarrow> merkle_ops \<Rightarrow> bytes list \<Rightarrow> int \<Rightarrow> clock_frame \<Rightarrow> merkle_tree option \<Rightarrow>
     (merkle_tree \<times> bytes list) result option" where
  "PackOutputIntoPayloadAndProof c m outputs modn frame previousTree =
     (if modn \<noteq> int (length outputs) then Some (Inl (ErrMsg ''mismatch of outputs and prover size''))
      else case mt_New m (sha3_Sum256 c) outputs of
        Inl e \<Rightarrow> Some (Inl e)
      | Inr tree \<Rightarrow>
          (case previousTree of
             None \<Rightarrow> Some (Inr (tree, pack_head tree (nat modn) frame))
           | Some prev \<Rightarrow>
               if int (length (TreeProofs prev)) \<noteq> modn
               then Some (Inr (tree, pack_head tree (nat modn) frame))
               else Option.bind (BytesToUnbiasedMod (sha3_Sum256 c (Output frame)) (of_int modn)) (\<lambda>pick.
                 Some (bindE (pack_pick prev (nat modn) pick) (\<lambda>out.
                   Inr (tree, pack_head tree (nat modn) frame @ out))))))"

definition PackOutputIntoMultiPayloadAndProof ::
    "crypto_ops \<Rightarrow> merkle_ops \<Rightarrow> bytes list \<Rightarrow> int \<Rightarrow> clock_frame \<Rightarrow> merkle_tree option \<Rightarrow>
     (merkle_tree \<times> bytes list) result option" where
  "PackOutputIntoMultiPayloadAndProof c m outputs modn frame previousTree =
     (if modn \<noteq> int (length outputs) then Some (Inl (ErrMsg ''mismatch of outputs and prover size''))
      else case mt_New m (sha3_Sum256 c) outputs of
        Inl e \<Rightarrow> Some (Inl e)
      | Inr tree \<Rightarrow>
          (case previousTree of
             None \<Rightarrow> Some (Inr (tree, pack_head tree (nat modn) frame))
           | Some prev \<Rightarrow>
               if int (length (TreeProofs prev)) \<noteq> modn
               then Some (Inr (tree, pack_head tree (nat modn) frame))
               else
                 let hash = sha3_Sum256 c (Output frame @ Root prev) in
                 Option.bind (BytesToUnbiasedMod hash (of_int modn)) (\<lambda>pick.
                 case pack_pick prev (nat modn) pick of
                   Inl e \<Rightarrow> Some (Inl e)
                 | Inr out \<Rightarrow>
                     Option.bind (pick_loop c (of_int modn) hash [pick] (num_siblings (of_int modn) - 1)) (\<lambda>picks.
                     Some (bindE (mapE (\<lambda>p. nthE (Leaves prev) (unat p)) (tl picks)) (\<lambda>leaves.
                       Inr (tree, pack_head tree (nat modn) frame @ out @ leaves)))))))"

section \<open>Unpacking\<close>

definition unpack_head :: "bytes list \<Rightarrow> (bytes \<times> u32 \<times> u64) result" where
  "unpack_head out =
     (if length out < 3 then Inl (ErrMsg ''output too short, expected at least 3 elements'')
      else bindE (be_uint32 (out ! 1)) (\<lambda>modn.
           bindE (be_uint64 (out ! 2)) (\<lambda>frameNumber. Inr (out ! 0, modn, frameNumber))))"

definition verify_path ::
    "crypto_ops \<Rightarrow> merkle_ops \<Rightarrow> bytes \<Rightarrow> bytes list \<Rightarrow> nat \<Rightarrow> bytes \<Rightarrow> bool result" where
  "verify_path c m previousRoot out numSiblings leaf =
     bindE (nthE out (3 + numSiblings)) (\<lambda>b.
     bindE (be_uint32 b) (\<lambda>path.
     mt_Verify m (sha3_Sum256 c) leaf \<lparr>Siblings = take numSiblings (drop 3 out), Path = path\<rparr> previousRoot))"

definition UnpackAndVerifyOutput ::
    "crypto_ops \<Rightarrow> merkle_ops \<Rightarrow> bytes \<Rightarrow> bytes list \<Rightarrow> (bytes \<times> u32 \<times> u64 \<times> bool) result" where
  "UnpackAndVerifyOutput c m previousRoot out =
     bindE (unpack_head out) (\<lambda>(treeRoot, modn, frameNumber).
     if length out > 3 then
       let numSiblings = num_siblings (ucast modn) in
       if length out \<noteq> 5 + numSiblings then Inl (ErrMsg ''invalid number of proof elements'')
       else bindE (verify_path c m previousRoot out numSiblings (last out)) (\<lambda>verified.
            Inr (treeRoot, modn, frameNumber, verified))
     else Inr (treeRoot, modn, frameNumber, True))"

definition UnpackAndVerifyMultiOutput ::
    "crypto_ops \<Rightarrow> merkle_ops \<Rightarrow> bytes \<Rightarrow> bytes list \<Rightarrow> (bytes \<times> u32 \<times> u64 \<times> bool) result" where
  "UnpackAndVerifyMultiOutput c m previousRoot out =
     bindE (unpack_head out) (\<lambda>(treeRoot, modn, frameNumber).
     if length out > 3 then
       let numSiblings = num_siblings (ucast modn);
           total = numSiblings + (numSiblings - 1) in
       if length out \<noteq> 5 + total then Inl (ErrMsg ''invalid number of proof elements'')
       else bindE (nthE out (4 + numSiblings)) (\<lambda>leaf.
            bindE (verify_path c m previousRoot out numSiblings leaf) (\<lambda>verified.
            Inr (treeRoot, modn, frameNumber, verified)))
     else Inr (treeRoot, modn, frameNumber, True))"

section \<open>Drawing indices\<close>

lemma max_valid_unat:
  assumes "0 < modulus"
  shows "unat (max_valid modulus) = (2 ^ 64 - 1) div unat modulus * unat modulus"
proof -
  have "(- 1 :: u64) mod modulus \<le> - 1" by simp
  then have "unat (max_valid modulus) = unat (- 1 :: u64) - unat ((- 1 :: u64) mod modulus)"
    unfolding max_valid_def by (rule unat_sub)
  also have "\<dots> = (2 ^ 64 - 1) - (2 ^ 64 - 1) mod unat modulus"
    by (simp only: unat_mod unsigned_minus_1_eq_mask mask_eq_exp_minus_1) simp
  finally show ?thesis by (simp add: minus_mod_eq_div_mult)
qed

lemma unbiased_loop_returns: "r \<le> maxValid \<Longrightarrow> unbiased_loop input maxValid r = Some r"
  by (subst unbiased_loop.simps) (auto dest: leD)

lemma unbiased_loop_result: "unbiased_loop input maxValid r = Some x \<Longrightarrow> x \<le> maxValid"
  by (rule unbiased_loop.raw_induct [where P = "\<lambda>input maxValid r x. x \<le> maxValid", rotated])
    (auto split: if_splits simp: linorder_not_less)

lemma unbiased_mod_less:
  assumes "BytesToUnbiasedMod input modulus = Some r" "0 < modulus"
  shows "r < modulus"
proof (cases "modulus \<le> 1")
  case True
  then show ?thesis using assms by (simp add: BytesToUnbiasedMod_def)
next
  case False
  then show ?thesis using assms
    by (auto simp: BytesToUnbiasedMod_def word_less_nat_alt unat_mod intro!: mod_less_divisor)
qed

lemma unbiased_mod_first:
  assumes "0 < modulus" "input_word input 0 \<le> max_valid modulus"
  shows "BytesToUnbiasedMod input modulus = Some (input_word input 0 mod modulus)"
proof (cases "modulus \<le> 1")
  case True
  then have "modulus = 1" using assms by (auto simp: word_le_nat_alt word_less_nat_alt intro!: word_unat_eq_iff [THEN iffD2])
  then show ?thesis by (simp add: BytesToUnbiasedMod_def)
next
  case False
  then show ?thesis using assms by (simp add: BytesToUnbiasedMod_def unbiased_loop_returns)
qed

text \<open>\<open>drawn c m h xs\<close>: the indices drawn from the hashes that follow \<open>h\<close> are \<open>xs\<close>.\<close>

fun drawn :: "crypto_ops \<Rightarrow> u64 \<Rightarrow> bytes \<Rightarrow> u64 list \<Rightarrow> bool" where
  "drawn c modulus h [] \<longleftrightarrow> True"
| "drawn c modulus h (x # xs) \<longleftrightarrow>
     BytesToUnbiasedMod (sha3_Sum256 c h) modulus = Some x \<and> drawn c modulus (sha3_Sum256 c h) xs"

lemma pick_loop_returns:
  assumes "drawn c modulus h xs" "distinct picks" "length picks + additional \<le> card (set picks \<union> set xs)"
  shows "\<exists>ps. pick_loop c modulus h picks additional = Some (picks @ ps) \<and> distinct (picks @ ps) \<and>
     length ps = additional \<and> set ps \<subseteq> set xs"
  using assms
proof (induction xs arbitrary: h picks additional)
  case Nil
  then have "additional = 0" by (simp add: distinct_card)
  then show ?case using Nil by (subst pick_loop.simps) simp
next
  case (Cons x xs)
  show ?case
  proof (cases "additional = 0")
    case True
    then show ?thesis using Cons.prems by (subst pick_loop.simps) simp
  next
    case False
    let ?h = "sha3_Sum256 c h"
    have x: "BytesToUnbiasedMod ?h modulus = Some x" and d: "drawn c modulus ?h xs" using Cons.prems by auto
    show ?thesis
    proof (cases "x \<in> set picks")
      case True
      have step: "pick_loop c modulus h picks additional = pick_loop c modulus ?h picks additional"
        using False True x by (subst pick_loop.simps) simp
      have "length picks + additional \<le> card (set picks \<union> set xs)"
        using Cons.prems(3) True by (simp add: insert_absorb)
      from Cons.IH [OF d Cons.prems(2) this] show ?thesis unfolding step by auto
    next
      case new: False
      have step: "pick_loop c modulus h picks additional = pick_loop c modulus ?h (picks @ [x]) (additional - 1)"
        using False new x by (subst pick_loop.simps) simp
      have "length (picks @ [x]) + (additional - 1) \<le> card (set (picks @ [x]) \<union> set xs)"
        using Cons.prems(3) False by simp
      moreover have "distinct (picks @ [x])" using Cons.prems(2) new by simp
      ultimately obtain ps where "pick_loop c modulus ?h (picks @ [x]) (additional - 1) = Some ((picks @ [x]) @ ps)"
        "distinct ((picks @ [x]) @ ps)" "length ps = additional - 1" "set ps \<subseteq> set xs"
        using Cons.IH [OF d] by blast
      then show ?thesis unfolding step using False by (intro exI [of _ "x # ps"]) auto
    qed
  qed
qed

text \<open>
  With a modulus of 0 or 1 the only index is 0: drawing another one never ends. \<open>bits.Len64\<close>
  of \<open>0 - 1\<close> is 64, so the verifier asks for 63 further indices when the prover count is 0.
\<close>

lemma pick_loop_diverges:
  assumes "modulus \<le> 1" "0 < additional" "0 \<in> set picks"
  shows "pick_loop c modulus h picks additional = None"
proof -
  have "\<not> (modulus \<le> 1 \<and> 0 < additional \<and> 0 \<in> set picks)"
    if "pick_loop c modulus h picks additional = Some ps" for ps
  proof (rule pick_loop.raw_induct [where P = "\<lambda>c modulus h picks additional ps.
      \<not> (modulus \<le> 1 \<and> 0 < additional \<and> 0 \<in> set picks)", OF _ that])
    fix loop c modulus h picks additional ps
    assume IH: "\<And>c modulus h picks additional ps. loop c modulus h picks additional = Some ps \<Longrightarrow>
        \<not> (modulus \<le> 1 \<and> 0 < additional \<and> (0 :: u64) \<in> set picks)"
      and body: "(if 0 < additional
        then Option.bind (BytesToUnbiasedMod (sha3_Sum256 c h) modulus) (\<lambda>pick.
          if pick \<in> set picks then loop c modulus (sha3_Sum256 c h) picks additional
          else loop c modulus (sha3_Sum256 c h) (picks @ [pick]) (additional - 1))
        else Some picks) = Some ps"
    show "\<not> (modulus \<le> 1 \<and> 0 < additional \<and> 0 \<in> set picks)"
    proof
      assume a: "modulus \<le> 1 \<and> 0 < additional \<and> 0 \<in> set picks"
      then have "loop c modulus (sha3_Sum256 c h) picks additional = Some ps"
        using body by (simp add: BytesToUnbiasedMod_def)
      from IH [OF this] a show False by simp
    qed
  qed
  then show ?thesis using assms by (cases "pick_loop c modulus h picks additional") auto
qed

lemma num_siblings_0: "num_siblings 0 = 64"
proof -
  have "unat (0 - 1 :: u64) = 2 ^ 64 - 1" by (simp add: unsigned_minus_1_eq_mask mask_eq_exp_minus_1)
  moreover have "BitLen (2 ^ n - 1) = n" for n
  proof (induction n)
    case (Suc n)
    have "(2 ^ Suc n - 1) div 2 = (2 ^ n - 1 :: nat)" by simp
    moreover have "(2 :: nat) ^ Suc n - 1 \<noteq> 0" using one_le_power [of "2 :: nat" n] unfolding power_Suc by linarith
    ultimately show ?case using Suc by (subst BitLen.simps) simp
  qed (simp add: BitLen.simps)
  ultimately show ?thesis by (simp only: num_siblings_def)
qed

lemma drawn_less: "drawn c modulus h xs \<Longrightarrow> 0 < modulus \<Longrightarrow> x \<in> set xs \<Longrightarrow> x < modulus"
  by (induction xs arbitrary: h) (auto dest: unbiased_mod_less)

section \<open>Packed proofs\<close>

text \<open>
  What the node relies on of the Merkle package: a tree keeps its leaves (hashing of leaves is
  off), has one proof per leaf, with as many siblings as the tree has levels, and each proof
  verifies against the root.
\<close>

definition merkle_laws :: "merkle_ops \<Rightarrow> (bytes \<Rightarrow> bytes) \<Rightarrow> bool" where
  "merkle_laws m h \<longleftrightarrow> (\<forall>ls tree. mt_New m h ls = Inr tree \<longrightarrow>
     Leaves tree = ls \<and> length (TreeProofs tree) = length ls \<and>
     (\<forall>i. i < length ls \<longrightarrow> length (Siblings (TreeProofs tree ! i)) = num_siblings (of_nat (length ls)) \<and>
        mt_Verify m h (ls ! i) (TreeProofs tree ! i) (Root tree) = Inr True))"

lemma merkle_lawsD:
  assumes "merkle_laws m h" "mt_New m h ls = Inr tree"
  shows "Leaves tree = ls" "length (TreeProofs tree) = length ls"
    "i < length ls \<Longrightarrow> length (Siblings (TreeProofs tree ! i)) = num_siblings (of_nat (length ls))"
    "i < length ls \<Longrightarrow> mt_Verify m h (ls ! i) (TreeProofs tree ! i) (Root tree) = Inr True"
  using assms unfolding merkle_laws_def by blast+

lemma be_get_put [be_simps]: "be_uint32 (be_put_uint32 v) = Inr v" "be_uint64 (be_put_uint64 w) = Inr w"
  using be_uint32_put [of v "[]"] be_uint64_put [of w "[]"] by simp_all

lemma ucast_of_nat_u32: "n < 2 ^ 32 \<Longrightarrow> (ucast (of_nat n :: u32) :: u64) = of_nat n"
  by (rule word_unat_eq_iff [THEN iffD2]) (simp add: unat_of_nat take_bit_eq_mod unsigned_ucast_eq)

lemma unpack_head_pack:
  "unpack_head (pack_head tree n frame @ out) = Inr (Root tree, of_nat n, FFrameNumber frame)"
  by (simp add: unpack_head_def pack_head_def be_get_put)

lemma verify_path_pack:
  assumes "length hd3 = 3" "length (Siblings p) = n"
  shows "verify_path c m root (hd3 @ Siblings p @ [be_put_uint32 (Path p), leaf] @ rest) n leaf =
     mt_Verify m (sha3_Sum256 c) leaf p root"
  using assms
  by (cases p) (simp add: verify_path_def nthE_def nth_append be_get_put)

lemma pack_pick_prev:
  assumes "merkle_laws m h" "mt_New m h old = Inr prev" "pick < of_nat (length old)" "length old < 2 ^ 32"
  obtains p where "pack_pick prev (length old) pick = Inr (Siblings p @ [be_put_uint32 (Path p), old ! unat pick])"
    "length (Siblings p) = num_siblings (of_nat (length old))"
    "mt_Verify m h (old ! unat pick) p (Root prev) = Inr True" "unat pick < length old"
proof -
  have "unat pick < length old"
    using assms(3,4) by (simp add: word_less_nat_alt unat_of_nat)
  then show ?thesis
    using that [of "TreeProofs prev ! unat pick"] merkle_lawsD [OF assms(1,2)] assms(3)
    by (simp add: pack_pick_def nthE_def order.asym)
qed

section \<open>Properties\<close>

text \<open>
  C33: for a positive modulus, the index drawn is below the modulus; it is the first word of the
  hash modulo the modulus unless that word is above \<open>maxValid\<close>, which holds of fewer than
  \<open>modulus\<close> of the words, and only in that case can the loop run forever.
\<close>

theorem unbiased_mod_range:
  assumes "0 < modulus"
  shows "(case BytesToUnbiasedMod input modulus of
       Some r \<Rightarrow> r < modulus
     | None \<Rightarrow> input_word input 0 > max_valid modulus) \<and>
    (input_word input 0 \<le> max_valid modulus \<longrightarrow>
       BytesToUnbiasedMod input modulus = Some (input_word input 0 mod modulus)) \<and>
    2 ^ 64 - 1 - unat (max_valid modulus) < unat modulus"
proof -
  note ret = unbiased_mod_first [OF assms]
  have c: "case BytesToUnbiasedMod input modulus of
       Some r \<Rightarrow> r < modulus
     | None \<Rightarrow> input_word input 0 > max_valid modulus"
    using ret unbiased_mod_less [OF _ assms] by (auto simp: linorder_not_le [symmetric] split: option.split)
  have "unat modulus > 0" using assms by (simp add: word_less_nat_alt)
  then have "(2 ^ 64 - 1) mod unat modulus < unat modulus" by simp
  moreover have "(2 ^ 64 - 1 :: nat) = (2 ^ 64 - 1) div unat modulus * unat modulus + (2 ^ 64 - 1) mod unat modulus"
    by simp
  ultimately have "2 ^ 64 - 1 - unat (max_valid modulus) < unat modulus"
    unfolding max_valid_unat [OF assms] by linarith
  then show ?thesis using c ret by blast
qed

lemma unbiased_mod_range_witness:
  "0 < (7 :: u64) \<and> BytesToUnbiasedMod (be_put_uint64 20 @ replicate 24 1) 7 = Some 6"
proof -
  let ?i = "be_put_uint64 20 @ replicate 24 1"
  have i: "input_word ?i 0 = 20" by (simp add: input_word_def be_put_uint64_def nat_of_be_of_nat)
  have "unat (input_word ?i 0) \<le> unat (max_valid 7)"
    unfolding i by (subst max_valid_unat) simp_all
  then have "input_word ?i 0 \<le> max_valid 7" by (simp only: word_le_nat_alt)
  then have "BytesToUnbiasedMod ?i 7 = Some (20 mod 7)" using unbiased_mod_range [of 7 ?i] i by simp
  then show ?thesis by simp
qed

text \<open>
  A proof that a prover packs in the combined format for its current outputs, from the tree of its
  previous ones, unpacks to the new root, the number of provers and the frame number, and verifies against
  the previous root; the leaves at its end are those at the indices the verifier draws.
  Packing returns when the hashes that follow the first give enough distinct indices. Both
  trees have the same number of leaves, at least 2 and below \<open>2 ^ 32\<close>.
\<close>

lemma pack_then_unpack_multi:
  fixes c :: crypto_ops and m :: merkle_ops
  assumes laws: "merkle_laws m (sha3_Sum256 c)"
    and new: "mt_New m (sha3_Sum256 c) outputs = Inr tree"
    and old: "mt_New m (sha3_Sum256 c) old = Inr prev"
    and len: "length old = length outputs" "2 \<le> length outputs" "length outputs < 2 ^ 32"
    and n: "n = of_nat (length outputs)"
    and hash: "hash = sha3_Sum256 c (Output frame @ Root prev)"
    and pick: "BytesToUnbiasedMod hash n = Some pick"
    and drawn: "drawn c n hash xs" "num_siblings n \<le> card (insert pick (set xs))"
  shows "\<exists>out ps. PackOutputIntoMultiPayloadAndProof c m outputs (int (length outputs)) frame (Some prev) =
       Some (Inr (tree, out)) \<and>
     UnpackAndVerifyMultiOutput c m (Root prev) out =
       Inr (Root tree, of_nat (length outputs), FFrameNumber frame, True) \<and> length out = 4 + 2 * num_siblings n \<and>
     pick_loop c n hash [pick] (num_siblings n - 1) = Some ps \<and>
     drop (length out - num_siblings n) out = map (\<lambda>p. old ! unat p) ps"
proof -
  let ?k = "num_siblings n"
  have n0: "0 < n" "1 < n" using len unfolding n by (auto simp: word_less_nat_alt unat_of_nat)
  have k: "0 < ?k"
  proof -
    have "unat (n - 1) \<noteq> 0" using n0(2) by (simp add: unat_eq_0)
    then show ?thesis unfolding num_siblings_def by (subst BitLen.simps) simp
  qed
  have lt: "pick < of_nat (length old)" using unbiased_mod_less [OF pick n0(1)] len(1) n by simp
  from pack_pick_prev [OF laws old lt] len obtain p where
    p: "pack_pick prev (length outputs) pick = Inr (Siblings p @ [be_put_uint32 (Path p), old ! unat pick])"
      "length (Siblings p) = ?k" "mt_Verify m (sha3_Sum256 c) (old ! unat pick) p (Root prev) = Inr True"
    unfolding n by metis
  obtain ps where ps: "pick_loop c n hash [pick] (?k - 1) = Some ([pick] @ ps)" "length ps = ?k - 1" "set ps \<subseteq> set xs"
    using pick_loop_returns [OF drawn(1), of "[pick]" "?k - 1"] drawn(2) k by auto
  have "\<forall>q \<in> set ps. unat q < length old"
    using ps(3) drawn_less [OF drawn(1) n0(1)] len unfolding n by (auto simp: word_less_nat_alt unat_of_nat)
  then have leaves: "mapE (\<lambda>p. nthE (Leaves prev) (unat p)) ps = Inr (map (\<lambda>p. old ! unat p) ps)"
    unfolding merkle_lawsD(1) [OF laws old] by (induction ps) (auto simp: nthE_def)
  let ?head = "pack_head tree (length outputs) frame"
  let ?out = "?head @ Siblings p @ [be_put_uint32 (Path p), old ! unat pick] @ map (\<lambda>p. old ! unat p) ps"
  have "PackOutputIntoMultiPayloadAndProof c m outputs (int (length outputs)) frame (Some prev) = Some (Inr (tree, ?out))"
    using new pick p(1) ps leaves merkle_lawsD(2) [OF laws old] len(1) unfolding n hash
    by (simp add: PackOutputIntoMultiPayloadAndProof_def Let_def)
  moreover have hd3: "length ?head = 3" by (simp add: pack_head_def)
  have u: "(ucast (of_nat (length outputs) :: u32) :: u64) = of_nat (length outputs)"
    by (rule ucast_of_nat_u32 [OF len(3)])
  have "UnpackAndVerifyMultiOutput c m (Root prev) ?out =
       Inr (Root tree, of_nat (length outputs), FFrameNumber frame, True)"
    using verify_path_pack [OF hd3 p(2), of c m "Root prev" "old ! unat pick" "map (\<lambda>p. old ! unat p) ps"] p ps(2) k hd3
    unfolding n
    by (simp add: UnpackAndVerifyMultiOutput_def unpack_head_pack u Let_def nthE_def nth_append)
  moreover have "drop (length ?out - ?k) ?out = map (\<lambda>p. old ! unat p) ([pick] @ ps)" "length ?out = 4 + 2 * ?k"
    using p(2) ps(2) k hd3 by simp_all
  ultimately show ?thesis using ps(1) by blast
qed

definition sample_merkle :: merkle_ops where
  "sample_merkle = \<lparr>
     mt_New = (\<lambda>h ls. case ls of
         [x, y] \<Rightarrow> Inr \<lparr>Root = h (x @ y), Leaves = ls, TreeProofs = [\<lparr>Siblings = [y], Path = 0\<rparr>, \<lparr>Siblings = [x], Path = 1\<rparr>]\<rparr>
       | _ \<Rightarrow> Inl (ErrMsg ''size'')),
     mt_Verify = (\<lambda>h lf p root. Inr (root = h (if Path p = 0 then lf @ concat (Siblings p) else concat (Siblings p) @ lf)))\<rparr>"

lemma num_siblings_2: "num_siblings 2 = 1"
  by (simp add: num_siblings_def BitLen.simps)

lemma be_of_nat_leading: "x < 256 ^ n \<Longrightarrow> be_of_nat (k + n) x = replicate k 0 @ be_of_nat n x"
proof (induction k)
  case (Suc k)
  have "x < 256 ^ (k + n)" using Suc.prems by (rule less_le_trans) simp
  then show ?case using Suc by simp
qed simp

lemma nat_of_be_zeros: "nat_of_be (replicate k 0) = 0"
  by (induction k) simp_all

lemma sample_merkle_laws: "merkle_laws sample_merkle h"
proof -
  have "mt_New sample_merkle h ls = Inr tree \<Longrightarrow> \<exists>x y. ls = [x, y]" for ls tree
    by (auto simp: sample_merkle_def split: list.splits)
  then show ?thesis unfolding merkle_laws_def
    by (fastforce simp: sample_merkle_def num_siblings_2 less_Suc_eq)
qed

definition sample_frame :: clock_frame where
  "sample_frame = \<lparr>FFilter = [], FFrameNumber = 5, FTimestamp = 0, FDifficulty = 1, ParentSelector = [],
     Input = [], Output = [], AggregateProofs = [], FSignature = None\<rparr>"

text \<open>
  C32: a proof that a prover packs in the single format, from the tree of its previous outputs,
  unpacks to the new root, the number of provers and the frame number and verifies against the
  previous root, whenever the draw of the index returns; without a previous tree the proof is the
  three header elements, and verifies against anything.
\<close>

theorem pack_then_unpack:
  fixes c :: crypto_ops and m :: merkle_ops
  assumes laws: "merkle_laws m (sha3_Sum256 c)"
    and new: "mt_New m (sha3_Sum256 c) outputs = Inr tree"
    and old: "mt_New m (sha3_Sum256 c) old = Inr prev"
    and len: "length old = length outputs" "2 \<le> length outputs" "length outputs < 2 ^ 32"
    and pick: "BytesToUnbiasedMod (sha3_Sum256 c (Output frame)) (of_nat (length outputs)) = Some pick"
  shows "(\<exists>out. PackOutputIntoPayloadAndProof c m outputs (int (length outputs)) frame (Some prev) = Some (Inr (tree, out)) \<and>
       UnpackAndVerifyOutput c m (Root prev) out =
         Inr (Root tree, of_nat (length outputs), FFrameNumber frame, True) \<and> last out = old ! unat pick) \<and>
     (\<exists>out. PackOutputIntoPayloadAndProof c m outputs (int (length outputs)) frame None = Some (Inr (tree, out)) \<and>
       UnpackAndVerifyOutput c m root out = Inr (Root tree, of_nat (length outputs), FFrameNumber frame, True))"
proof
  let ?n = "of_nat (length outputs) :: u64"
  let ?k = "num_siblings ?n"
  let ?head = "pack_head tree (length outputs) frame"
  have hd3: "length ?head = 3" by (simp add: pack_head_def)
  have n0: "0 < ?n" using len by (auto simp: word_less_nat_alt unat_of_nat)
  have lt: "pick < of_nat (length old)" using unbiased_mod_less [OF pick n0] len(1) by simp
  from pack_pick_prev [OF laws old lt] len obtain p where
    p: "pack_pick prev (length outputs) pick = Inr (Siblings p @ [be_put_uint32 (Path p), old ! unat pick])"
      "length (Siblings p) = ?k" "mt_Verify m (sha3_Sum256 c) (old ! unat pick) p (Root prev) = Inr True"
    by metis
  let ?out = "?head @ Siblings p @ [be_put_uint32 (Path p), old ! unat pick]"
  have "PackOutputIntoPayloadAndProof c m outputs (int (length outputs)) frame (Some prev) = Some (Inr (tree, ?out))"
    using new pick p(1) merkle_lawsD(2) [OF laws old] len(1)
    by (simp add: PackOutputIntoPayloadAndProof_def Let_def)
  moreover have u: "(ucast (of_nat (length outputs) :: u32) :: u64) = of_nat (length outputs)"
    by (rule ucast_of_nat_u32 [OF len(3)])
  have "UnpackAndVerifyOutput c m (Root prev) ?out =
       Inr (Root tree, of_nat (length outputs), FFrameNumber frame, True)"
    using verify_path_pack [OF hd3 p(2), of c m "Root prev" "old ! unat pick" "[]"] p hd3
    by (simp add: UnpackAndVerifyOutput_def unpack_head_pack u Let_def)
  moreover have "last ?out = old ! unat pick" by simp
  ultimately show "\<exists>out. PackOutputIntoPayloadAndProof c m outputs (int (length outputs)) frame (Some prev) = Some (Inr (tree, out)) \<and>
       UnpackAndVerifyOutput c m (Root prev) out =
         Inr (Root tree, of_nat (length outputs), FFrameNumber frame, True) \<and> last out = old ! unat pick"
    by blast
  have "PackOutputIntoPayloadAndProof c m outputs (int (length outputs)) frame None = Some (Inr (tree, ?head))"
    using new by (simp add: PackOutputIntoPayloadAndProof_def)
  moreover have "UnpackAndVerifyOutput c m root ?head = Inr (Root tree, of_nat (length outputs), FFrameNumber frame, True)"
    using unpack_head_pack [of tree "length outputs" frame "[]"] hd3 by (simp add: UnpackAndVerifyOutput_def)
  ultimately show "\<exists>out. PackOutputIntoPayloadAndProof c m outputs (int (length outputs)) frame None = Some (Inr (tree, out)) \<and>
       UnpackAndVerifyOutput c m root out = Inr (Root tree, of_nat (length outputs), FFrameNumber frame, True)"
    by blast
qed

lemma sample_trees:
  obtains tree where "mt_New sample_merkle h [x, y] = Inr tree" "Root tree = h (x @ y)"
  by (simp add: sample_merkle_def)

lemma sample_hash_word:
  assumes "sum_list (map unat b) < 256"
  shows "input_word (sha3_Sum256 sample_crypto b) 0 = 0"
proof -
  have "sha3_Sum256 sample_crypto b = replicate 31 0 @ be_of_nat 1 (sum_list (map unat b))"
    using be_of_nat_leading [of "sum_list (map unat b)" 1 31] assms by (simp add: sample_crypto_def)
  then show ?thesis by (simp add: input_word_def nat_of_be_zeros)
qed

lemma pack_then_unpack_witness:
  "\<exists>tree prev out. PackOutputIntoPayloadAndProof sample_crypto sample_merkle [[1], [2]] (int 2) sample_frame (Some prev) =
       Some (Inr (tree, out)) \<and>
     UnpackAndVerifyOutput sample_crypto sample_merkle (Root prev) out = Inr (Root tree, of_nat 2, 5, True) \<and>
     last out = [3]"
proof -
  let ?h = "sha3_Sum256 sample_crypto"
  obtain tree where t1: "mt_New sample_merkle ?h [[1], [2]] = Inr tree" by (rule sample_trees)
  obtain prev where t2: "mt_New sample_merkle ?h [[3], [4]] = Inr prev" by (rule sample_trees)
  have b: "BytesToUnbiasedMod (?h (Output sample_frame)) (of_nat (length [[1] :: bytes, [2]])) = Some 0"
    using unbiased_mod_first [of 2 "?h []"] sample_hash_word [of "[]"] by (simp add: sample_frame_def)
  have "\<exists>out. PackOutputIntoPayloadAndProof sample_crypto sample_merkle [[1], [2]] (int (length [[1] :: bytes, [2]]))
       sample_frame (Some prev) = Some (Inr (tree, out)) \<and>
     UnpackAndVerifyOutput sample_crypto sample_merkle (Root prev) out =
       Inr (Root tree, of_nat (length [[1] :: bytes, [2]]), FFrameNumber sample_frame, True) \<and>
     last out = [[3], [4]] ! unat (0 :: u64)"
    using pack_then_unpack [OF sample_merkle_laws t1 t2 _ _ _ b] by simp
  then show ?thesis by (auto simp: sample_frame_def)
qed

end
