(* ===== verification/TokenHandlers.thy ===== *)
theory TokenHandlers
  imports RollingTrie CoinStore Bloom
begin

text \<open>
  The request handlers of the token application
  (\<open>node/execution/intrinsics/token/application/token_handle_*.go\<close>), except minting. The
  interfaces the application holds (coin store, clock store, frame prover) are the fields of
  \<open>token_application\<close> that the handlers call; \<open>pebble_application\<close> fills the coin store in. A
  handler takes and returns the lock map of the frame and the peer scores it reports, also when
  it fails. Theorems: amounts are conserved, only owners spend, no coin is spent twice in a
  frame.
\<close>

section \<open>State\<close>

record token_application =
  Beacon :: bytes
  TokenOutputs :: "token_output list option"
  Tries :: "rolling_trie list"
  coin_at :: "bytes \<Rightarrow> coin result"
  proofs_of :: "bytes \<Rightarrow> (u64 list \<times> pre_coin_proof list) result option"
  frame_at :: "bytes \<Rightarrow> u64 \<Rightarrow> clock_frame result"
  verify_challenge :: "bytes \<Rightarrow> u32 \<Rightarrow> bytes \<Rightarrow> bool"
  AppDifficulty :: u32

record handler_state =
  lockMap :: "bytes set"
  peerScores :: "(bytes \<times> int) list"

type_synonym handled = "handler_state \<times> token_output list result"

definition PROOF_FRAME_CUTOFF :: u64 where "PROOF_FRAME_CUTOFF = 0"
definition PROOF_FRAME_RING_RESET :: u64 where "PROOF_FRAME_RING_RESET = 0"
definition PROOF_FRAME_RING_RESET_2 :: u64 where "PROOF_FRAME_RING_RESET_2 = 0"
definition PROOF_FRAME_COMBINE_CUTOFF :: u64 where "PROOF_FRAME_COMBINE_CUTOFF = 0"

definition pebble_application ::
    "('d, 't) kvdb_ops \<Rightarrow> coin_codec \<Rightarrow> 'd \<Rightarrow> token_application \<Rightarrow> token_application" where
  "pebble_application k cc d a =
     a\<lparr>coin_at := GetCoinByAddress k cc d None, proofs_of := GetPreCoinProofsForOwner k cc d\<rparr>"

abbreviation invalidE :: "'a result \<Rightarrow> 'a result" where
  "invalidE \<equiv> wrapE ErrInvalidStateTransition"

abbreviation requireE :: "bool \<Rightarrow> unit result" where
  "requireE b \<equiv> guardE b ErrInvalidStateTransition"

text \<open>A handler that locks \<open>ks\<close> when it succeeds and nothing when it fails.\<close>

definition lock_on_success :: "handler_state \<Rightarrow> (bytes list \<times> token_output list) result \<Rightarrow> handled" where
  "lock_on_success st r = (case r of
       Inl e \<Rightarrow> (st, Inl e)
     | Inr (ks, outs) \<Rightarrow> (st\<lparr>lockMap := lockMap st \<union> set ks\<rparr>, Inr outs))"

section \<open>Owners\<close>

definition peer_id :: "crypto_ops \<Rightarrow> bytes \<Rightarrow> bytes result" where
  "peer_id c key = bindE (UnmarshalEd448PublicKey key) (\<lambda>pk. IDFromPublicKey c pk)"

text \<open>The Poseidon hashes of the key and of its peer id.\<close>

definition key_hashes :: "crypto_ops \<Rightarrow> ed448_signature option \<Rightarrow> (nat \<times> nat) result" where
  "key_hashes c sig =
     bindE (derefE sig) (\<lambda>s. bindE (derefE (PublicKey s)) (\<lambda>pk.
     invalidE (bindE (poseidon_HashBytes c (KeyValue pk)) (\<lambda>addr.
       bindE (peer_id c (KeyValue pk)) (\<lambda>peerId.
       bindE (poseidon_HashBytes c peerId) (\<lambda>altAddr. Inr (addr, altAddr)))))))"

definition check_owner :: "coin \<Rightarrow> nat \<Rightarrow> nat \<Rightarrow> unit result" where
  "check_owner coin addr altAddr =
     bindE (derefE (GetImplicitAccount (Owner coin))) (\<lambda>acc.
     bindE (fill_bytes 32 addr) (\<lambda>a.
     if ImplicitAddress acc = a then Inr ()
     else bindE (fill_bytes 32 altAddr) (\<lambda>b. requireE (ImplicitAddress acc = b))))"

text \<open>\<open>for i := range bs { as[i] |= bs[i] }\<close>.\<close>

definition or_bytes :: "bytes \<Rightarrow> bytes \<Rightarrow> bytes result" where
  "or_bytes as bs =
     (if length bs > length as then Inl Panic
      else Inr (map2 (\<lambda>a b. a OR b) (take (length bs) as) bs @ drop (length bs) as))"

section \<open>Coins\<close>

definition handleTransfer ::
    "crypto_ops \<Rightarrow> token_application \<Rightarrow> u64 \<Rightarrow> handler_state \<Rightarrow> transfer_coin_request \<Rightarrow> handled" where
  "handleTransfer c a currentFrameNumber st t = lock_on_success st
     (bindE (invalidE (TransferCoinRequest_Validate c (Some t))) (\<lambda>_.
      bindE (derefE (OfCoin t)) (\<lambda>ofCoin.
      bindE (requireE (CoinAddress ofCoin \<notin> lockMap st)) (\<lambda>_.
      bindE (invalidE (coin_at a (CoinAddress ofCoin))) (\<lambda>coin.
      bindE (key_hashes c (TransferSignature t)) (\<lambda>(addr, altAddr).
      bindE (check_owner coin addr altAddr) (\<lambda>_.
      bindE (fill_bytes 32 addr) (\<lambda>addrBytes.
      bindE (GetBloomFilter c addrBytes 1024 3) (\<lambda>bloom.
      bindE (or_bytes (Intersection coin) bloom) (\<lambda>newIntersection.
      Inr ([CoinAddress ofCoin],
        [OutCoin \<lparr>Amount = Amount coin, Intersection = newIntersection, Owner = ToAccount t\<rparr>,
         DeletedCoin ofCoin])))))))))))"

text \<open>The loop over the amounts of a split: each is below the original.\<close>

fun split_coins :: "coin \<Rightarrow> bytes list \<Rightarrow> (nat \<times> coin list) result" where
  "split_coins coin [] = Inr (0, [])"
| "split_coins coin (amount # amounts) =
     bindE (requireE (nat_of_be amount < nat_of_be (Amount coin))) (\<lambda>_.
     bindE (fill_bytes 32 (nat_of_be amount)) (\<lambda>amountBytes.
     bindE (split_coins coin amounts) (\<lambda>(tot, newCoins).
     Inr (nat_of_be amount + tot,
       \<lparr>Amount = amountBytes, Intersection = Intersection coin, Owner = Owner coin\<rparr> # newCoins))))"

definition handleSplit ::
    "crypto_ops \<Rightarrow> token_application \<Rightarrow> u64 \<Rightarrow> handler_state \<Rightarrow> split_coin_request \<Rightarrow> handled" where
  "handleSplit c a currentFrameNumber st t = lock_on_success st
     (bindE (invalidE (SplitCoinRequest_Validate c (Some t))) (\<lambda>_.
      bindE (derefE (SplitOfCoin t)) (\<lambda>ofCoin.
      bindE (invalidE (coin_at a (CoinAddress ofCoin))) (\<lambda>coin.
      bindE (requireE (CoinAddress ofCoin \<notin> lockMap st)) (\<lambda>_.
      bindE (key_hashes c (SplitSignature t)) (\<lambda>(addr, altAddr).
      bindE (check_owner coin addr altAddr) (\<lambda>_.
      bindE (split_coins coin (Amounts t)) (\<lambda>(tot, newCoins).
      bindE (requireE (nat_of_be (Amount coin) = tot)) (\<lambda>_.
      Inr ([CoinAddress ofCoin], map OutCoin newCoins @ [DeletedCoin ofCoin]))))))))))"

definition merge_addresses :: "bytes set \<Rightarrow> coin_ref option list \<Rightarrow> bytes list result" where
  "merge_addresses locked coins =
     foldE (\<lambda>addresses c.
       bindE (derefE c) (\<lambda>c.
       bindE (requireE (CoinAddress c \<notin> locked \<and> CoinAddress c \<notin> set addresses)) (\<lambda>_.
       Inr (addresses @ [CoinAddress c])))) [] coins"

record merge_acc =
  newTotal :: nat
  newIntersection :: bytes
  mergeOwner :: "account_ref option"
  deleted :: "token_output list"

definition merge_coin :: "token_application \<Rightarrow> nat \<Rightarrow> nat \<Rightarrow> merge_acc \<Rightarrow> coin_ref option \<Rightarrow> merge_acc result" where
  "merge_coin a addr altAddr acc c =
     bindE (derefE c) (\<lambda>c.
     bindE (invalidE (coin_at a (CoinAddress c))) (\<lambda>coin.
     bindE (check_owner coin addr altAddr) (\<lambda>_.
     bindE (or_bytes (newIntersection acc) (Intersection coin)) (\<lambda>inter.
     Inr \<lparr>newTotal = newTotal acc + nat_of_be (Amount coin), newIntersection = inter,
          mergeOwner = Owner coin, deleted = deleted acc @ [DeletedCoin c]\<rparr>))))"

definition handleMerge ::
    "crypto_ops \<Rightarrow> token_application \<Rightarrow> u64 \<Rightarrow> handler_state \<Rightarrow> merge_coin_request \<Rightarrow> handled" where
  "handleMerge c a currentFrameNumber st t = lock_on_success st
     (bindE (invalidE (MergeCoinRequest_Validate c (Some t))) (\<lambda>_.
      bindE (merge_addresses (lockMap st) (Coins t)) (\<lambda>addresses.
      bindE (key_hashes c (MergeSignature t)) (\<lambda>(addr, altAddr).
      bindE (foldE (merge_coin a addr altAddr)
          \<lparr>newTotal = 0, newIntersection = replicate 1024 0, mergeOwner = Some AccountUnset, deleted = []\<rparr>
          (Coins t)) (\<lambda>acc.
      bindE (fill_bytes 32 (newTotal acc)) (\<lambda>amount.
      Inr (addresses,
        OutCoin \<lparr>Amount = amount, Intersection = newIntersection acc, Owner = mergeOwner acc\<rparr> # deleted acc)))))))"

section \<open>Provers\<close>

text \<open>\<open>p.PublicKey.KeyValue\<close> of a signature.\<close>

definition sig_key :: "ed448_signature option \<Rightarrow> bytes result" where
  "sig_key sig = bindE (derefE sig) (\<lambda>s. bindE (derefE (PublicKey s)) (\<lambda>pk. Inr (KeyValue pk)))"

definition getAddressFromSignature :: "crypto_ops \<Rightarrow> ed448_signature option \<Rightarrow> bytes result" where
  "getAddressFromSignature c sig =
     bindE (derefE sig) (\<lambda>s.
     case PublicKey s of
       None \<Rightarrow> Inl (ErrMsg ''invalid data'')
     | Some pk \<Rightarrow> if KeyValue pk = [] then Inl (ErrMsg ''invalid data'') else altAddress c (KeyValue pk))"

definition in_tries :: "token_application \<Rightarrow> bytes \<Rightarrow> bool" where
  "in_tries a address = list_ex (\<lambda>t. Contains t address) (Tries a)"

definition handleAnnounce ::
    "crypto_ops \<Rightarrow> u64 \<Rightarrow> handler_state \<Rightarrow> announce_prover_request \<Rightarrow> handled" where
  "handleAnnounce c currentFrameNumber st t = lock_on_success st
     (bindE (invalidE (AnnounceProverRequest_Validate c (Some t))) (\<lambda>_.
      bindE (foldE (\<lambda>_ p. bindE (sig_key p) (\<lambda>key. requireE (key \<notin> lockMap st))) ()
          (PublicKeySignaturesEd448 t)) (\<lambda>_.
      bindE (guardE (PublicKeySignaturesEd448 t \<noteq> []) Panic) (\<lambda>_.
      bindE (mapE sig_key (tl (PublicKeySignaturesEd448 t))) (\<lambda>ks.
      Inr (ks, if currentFrameNumber \<ge> PROOF_FRAME_CUTOFF then [OutAnnounce t] else []))))))"

definition AddPeerScore :: "handler_state \<Rightarrow> bytes \<Rightarrow> int \<Rightarrow> handler_state" where
  "AddPeerScore st peerId score = st\<lparr>peerScores := peerScores st @ [(peerId, score)]\<rparr>"

definition join_announce ::
    "crypto_ops \<Rightarrow> u64 \<Rightarrow> handler_state \<Rightarrow> announce_prover_join \<Rightarrow> handled" where
  "join_announce c currentFrameNumber st t = (case Announce t of
       None \<Rightarrow> (st, Inr [])
     | Some an \<Rightarrow> map_prod id invalidE (handleAnnounce c currentFrameNumber st an))"

definition handleDataAnnounceProverJoin ::
    "crypto_ops \<Rightarrow> token_application \<Rightarrow> u64 \<Rightarrow> handler_state \<Rightarrow> announce_prover_join \<Rightarrow> handled" where
  "handleDataAnnounceProverJoin c a currentFrameNumber st t =
     (case bindE (requireE (\<not> currentFrameNumber < PROOF_FRAME_CUTOFF)) (\<lambda>_.
           bindE (invalidE (AnnounceProverJoin_Validate c (Some t))) (\<lambda>_.
           bindE (sig_key (PublicKeySignatureEd448 t)) (\<lambda>key.
           bindE (requireE (key \<notin> lockMap st)) (\<lambda>_.
           bindE (getAddressFromSignature c (PublicKeySignatureEd448 t)) (\<lambda>address.
           Inr (key, address)))))) of
        Inl e \<Rightarrow> (st, Inl e)
      | Inr (key, address) \<Rightarrow>
          if FrameNumber t > currentFrameNumber then
            (case peer_id c key of
               Inl e \<Rightarrow> (st, Inl e)
             | Inr peerId \<Rightarrow> (AddPeerScore st peerId (- 100000), Inl ErrInvalidStateTransition))
          else
            (case join_announce c currentFrameNumber st t of
               (st', Inl e) \<Rightarrow> (st', Inl e)
             | (st', Inr outs) \<Rightarrow>
                 (st'\<lparr>lockMap := insert key (lockMap st')\<rparr>,
                  if in_tries a address then Inl (ErrMsg ''in prover trie'')
                  else Inr (outs @ [OutJoin t]))))"

text \<open>
  Leaving, pausing and resuming are the same code over messages of the same shape: validate,
  check the frame number and the lock, lock the key, require the prover to be in a trie.
\<close>

definition prover_checks ::
    "crypto_ops \<Rightarrow> unit result \<Rightarrow> u64 \<Rightarrow> handler_state \<Rightarrow> announce_prover_leave \<Rightarrow> (bytes \<times> bytes) result" where
  "prover_checks c validated currentFrameNumber st t =
     bindE (requireE (\<not> currentFrameNumber < PROOF_FRAME_CUTOFF)) (\<lambda>_.
     bindE (invalidE validated) (\<lambda>_.
     bindE (requireE (\<not> FrameNumber t > currentFrameNumber)) (\<lambda>_.
     bindE (sig_key (PublicKeySignatureEd448 t)) (\<lambda>key.
     bindE (requireE (key \<notin> lockMap st)) (\<lambda>_.
     bindE (getAddressFromSignature c (PublicKeySignatureEd448 t)) (\<lambda>address.
     Inr (key, address)))))))"

definition prover_change ::
    "token_application \<Rightarrow> handler_state \<Rightarrow> (bytes \<times> bytes) result \<Rightarrow> token_output \<Rightarrow> handled" where
  "prover_change a st checks out = (case checks of
       Inl e \<Rightarrow> (st, Inl e)
     | Inr (key, address) \<Rightarrow>
         (st\<lparr>lockMap := insert key (lockMap st)\<rparr>,
          if in_tries a address then Inr [out] else Inl (ErrMsg ''in prover trie'')))"

definition handleDataAnnounceProverLeave ::
    "crypto_ops \<Rightarrow> token_application \<Rightarrow> u64 \<Rightarrow> handler_state \<Rightarrow> announce_prover_leave \<Rightarrow> handled" where
  "handleDataAnnounceProverLeave c a currentFrameNumber st t =
     prover_change a st
       (prover_checks c (AnnounceProverLeave_Validate c (Some t)) currentFrameNumber st t) (OutLeave t)"

definition handleDataAnnounceProverPause ::
    "crypto_ops \<Rightarrow> token_application \<Rightarrow> u64 \<Rightarrow> handler_state \<Rightarrow> announce_prover_pause \<Rightarrow> handled" where
  "handleDataAnnounceProverPause c a currentFrameNumber st t =
     prover_change a st
       (prover_checks c (AnnounceProverPause_Validate c (Some t)) currentFrameNumber st t) (OutPause t)"

definition handleDataAnnounceProverResume ::
    "crypto_ops \<Rightarrow> token_application \<Rightarrow> u64 \<Rightarrow> handler_state \<Rightarrow> announce_prover_resume \<Rightarrow> handled" where
  "handleDataAnnounceProverResume c a currentFrameNumber st t =
     prover_change a st
       (prover_checks c (AnnounceProverResume_Validate c (Some t)) currentFrameNumber st t) (OutResume t)"

text \<open>
  The cases of \<open>ApplyTransitions\<close> that call these handlers; the others (minting, no request)
  are not handled there.
\<close>

definition handle ::
    "crypto_ops \<Rightarrow> token_application \<Rightarrow> u64 \<Rightarrow> handler_state \<Rightarrow> request \<Rightarrow> handled option" where
  "handle c a currentFrameNumber st r = (case r of
       AnnounceR t \<Rightarrow> Some (handleAnnounce c currentFrameNumber st t)
     | Join t \<Rightarrow> Some (handleDataAnnounceProverJoin c a currentFrameNumber st t)
     | Leave t \<Rightarrow> Some (handleDataAnnounceProverLeave c a currentFrameNumber st t)
     | Resume t \<Rightarrow> Some (handleDataAnnounceProverResume c a currentFrameNumber st t)
     | Pause t \<Rightarrow> Some (handleDataAnnounceProverPause c a currentFrameNumber st t)
     | Merge t \<Rightarrow> Some (handleMerge c a currentFrameNumber st t)
     | Split t \<Rightarrow> Some (handleSplit c a currentFrameNumber st t)
     | Transfer t \<Rightarrow> Some (handleTransfer c a currentFrameNumber st t)
     | Mint _ \<Rightarrow> None
     | RequestUnset \<Rightarrow> None)"

section \<open>What the handlers do\<close>

lemma lock_on_success_Inr:
  "lock_on_success st r = (st', Inr outs) \<longleftrightarrow>
     (\<exists>ks. r = Inr (ks, outs) \<and> st' = st\<lparr>lockMap := lockMap st \<union> set ks\<rparr>)"
  by (auto simp: lock_on_success_def split: sum.splits)

lemma lock_on_success_grows: "lock_on_success st r = (st', res) \<Longrightarrow> lockMap st \<subseteq> lockMap st'"
  by (auto simp: lock_on_success_def split: sum.splits)

lemma handleTransfer_success:
  assumes "handleTransfer c a n st t = (st', Inr outs)"
  obtains ofCoin coin inter addr altAddr where
    "TransferCoinRequest_Validate c (Some t) = Inr ()" "OfCoin t = Some ofCoin"
    "CoinAddress ofCoin \<notin> lockMap st" "coin_at a (CoinAddress ofCoin) = Inr coin"
    "key_hashes c (TransferSignature t) = Inr (addr, altAddr)" "check_owner coin addr altAddr = Inr ()"
    "outs = [OutCoin \<lparr>Amount = Amount coin, Intersection = inter, Owner = ToAccount t\<rparr>, DeletedCoin ofCoin]"
    "st' = st\<lparr>lockMap := lockMap st \<union> {CoinAddress ofCoin}\<rparr>"
  using assms unfolding handleTransfer_def lock_on_success_Inr
  by (auto simp: result_simps split: prod.splits)

lemma handleSplit_success:
  assumes "handleSplit c a n st t = (st', Inr outs)"
  obtains ofCoin coin addr altAddr newCoins where
    "SplitCoinRequest_Validate c (Some t) = Inr ()" "SplitOfCoin t = Some ofCoin"
    "CoinAddress ofCoin \<notin> lockMap st" "coin_at a (CoinAddress ofCoin) = Inr coin"
    "key_hashes c (SplitSignature t) = Inr (addr, altAddr)" "check_owner coin addr altAddr = Inr ()"
    "split_coins coin (Amounts t) = Inr (nat_of_be (Amount coin), newCoins)"
    "outs = map OutCoin newCoins @ [DeletedCoin ofCoin]"
    "st' = st\<lparr>lockMap := lockMap st \<union> {CoinAddress ofCoin}\<rparr>"
  using assms unfolding handleSplit_def lock_on_success_Inr
  by (auto simp: result_simps split: prod.splits)

lemma handleMerge_success:
  assumes "handleMerge c a n st t = (st', Inr outs)"
  obtains addresses addr altAddr acc amount where
    "MergeCoinRequest_Validate c (Some t) = Inr ()" "merge_addresses (lockMap st) (Coins t) = Inr addresses"
    "key_hashes c (MergeSignature t) = Inr (addr, altAddr)"
    "foldE (merge_coin a addr altAddr)
       \<lparr>newTotal = 0, newIntersection = replicate 1024 0, mergeOwner = Some AccountUnset, deleted = []\<rparr> (Coins t) = Inr acc"
    "fill_bytes 32 (newTotal acc) = Inr amount"
    "outs = OutCoin \<lparr>Amount = amount, Intersection = newIntersection acc, Owner = mergeOwner acc\<rparr> # deleted acc"
    "st' = st\<lparr>lockMap := lockMap st \<union> set addresses\<rparr>"
  using assms unfolding handleMerge_def lock_on_success_Inr
  by (auto simp: bindE_eq_Inr guardE_eq_Inr wrapE_eq_Inr split: prod.splits)

lemma split_coins_result:
  assumes "split_coins coin amounts = Inr (tot, newCoins)"
  shows "tot = sum_list (map nat_of_be amounts) \<and>
     map (\<lambda>k. nat_of_be (Amount k)) newCoins = map nat_of_be amounts \<and>
     (\<forall>k \<in> set newCoins. Owner k = Owner coin \<and> Intersection k = Intersection coin \<and>
        nat_of_be (Amount k) < nat_of_be (Amount coin))"
  using assms
  by (induction amounts arbitrary: tot newCoins)
    (auto simp: result_simps nat_of_be_of_nat)

lemma merge_addresses_result:
  assumes "merge_addresses locked coins = Inr addresses"
  shows "\<exists>refs. coins = map Some refs \<and> addresses = map CoinAddress refs \<and> distinct addresses \<and>
     set addresses \<inter> locked = {}"
proof -
  let ?f = "\<lambda>addresses c. bindE (derefE c) (\<lambda>c.
       bindE (requireE (CoinAddress c \<notin> locked \<and> CoinAddress c \<notin> set addresses)) (\<lambda>_.
       Inr (addresses @ [CoinAddress c])))"
  have "\<exists>refs. coins = map Some refs \<and> addresses = acc @ map CoinAddress refs \<and> distinct addresses \<and>
     set addresses \<inter> locked = {}"
    if "foldE ?f acc coins = Inr addresses" "distinct acc" "set acc \<inter> locked = {}" for acc
    using that
  proof (induction coins arbitrary: acc)
    case Nil
    then show ?case by simp
  next
    case (Cons x coins)
    from Cons.prems(1) obtain r where r: "x = Some r" "CoinAddress r \<notin> locked" "CoinAddress r \<notin> set acc"
      "foldE ?f (acc @ [CoinAddress r]) coins = Inr addresses"
      by (auto simp: result_simps)
    obtain refs where "coins = map Some refs" "addresses = (acc @ [CoinAddress r]) @ map CoinAddress refs"
      "distinct addresses" "set addresses \<inter> locked = {}"
      using Cons.IH [OF r(4)] r(2,3) Cons.prems(2,3) by auto
    then show ?case using r(1) by (intro exI [of _ "r # refs"]) simp
  qed
  from this [of "[]"] assms show ?thesis by (simp add: merge_addresses_def)
qed

lemma merge_coin_Inr:
  "merge_coin a addr altAddr acc (Some r) = Inr acc' \<longleftrightarrow>
     (\<exists>coin inter. coin_at a (CoinAddress r) = Inr coin \<and> check_owner coin addr altAddr = Inr () \<and>
        or_bytes (newIntersection acc) (Intersection coin) = Inr inter \<and>
        acc' = \<lparr>newTotal = newTotal acc + nat_of_be (Amount coin), newIntersection = inter,
          mergeOwner = Owner coin, deleted = deleted acc @ [DeletedCoin r]\<rparr>)"
  by (auto simp: merge_coin_def bindE_eq_Inr wrapE_eq_Inr)

lemma merge_coins_result:
  assumes "foldE (merge_coin a addr altAddr) acc0 (map Some refs) = Inr acc"
  shows "\<exists>coins. list_all2 (\<lambda>r k. coin_at a (CoinAddress r) = Inr k \<and> check_owner k addr altAddr = Inr ()) refs coins \<and>
     newTotal acc = newTotal acc0 + sum_list (map (\<lambda>k. nat_of_be (Amount k)) coins) \<and>
     deleted acc = deleted acc0 @ map DeletedCoin refs \<and>
     mergeOwner acc = (if coins = [] then mergeOwner acc0 else Owner (last coins))"
  using assms
proof (induction refs arbitrary: acc0)
  case Nil
  then show ?case by simp
next
  case (Cons r refs)
  let ?acc1 = "\<lambda>coin inter. \<lparr>newTotal = newTotal acc0 + nat_of_be (Amount coin), newIntersection = inter,
      mergeOwner = Owner coin, deleted = deleted acc0 @ [DeletedCoin r]\<rparr>"
  from Cons.prems obtain coin inter where
    c1: "coin_at a (CoinAddress r) = Inr coin" "check_owner coin addr altAddr = Inr ()"
    and f: "foldE (merge_coin a addr altAddr) (?acc1 coin inter) (map Some refs) = Inr acc"
    by (auto simp: merge_coin_Inr bindE_eq_Inr)
  from Cons.IH [OF f] obtain coins where
    "list_all2 (\<lambda>r k. coin_at a (CoinAddress r) = Inr k \<and> check_owner k addr altAddr = Inr ()) refs coins"
    "newTotal acc = newTotal acc0 + nat_of_be (Amount coin) + sum_list (map (\<lambda>k. nat_of_be (Amount k)) coins)"
    "deleted acc = deleted acc0 @ DeletedCoin r # map DeletedCoin refs"
    "mergeOwner acc = (if coins = [] then Owner coin else Owner (last coins))"
    by auto
  then show ?case using c1 by (intro exI [of _ "coin # coins"]) simp
qed

section \<open>Spending\<close>

text \<open>
  One step of the loop over the requests. Mint requests and empty ones are not handled in this loop,
  and have no outputs here.
\<close>

definition request_step ::
    "crypto_ops \<Rightarrow> token_application \<Rightarrow> u64 \<Rightarrow> handler_state \<Rightarrow> request \<Rightarrow> handled" where
  "request_step c a n st r = (case handle c a n st r of Some x \<Rightarrow> x | None \<Rightarrow> (st, Inr []))"

definition spent :: "token_output \<Rightarrow> bytes list" where
  "spent o1 = (case o1 of DeletedCoin r \<Rightarrow> [CoinAddress r] | _ \<Rightarrow> [])"

definition created :: "token_output \<Rightarrow> nat" where
  "created o1 = (case o1 of OutCoin k \<Rightarrow> nat_of_be (Amount k) | _ \<Rightarrow> 0)"

definition worth :: "token_application \<Rightarrow> bytes \<Rightarrow> nat" where
  "worth a address = (case coin_at a address of Inr k \<Rightarrow> nat_of_be (Amount k) | Inl _ \<Rightarrow> 0)"

lemma spent_simps [simp]:
  "spent (OutCoin k) = []" "spent (DeletedCoin r) = [CoinAddress r]" "spent (OutAnnounce an) = []"
  "spent (OutJoin j) = []" "spent (OutLeave l) = []" "spent (OutPause l) = []" "spent (OutResume l) = []"
  by (simp_all add: spent_def)

lemma created_simps [simp]:
  "created (OutCoin k) = nat_of_be (Amount k)" "created (DeletedCoin r) = 0" "created (OutAnnounce an) = 0"
  "created (OutJoin j) = 0" "created (OutLeave l) = 0" "created (OutPause l) = 0" "created (OutResume l) = 0"
  by (simp_all add: created_def)

lemma map_created_OutCoin [simp]:
  "map (created \<circ> OutCoin) ks = map (\<lambda>k. nat_of_be (Amount k)) ks" "concat (map (spent \<circ> OutCoin) ks) = []"
  by (induction ks) simp_all

lemma map_DeletedCoin [simp]:
  "sum_list (map (created \<circ> DeletedCoin) refs) = 0" "concat (map (spent \<circ> DeletedCoin) refs) = map CoinAddress refs"
  by (induction refs) simp_all

text \<open>What a handler's success says about coins.\<close>

definition spends_well :: "token_application \<Rightarrow> handler_state \<Rightarrow> handler_state \<Rightarrow> token_output list \<Rightarrow> bool" where
  "spends_well a st st' outs \<longleftrightarrow>
     set (concat (map spent outs)) \<inter> lockMap st = {} \<and> distinct (concat (map spent outs)) \<and>
     set (concat (map spent outs)) \<subseteq> lockMap st' \<and>
     sum_list (map created outs) = sum_list (map (worth a) (concat (map spent outs)))"

lemma spends_nothing: "\<forall>x \<in> set outs. spent x = [] \<and> created x = 0 \<Longrightarrow> spends_well a st st' outs"
  by (induction outs) (auto simp: spends_well_def)

lemma handleTransfer_spends: "handleTransfer c a n st t = (st', Inr outs) \<Longrightarrow> spends_well a st st' outs"
  by (erule handleTransfer_success) (simp add: spends_well_def worth_def)

lemma handleSplit_spends:
  assumes "handleSplit c a n st t = (st', Inr outs)"
  shows "spends_well a st st' outs"
  using assms
proof (rule handleSplit_success)
  fix ofCoin coin addr altAddr newCoins
  assume "CoinAddress ofCoin \<notin> lockMap st" "coin_at a (CoinAddress ofCoin) = Inr coin"
    and "split_coins coin (Amounts t) = Inr (nat_of_be (Amount coin), newCoins)"
    and "outs = map OutCoin newCoins @ [DeletedCoin ofCoin]" "st' = st\<lparr>lockMap := lockMap st \<union> {CoinAddress ofCoin}\<rparr>"
  then show ?thesis using split_coins_result [of coin "Amounts t"] by (simp add: spends_well_def worth_def)
qed

lemma handleMerge_spends:
  assumes "handleMerge c a n st t = (st', Inr outs)"
  shows "spends_well a st st' outs"
  using assms
proof (rule handleMerge_success)
  fix addresses addr altAddr acc amount
  assume ma: "merge_addresses (lockMap st) (Coins t) = Inr addresses"
    and f: "foldE (merge_coin a addr altAddr)
       \<lparr>newTotal = 0, newIntersection = replicate 1024 0, mergeOwner = Some AccountUnset, deleted = []\<rparr> (Coins t) = Inr acc"
    and fb: "fill_bytes 32 (newTotal acc) = Inr amount"
    and outs: "outs = OutCoin \<lparr>Amount = amount, Intersection = newIntersection acc, Owner = mergeOwner acc\<rparr> # deleted acc"
    and st': "st' = st\<lparr>lockMap := lockMap st \<union> set addresses\<rparr>"
  obtain refs where refs: "Coins t = map Some refs" "addresses = map CoinAddress refs" "distinct addresses"
    "set addresses \<inter> lockMap st = {}"
    using merge_addresses_result [OF ma] by blast
  obtain coins where coins: "list_all2 (\<lambda>r k. coin_at a (CoinAddress r) = Inr k \<and> check_owner k addr altAddr = Inr ()) refs coins"
    "newTotal acc = sum_list (map (\<lambda>k. nat_of_be (Amount k)) coins)" "deleted acc = map DeletedCoin refs"
    using merge_coins_result [OF f [unfolded refs(1)]] by auto
  have "map (\<lambda>k. nat_of_be (Amount k)) coins = map (worth a) addresses"
    using coins(1) unfolding refs(2) by (induction rule: list_all2_induct) (simp_all add: worth_def)
  then show ?thesis
    using refs coins(2,3) fill_bytes_value [OF fb] unfolding outs st' by (simp add: spends_well_def)
qed

lemma handleAnnounce_spends: "handleAnnounce c n st t = (st', Inr outs) \<Longrightarrow> spends_well a st st' outs"
  unfolding handleAnnounce_def lock_on_success_Inr
  by (rule spends_nothing) (auto simp: bindE_eq_Inr split: if_splits)

lemma join_announce_outs: "join_announce c n st t = (st', Inr outs) \<Longrightarrow> set outs \<subseteq> range OutAnnounce"
  by (auto simp: join_announce_def handleAnnounce_def lock_on_success_def bindE_eq_Inr wrapE_eq_Inr
      split: option.splits sum.splits if_splits)

lemma handleJoin_spends:
  "handleDataAnnounceProverJoin c a n st t = (st', Inr outs) \<Longrightarrow> spends_well a st st' outs"
  by (rule spends_nothing)
    (fastforce simp: handleDataAnnounceProverJoin_def dest: join_announce_outs split: sum.splits prod.splits if_splits)

lemma prover_change_spends:
  "prover_change a st checks out = (st', Inr outs) \<Longrightarrow> spent out = [] \<Longrightarrow> created out = 0 \<Longrightarrow> spends_well a st st' outs"
  by (rule spends_nothing) (auto simp: prover_change_def split: sum.splits if_splits)

lemma request_step_spends: "request_step c a n st r = (st', Inr outs) \<Longrightarrow> spends_well a st st' outs"
  by (cases r)
    (auto simp: request_step_def handle_def handleDataAnnounceProverLeave_def handleDataAnnounceProverPause_def
      handleDataAnnounceProverResume_def spends_well_def [of _ _ _ "[]"]
      intro: handleTransfer_spends handleSplit_spends handleMerge_spends handleAnnounce_spends handleJoin_spends
        prover_change_spends)

lemma join_announce_grows: "join_announce c n st t = (st', res) \<Longrightarrow> lockMap st \<subseteq> lockMap st'"
  by (cases "Announce t")
    (auto simp: join_announce_def handleAnnounce_def map_prod_def dest: lock_on_success_grows split: prod.splits)

lemma handleJoin_grows: "handleDataAnnounceProverJoin c a n st t = (st', res) \<Longrightarrow> lockMap st \<subseteq> lockMap st'"
  by (fastforce simp: handleDataAnnounceProverJoin_def AddPeerScore_def dest: join_announce_grows
      split: sum.splits prod.splits if_splits)

lemma prover_change_grows: "prover_change a st checks out = (st', res) \<Longrightarrow> lockMap st \<subseteq> lockMap st'"
  by (auto simp: prover_change_def split: sum.splits)

lemma request_step_grows: "request_step c a n st r = (st', res) \<Longrightarrow> lockMap st \<subseteq> lockMap st'"
  by (cases r)
    (auto simp: request_step_def handle_def handleDataAnnounceProverLeave_def handleDataAnnounceProverPause_def
      handleDataAnnounceProverResume_def handleTransfer_def handleSplit_def handleMerge_def handleAnnounce_def
      dest!: lock_on_success_grows handleJoin_grows prover_change_grows)

interpretation th: spending_handler "request_step c a n" lockMap spent created "worth a" for c a n
  by unfold_locales
    (use request_step_spends request_step_grows in \<open>unfold spends_well_def, blast\<close>)+

section \<open>Owners and provers\<close>

text \<open>The two addresses of a key: the hash of the key and the hash of its peer id, in 32 bytes.\<close>

definition addresses_of :: "crypto_ops \<Rightarrow> bytes \<Rightarrow> bytes set" where
  "addresses_of c key =
     {x. bindE (poseidon_HashBytes c key) (fill_bytes 32) = Inr x} \<union> {x. altAddress c key = Inr x}"

lemma check_owner_addresses:
  assumes "key_hashes c sig = Inr (addr, altAddr)" "check_owner coin addr altAddr = Inr ()"
  obtains s pk acc where "sig = Some s" "PublicKey s = Some pk" "GetImplicitAccount (Owner coin) = Some acc"
    "ImplicitAddress acc \<in> addresses_of c (KeyValue pk)"
  using assms
  by (auto simp: key_hashes_def check_owner_def peer_id_def altAddress_def addresses_of_def bindE_eq_Inr wrapE_eq_Inr
      derefE_eq_Inr guardE_eq_Inr split: if_splits)

definition spender_ok :: "crypto_ops \<Rightarrow> token_application \<Rightarrow> request \<Rightarrow> coin_ref \<Rightarrow> bool" where
  "spender_ok c a r ref \<longleftrightarrow> signed_ok c r \<and>
     (\<exists>s pk coin acc. request_signature r = Some s \<and> PublicKey s = Some pk \<and>
        coin_at a (CoinAddress ref) = Inr coin \<and> GetImplicitAccount (Owner coin) = Some acc \<and>
        ImplicitAddress acc \<in> addresses_of c (KeyValue pk))"

lemma transfer_spender:
  "handleTransfer c a n st t = (st', Inr outs) \<Longrightarrow> DeletedCoin ref \<in> set outs \<Longrightarrow> spender_ok c a (Transfer t) ref"
  by (erule handleTransfer_success, erule check_owner_addresses, assumption)
    (auto simp: spender_ok_def Validate_iff)

lemma split_spender:
  "handleSplit c a n st t = (st', Inr outs) \<Longrightarrow> DeletedCoin ref \<in> set outs \<Longrightarrow> spender_ok c a (Split t) ref"
  by (erule handleSplit_success, erule check_owner_addresses, assumption)
    (auto simp: spender_ok_def Validate_iff)

lemma merge_spender:
  assumes "handleMerge c a n st t = (st', Inr outs)" "DeletedCoin ref \<in> set outs"
  shows "spender_ok c a (Merge t) ref"
  using assms(1)
proof (rule handleMerge_success)
  fix addresses addr altAddr acc amount
  assume v: "MergeCoinRequest_Validate c (Some t) = Inr ()"
    and ma: "merge_addresses (lockMap st) (Coins t) = Inr addresses"
    and k: "key_hashes c (MergeSignature t) = Inr (addr, altAddr)"
    and f: "foldE (merge_coin a addr altAddr)
       \<lparr>newTotal = 0, newIntersection = replicate 1024 0, mergeOwner = Some AccountUnset, deleted = []\<rparr> (Coins t) = Inr acc"
    and outs: "outs = OutCoin \<lparr>Amount = amount, Intersection = newIntersection acc, Owner = mergeOwner acc\<rparr> # deleted acc"
  obtain refs where refs: "Coins t = map Some refs" using merge_addresses_result [OF ma] by blast
  obtain coins where coins: "list_all2 (\<lambda>r k. coin_at a (CoinAddress r) = Inr k \<and> check_owner k addr altAddr = Inr ()) refs coins"
    "deleted acc = map DeletedCoin refs"
    using merge_coins_result [OF f [unfolded refs(1)]] by auto
  have "ref \<in> set refs" using assms(2) coins(2) unfolding outs by auto
  then obtain coin where coin: "coin_at a (CoinAddress ref) = Inr coin" "check_owner coin addr altAddr = Inr ()"
    using coins(1) by (auto simp: list_all2_conv_all_nth in_set_conv_nth)
  show ?thesis
    by (rule check_owner_addresses [OF k coin(2)]) (use v coin(1) in \<open>auto simp: spender_ok_def Validate_iff\<close>)
qed

lemma announce_outs: "handleAnnounce c n st t = (st', Inr outs) \<Longrightarrow> set outs \<subseteq> {OutAnnounce t}"
  by (auto simp: handleAnnounce_def lock_on_success_Inr bindE_eq_Inr split: if_splits)

lemma handleJoin_success:
  assumes "handleDataAnnounceProverJoin c a n st t = (st', Inr outs)"
  obtains key address outs1 st1 where
    "AnnounceProverJoin_Validate c (Some t) = Inr ()" "sig_key (PublicKeySignatureEd448 t) = Inr key"
    "key \<notin> lockMap st" "getAddressFromSignature c (PublicKeySignatureEd448 t) = Inr address"
    "FrameNumber t \<le> n" "join_announce c n st t = (st1, Inr outs1)" "\<not> in_tries a address"
    "outs = outs1 @ [OutJoin t]" "st' = st1\<lparr>lockMap := insert key (lockMap st1)\<rparr>"
  using assms
  by (auto simp: handleDataAnnounceProverJoin_def bindE_eq_Inr guardE_eq_Inr wrapE_eq_Inr linorder_not_less
      split: sum.splits prod.splits if_splits)

lemma prover_change_success:
  assumes "prover_change a st (prover_checks c v n st t) out = (st', Inr outs)"
  obtains key address where
    "v = Inr ()" "FrameNumber t \<le> n" "sig_key (PublicKeySignatureEd448 t) = Inr key" "key \<notin> lockMap st"
    "getAddressFromSignature c (PublicKeySignatureEd448 t) = Inr address" "in_tries a address"
    "outs = [out]" "st' = st\<lparr>lockMap := insert key (lockMap st)\<rparr>"
  using assms
  by (auto simp: prover_change_def prover_checks_def bindE_eq_Inr guardE_eq_Inr wrapE_eq_Inr linorder_not_less
      split: sum.splits if_splits)

text \<open>The key whose prover state an output changes.\<close>

definition prover_key :: "token_output \<Rightarrow> bytes list" where
  "prover_key o1 =
     (let key = (\<lambda>sig. case sig_key sig of Inr k \<Rightarrow> [k] | Inl _ \<Rightarrow> []) in
      case o1 of
        OutJoin t \<Rightarrow> key (PublicKeySignatureEd448 t)
      | OutLeave t \<Rightarrow> key (PublicKeySignatureEd448 t)
      | OutPause t \<Rightarrow> key (PublicKeySignatureEd448 t)
      | OutResume t \<Rightarrow> key (PublicKeySignatureEd448 t)
      | _ \<Rightarrow> [])"

definition changes_once :: "handler_state \<Rightarrow> handler_state \<Rightarrow> token_output list \<Rightarrow> bool" where
  "changes_once st st' outs \<longleftrightarrow> concat (map prover_key outs) = [] \<or>
     (\<exists>key. concat (map prover_key outs) = [key] \<and> key \<notin> lockMap st \<and> key \<in> lockMap st')"

lemma changes_onceD:
  assumes "changes_once st st' outs"
  shows "set (concat (map prover_key outs)) \<inter> lockMap st = {}" "distinct (concat (map prover_key outs))"
    "set (concat (map prover_key outs)) \<subseteq> lockMap st'"
  using assms unfolding changes_once_def by (elim disjE exE conjE; simp only: set_simps distinct.simps; blast)+

lemma prover_key_none: "\<forall>x \<in> set outs. prover_key x = [] \<Longrightarrow> changes_once st st' outs"
  by (simp add: changes_once_def)

lemma prover_change_once:
  "prover_change a st (prover_checks c v n st t) out = (st', Inr outs) \<Longrightarrow>
     out \<in> {OutLeave t, OutPause t, OutResume t} \<Longrightarrow> changes_once st st' outs"
  by (erule prover_change_success) (auto simp: changes_once_def prover_key_def)

lemma handleJoin_once:
  assumes "handleDataAnnounceProverJoin c a n st t = (st', Inr outs)"
  shows "changes_once st st' outs"
  using assms
proof (rule handleJoin_success)
  fix key address outs1 st1
  assume "sig_key (PublicKeySignatureEd448 t) = Inr key" "key \<notin> lockMap st" "outs = outs1 @ [OutJoin t]"
    "st' = st1\<lparr>lockMap := insert key (lockMap st1)\<rparr>" and j: "join_announce c n st t = (st1, Inr outs1)"
  moreover have "concat (map prover_key outs1) = []"
    using join_announce_outs [OF j] by (auto simp: prover_key_def)
  ultimately show ?thesis by (simp add: changes_once_def prover_key_def)
qed

abbreviation coin_outputs :: "token_output set" where
  "coin_outputs \<equiv> range OutCoin \<union> range DeletedCoin"

lemma coin_outs:
  "handleTransfer c a n st t = (st', Inr outs) \<Longrightarrow> set outs \<subseteq> coin_outputs"
  "handleSplit c a n st t2 = (st', Inr outs) \<Longrightarrow> set outs \<subseteq> coin_outputs"
  by (erule handleTransfer_success, auto) (erule handleSplit_success, auto)

lemma merge_outs:
  assumes "handleMerge c a n st t = (st', Inr outs)"
  shows "set outs \<subseteq> coin_outputs"
  using assms
proof (rule handleMerge_success)
  fix addresses addr altAddr acc amount
  assume ma: "merge_addresses (lockMap st) (Coins t) = Inr addresses"
    and f: "foldE (merge_coin a addr altAddr)
       \<lparr>newTotal = 0, newIntersection = replicate 1024 0, mergeOwner = Some AccountUnset, deleted = []\<rparr> (Coins t) = Inr acc"
    and outs: "outs = OutCoin \<lparr>Amount = amount, Intersection = newIntersection acc, Owner = mergeOwner acc\<rparr> # deleted acc"
  obtain refs where refs: "Coins t = map Some refs" using merge_addresses_result [OF ma] by blast
  show ?thesis using merge_coins_result [OF f [unfolded refs(1)]] unfolding outs by auto
qed

lemma request_step_cases:
  assumes "request_step c a n st r = (st', Inr outs)"
  obtains (plain) "set outs \<subseteq> coin_outputs \<union> range OutAnnounce"
    | (join) t where "handleDataAnnounceProverJoin c a n st t = (st', Inr outs)"
    | (change) v t out where "prover_change a st (prover_checks c v n st t) out = (st', Inr outs)"
      "out \<in> {OutLeave t, OutPause t, OutResume t}"
proof (cases r)
  case (Transfer t)
  then have "handleTransfer c a n st t = (st', Inr outs)" using assms by (simp add: request_step_def handle_def)
  from coin_outs(1) [OF this] show ?thesis by (intro plain) blast
next
  case (Split t)
  then have "handleSplit c a n st t = (st', Inr outs)" using assms by (simp add: request_step_def handle_def)
  from coin_outs(2) [OF this] show ?thesis by (intro plain) blast
next
  case (Merge t)
  then have "handleMerge c a n st t = (st', Inr outs)" using assms by (simp add: request_step_def handle_def)
  from merge_outs [OF this] show ?thesis by (intro plain) blast
next
  case (AnnounceR t)
  then have "set outs \<subseteq> {OutAnnounce t}" using assms announce_outs by (simp add: request_step_def handle_def)
  then show ?thesis using plain by auto
qed (use assms join plain change in \<open>auto simp: request_step_def handle_def handleDataAnnounceProverLeave_def
      handleDataAnnounceProverPause_def handleDataAnnounceProverResume_def\<close>)

lemma plain_no_prover: "set outs \<subseteq> coin_outputs \<union> range OutAnnounce \<Longrightarrow> changes_once st st' outs"
  by (rule prover_key_none) (auto simp: prover_key_def)

lemma request_step_once: "request_step c a n st r = (st', Inr outs) \<Longrightarrow> changes_once st st' outs"
  by (erule request_step_cases) (auto intro: plain_no_prover handleJoin_once prover_change_once)

interpretation tp: spending_handler "request_step c a n" lockMap prover_key "\<lambda>_. 0" "\<lambda>_. 0" for c a n
  by unfold_locales
    (use request_step_once request_step_grows in \<open>blast dest: changes_onceD\<close>, (use request_step_once in \<open>blast dest: changes_onceD\<close>)+, simp)

section \<open>Properties\<close>


text \<open>
  C7: a coin is spent only by a request whose signature verifies over its contents, under a
  key that owns the coin: the owner of the stored coin is the hash of the key or of its peer id.
\<close>

theorem only_owners_spend:
  assumes "request_step c a n st r = (st', Inr outs)" "DeletedCoin ref \<in> set outs"
  shows "signed_ok c r \<and>
     (\<exists>s pk coin acc. request_signature r = Some s \<and> PublicKey s = Some pk \<and>
        coin_at a (CoinAddress ref) = Inr coin \<and> GetImplicitAccount (Owner coin) = Some acc \<and>
        ImplicitAddress acc \<in> addresses_of c (KeyValue pk))"
proof -
  have "spender_ok c a r ref"
  proof (cases r)
    case (AnnounceR t)
    then have "set outs \<subseteq> {OutAnnounce t}" using assms(1) announce_outs by (simp add: request_step_def handle_def)
    then show ?thesis using assms(2) by auto
  next
    case (Join t)
    then have "handleDataAnnounceProverJoin c a n st t = (st', Inr outs)"
      using assms(1) by (simp add: request_step_def handle_def)
    then show ?thesis using assms(2) join_announce_outs by (elim handleJoin_success) fastforce
  qed (use assms transfer_spender split_spender merge_spender in
      \<open>auto simp: request_step_def handle_def handleDataAnnounceProverLeave_def
        handleDataAnnounceProverPause_def handleDataAnnounceProverResume_def elim!: prover_change_success\<close>)
  then show ?thesis by (simp add: spender_ok_def)
qed

text \<open>The condition under which a prover output is made.\<close>

definition prover_output_ok :: "crypto_ops \<Rightarrow> token_application \<Rightarrow> u64 \<Rightarrow> token_output \<Rightarrow> bool" where
  "prover_output_ok c a n x =
     (let address = (\<lambda>sig P. case getAddressFromSignature c sig of Inr addr \<Rightarrow> P (in_tries a addr) | Inl e \<Rightarrow> False) in
      case x of
        OutJoin t \<Rightarrow> FrameNumber t \<le> n \<and> address (PublicKeySignatureEd448 t) Not
      | OutLeave t \<Rightarrow> FrameNumber t \<le> n \<and> address (PublicKeySignatureEd448 t) id
      | OutPause t \<Rightarrow> FrameNumber t \<le> n \<and> address (PublicKeySignatureEd448 t) id
      | OutResume t \<Rightarrow> FrameNumber t \<le> n \<and> address (PublicKeySignatureEd448 t) id
      | _ \<Rightarrow> True)"

lemma prover_output_ok_other:
  "set outs \<subseteq> coin_outputs \<union> range OutAnnounce \<Longrightarrow> list_all (prover_output_ok c a n) outs"
  by (auto simp: list_all_iff prover_output_ok_def)

lemma request_step_provers:
  assumes "request_step c a n st r = (st', Inr outs)"
  shows "list_all (prover_output_ok c a n) outs"
  using assms
proof (cases rule: request_step_cases)
  case plain
  then show ?thesis by (rule prover_output_ok_other)
next
  case (join t)
  then show ?thesis
  proof (rule handleJoin_success)
    fix key address outs1 st1
    assume a: "\<not> in_tries a address" "FrameNumber t \<le> n"
      "getAddressFromSignature c (PublicKeySignatureEd448 t) = Inr address" "outs = outs1 @ [OutJoin t]"
      and j: "join_announce c n st t = (st1, Inr outs1)"
    have "list_all (prover_output_ok c a n) outs1"
      using join_announce_outs [OF j] by (intro prover_output_ok_other) blast
    then show ?thesis using a by (simp add: prover_output_ok_def)
  qed
next
  case (change v t out)
  then show ?thesis by (elim prover_change_success) (auto simp: prover_output_ok_def)
qed

lemma run_requests_provers:
  "run_requests (request_step c a n) st rs = (st', outs) \<Longrightarrow> list_all (prover_output_ok c a n) outs"
proof (induction rs arbitrary: st outs)
  case (Cons r rs)
  then show ?case using request_step_provers by (fastforce split: prod.splits sum.splits)
qed simp

text \<open>
  C8: over the requests of a frame, a join succeeds only for a prover that is in no trie, and
  leaving, pausing and resuming only for one that is in a trie, never for a later frame; and
  each key changes its prover state at most once.
\<close>

theorem prover_changes:
  "case run_requests (request_step c a n) st rs of (st', outs) \<Rightarrow>
     list_all (prover_output_ok c a n) outs \<and>
     distinct (concat (map prover_key outs)) \<and> set (concat (map prover_key outs)) \<inter> lockMap st = {}"
proof -
  obtain st' outs where run: "run_requests (request_step c a n) st rs = (st', outs)"
    by (cases "run_requests (request_step c a n) st rs")
  show ?thesis
    using tp.run_spends_once [OF run] run_requests_provers [OF run] unfolding run by simp
qed

lemma split_coins_eq:
  assumes "\<forall>x \<in> set amounts. length x \<le> 32"
  shows "split_coins coin amounts =
    (if \<forall>x \<in> set amounts. nat_of_be x < nat_of_be (Amount coin)
     then Inr (sum_list (map nat_of_be amounts),
       map (\<lambda>x. \<lparr>Amount = be_of_nat 32 (nat_of_be x), Intersection = Intersection coin, Owner = Owner coin\<rparr>) amounts)
     else Inl ErrInvalidStateTransition)"
  using assms
proof (induction amounts)
  case (Cons x amounts)
  have "nat_of_be x < 256 ^ length x" by (rule nat_of_be_less)
  also have "(256 :: nat) ^ length x \<le> 256 ^ 32" using Cons.prems by (intro power_increasing) auto
  finally have "fill_bytes 32 (nat_of_be x) = Inr (be_of_nat 32 (nat_of_be x))" by (simp add: fill_bytes_def)
  then show ?case using Cons by (auto simp: guardE_def)
qed simp

text \<open>
  C9: a valid split of an unlocked coin by its owner succeeds exactly when every amount is below
  the amount of the coin and the amounts add up to it; the outputs are one coin per amount, with
  the owner and intersection of the original, and the deletion of the original, which is locked.
  Otherwise it fails and locks nothing.
\<close>

theorem split_outcome:
  assumes "SplitCoinRequest_Validate c (Some t) = Inr ()" "SplitOfCoin t = Some ref"
    and "coin_at a (CoinAddress ref) = Inr coin" "CoinAddress ref \<notin> lockMap st"
    and "key_hashes c (SplitSignature t) = Inr (addr, altAddr)" "check_owner coin addr altAddr = Inr ()"
  shows "handleSplit c a n st t =
    (if (\<forall>x \<in> set (Amounts t). nat_of_be x < nat_of_be (Amount coin)) \<and>
        sum_list (map nat_of_be (Amounts t)) = nat_of_be (Amount coin)
     then (st\<lparr>lockMap := lockMap st \<union> {CoinAddress ref}\<rparr>,
       Inr (map (\<lambda>x. OutCoin \<lparr>Amount = be_of_nat 32 (nat_of_be x), Intersection = Intersection coin, Owner = Owner coin\<rparr>)
          (Amounts t) @ [DeletedCoin ref]))
     else (st, Inl ErrInvalidStateTransition))"
proof -
  have "\<forall>x \<in> set (Amounts t). length x \<le> 32" using assms(1) by (auto simp: Validate_iff)
  from split_coins_eq [OF this, of coin] show ?thesis
    using assms by (auto simp: handleSplit_def lock_on_success_def guardE_def)
qed

end
