(* ===== verification/HandlerSafety.thy ===== *)
theory HandlerSafety
  imports TokenHandlers
begin

text \<open>
  The request handlers do not panic: what they rely on in stored coins and hashes, and that under
  it every request is answered with outputs or an error.
\<close>

section \<open>Panics\<close>

named_theorems no_panic \<open>steps that do not panic\<close>

definition safeE :: "'a result \<Rightarrow> bool" where
  "safeE m \<longleftrightarrow> m \<noteq> Inl Panic"

lemma safeE_simps [simp]: "safeE (Inr x)" "safeE (Inl e) \<longleftrightarrow> e \<noteq> Panic"
  by (simp_all add: safeE_def)

lemma safe_bindE [no_panic]: "safeE m \<Longrightarrow> (\<And>x. m = Inr x \<Longrightarrow> safeE (f x)) \<Longrightarrow> safeE (bindE m f)"
  by (cases m) auto

lemma safe_guardE [no_panic]: "e \<noteq> Panic \<Longrightarrow> safeE (guardE b e)"
  by (simp add: guardE_def)

lemma safe_wrapE [no_panic]: "e \<noteq> Panic \<Longrightarrow> safeE m \<Longrightarrow> safeE (wrapE e m)"
  by (auto simp: wrapE_def split: sum.splits go_err.splits)

lemma safe_derefE [no_panic]: "p \<noteq> None \<Longrightarrow> safeE (derefE p)"
  by (auto simp: derefE_def)

lemma safe_fill_bytes [no_panic]: "x < 256 ^ n \<Longrightarrow> safeE (fill_bytes n x)"
  by (simp add: fill_bytes_def)

lemma safe_foldE:
  assumes "\<And>s x. x \<in> set xs \<Longrightarrow> P s \<Longrightarrow> safeE (f s x)"
    and "\<And>s x s'. x \<in> set xs \<Longrightarrow> P s \<Longrightarrow> f s x = Inr s' \<Longrightarrow> P s'"
    and "P s"
  shows "safeE (foldE f s xs)"
  using assms
proof (induction xs arbitrary: s)
  case (Cons x xs)
  show ?case
  proof (simp, rule safe_bindE)
    show "safeE (f s x)" using Cons.prems by simp
    fix s' assume "f s x = Inr s'"
    then have "P s'" using Cons.prems by (metis list.set_intros(1))
    then show "safeE (foldE f s' xs)" using Cons.IH Cons.prems by (metis list.set_intros(2))
  qed
qed simp

text \<open>
  What the handlers rely on: Poseidon hashes fit in 32 bytes and the external code returns; the
  stored coins have implicit owners, and intersections of 128 to 1024 bytes.
\<close>

definition hashes_ok :: "crypto_ops \<Rightarrow> bool" where
  "hashes_ok c \<longleftrightarrow> (\<forall>b. safeE (poseidon_HashBytes c b) \<and> safeE (marshal_Ed448PublicKey c b)) \<and>
     (\<forall>b h. poseidon_HashBytes c b = Inr h \<longrightarrow> h < 256 ^ 32)"

definition coins_usable :: "token_application \<Rightarrow> bool" where
  "coins_usable a \<longleftrightarrow> (\<forall>address. case coin_at a address of
       Inr k \<Rightarrow> GetImplicitAccount (Owner k) \<noteq> None \<and> 128 \<le> length (Intersection k) \<and> length (Intersection k) \<le> 1024
     | Inl e \<Rightarrow> e \<noteq> Panic)"

lemma coins_usableD:
  assumes "coins_usable a"
  shows "safeE (coin_at a address)"
    "coin_at a address = Inr k \<Longrightarrow> GetImplicitAccount (Owner k) \<noteq> None \<and> 128 \<le> length (Intersection k) \<and>
       length (Intersection k) \<le> 1024"
proof -
  have "case coin_at a address of
       Inr k \<Rightarrow> GetImplicitAccount (Owner k) \<noteq> None \<and> 128 \<le> length (Intersection k) \<and> length (Intersection k) \<le> 1024
     | Inl e \<Rightarrow> e \<noteq> Panic"
    using assms by (simp only: coins_usable_def)
  then show "safeE (coin_at a address)"
    "coin_at a address = Inr k \<Longrightarrow> GetImplicitAccount (Owner k) \<noteq> None \<and> 128 \<le> length (Intersection k) \<and>
       length (Intersection k) \<le> 1024"
    by (simp_all split: sum.splits)
qed

lemma hashes_okD:
  assumes "hashes_ok c"
  shows "safeE (poseidon_HashBytes c b)" "safeE (marshal_Ed448PublicKey c b)" "poseidon_HashBytes c b = Inr h \<Longrightarrow> h < 256 ^ 32"
  using assms unfolding hashes_ok_def by blast+

lemma safe_peer_id: "hashes_ok c \<Longrightarrow> safeE (peer_id c key)"
  by (auto simp: peer_id_def UnmarshalEd448PublicKey_def IDFromPublicKey_def intro!: no_panic hashes_okD)

lemma safe_key_hashes:
  assumes "hashes_ok c" "sig = Some s" "PublicKey s = Some pk"
  shows "safeE (key_hashes c sig)"
  unfolding key_hashes_def assms(2,3) derefE_Some bindE_Inr
  by (intro no_panic hashes_okD [OF assms(1)] safe_peer_id [OF assms(1)]) simp_all

lemma key_hashes_bound:
  "hashes_ok c \<Longrightarrow> key_hashes c sig = Inr (addr, altAddr) \<Longrightarrow> addr < 256 ^ 32 \<and> altAddr < 256 ^ 32"
  by (auto simp: key_hashes_def bindE_eq_Inr wrapE_eq_Inr simp del: power_numeral intro: hashes_okD)

lemma safe_check_owner:
  "GetImplicitAccount (Owner k) \<noteq> None \<Longrightarrow> addr < 256 ^ 32 \<Longrightarrow> altAddr < 256 ^ 32 \<Longrightarrow> safeE (check_owner k addr altAddr)"
  unfolding check_owner_def by (intro no_panic) (auto intro!: no_panic)

lemma or_bytes_length: "or_bytes as bs = Inr cs \<Longrightarrow> length cs = length as"
  by (auto simp: or_bytes_def split: if_splits)

lemma safe_or_bytes: "length bs \<le> length as \<Longrightarrow> safeE (or_bytes as bs)"
  by (simp add: or_bytes_def)

lemma signed_key:
  assumes "signed_ok c r"
  obtains s pk where "request_signature r = Some s" "PublicKey s = Some pk" "KeyValue pk \<noteq> []"
  using assms unfolding signed_ok_def by force

lemma safe_validate:
  "safeE (SplitCoinRequest_Validate c (Some sp))" "safeE (MergeCoinRequest_Validate c (Some me))"
  "safeE (AnnounceProverJoin_Validate c (Some j))" "safeE (AnnounceProverLeave_Validate c (Some l))"
  "safeE (AnnounceProverPause_Validate c (Some l))" "safeE (AnnounceProverResume_Validate c (Some l))"
  "safeE (AnnounceProverRequest_Validate c an)"
  unfolding safeE_def by (rule Split_no_panic Merge_no_panic other_no_panic AnnounceProverRequest_no_panic)+

lemma safe_lock_on_success: "safeE m \<Longrightarrow> safeE (snd (lock_on_success st m))"
  by (cases m) (auto simp: lock_on_success_def split: prod.splits)

lemma bloom_1024:
  obtains bloom where "GetBloomFilter c data 1024 3 = Inr bloom" "length bloom = 128"
  using GetBloomFilter_value(1,3) [of 10 c data 3] by simp

lemma safe_transfer:
  assumes "hashes_ok c" "coins_usable a" "safeE (TransferCoinRequest_Validate c (Some t))"
  shows "safeE (snd (handleTransfer c a n st t))"
  unfolding handleTransfer_def
proof (rule safe_lock_on_success, rule safe_bindE)
  show "safeE (invalidE (TransferCoinRequest_Validate c (Some t)))" using assms(3) by (intro no_panic) simp_all
  fix u assume "invalidE (TransferCoinRequest_Validate c (Some t)) = Inr u"
  then have v: "request_content c (Transfer t)" "signed_ok c (Transfer t)" by (simp_all add: wrapE_eq_Inr Validate_iff)
  obtain s pk where "request_signature (Transfer t) = Some s" "PublicKey s = Some pk" "KeyValue pk \<noteq> []"
    by (rule signed_key [OF v(2)])
  then have s: "TransferSignature t = Some s" "PublicKey s = Some pk" by simp_all
  show "safeE (bindE (derefE (OfCoin t)) (\<lambda>ofCoin.
      bindE (requireE (CoinAddress ofCoin \<notin> lockMap st)) (\<lambda>_.
      bindE (invalidE (coin_at a (CoinAddress ofCoin))) (\<lambda>coin.
      bindE (key_hashes c (TransferSignature t)) (\<lambda>(addr, altAddr).
      bindE (check_owner coin addr altAddr) (\<lambda>_.
      bindE (fill_bytes 32 addr) (\<lambda>addrBytes.
      bindE (GetBloomFilter c addrBytes 1024 3) (\<lambda>bloom.
      bindE (or_bytes (Intersection coin) bloom) (\<lambda>newIntersection.
      Inr ([CoinAddress ofCoin],
        [OutCoin \<lparr>Amount = Amount coin, Intersection = newIntersection, Owner = ToAccount t\<rparr>,
         DeletedCoin ofCoin]))))))))))"
  proof (intro safe_bindE, goal_cases)
    case 1
    then show ?case using v by auto
  next
    case (4 ofCoin u coin)
    show ?case by (rule safe_key_hashes [OF assms(1) s])
  next
    case (5 ofCoin u coin h)
    obtain addr altAddr where h: "h = (addr, altAddr)" by (cases h)
    have b: "addr < 256 ^ 32" "altAddr < 256 ^ 32" using key_hashes_bound [OF assms(1)] 5(4) h by auto
    have u: "GetImplicitAccount (Owner coin) \<noteq> None" "128 \<le> length (Intersection coin)"
      using coins_usableD(2) [OF assms(2)] 5(3) by (auto simp: wrapE_eq_Inr)
    show ?case unfolding h prod.case
    proof (intro safe_bindE, goal_cases)
      case 1
      then show ?case by (rule safe_check_owner [OF u(1) b])
    next
      case 2
      show ?case by (rule safe_fill_bytes [OF b(1)])
    next
      case (3 v addrBytes)
      show ?case by (rule bloom_1024 [of c addrBytes]) simp
    next
      case (4 v addrBytes bloom)
      show ?case by (rule bloom_1024 [of c addrBytes]) (use 4(3) u(2) in \<open>simp add: safe_or_bytes\<close>)
    qed simp
  qed (auto intro!: no_panic coins_usableD(1) [OF assms(2)])
qed

lemma safe_split_coins: "\<forall>x \<in> set amounts. length x \<le> 32 \<Longrightarrow> safeE (split_coins coin amounts)"
  by (simp add: split_coins_eq)

lemma safe_split:
  assumes "hashes_ok c" "coins_usable a"
  shows "safeE (snd (handleSplit c a n st t))"
proof (cases "SplitCoinRequest_Validate c (Some t)")
  case (Inl e)
  then have "e \<noteq> Panic" using Split_no_panic [of c t] by auto
  then show ?thesis using Inl unfolding handleSplit_def by (cases e) (simp_all add: lock_on_success_def wrapE_def)
next
  case (Inr u)
  then have v: "request_content c (Split t)" "signed_ok c (Split t)" by (simp_all add: Validate_iff)
  obtain s pk where "request_signature (Split t) = Some s" "PublicKey s = Some pk" "KeyValue pk \<noteq> []"
    by (rule signed_key [OF v(2)])
  then have s: "SplitSignature t = Some s" "PublicKey s = Some pk" by simp_all
  obtain ref where ref: "SplitOfCoin t = Some ref" using v by auto
  have l: "\<forall>x \<in> set (Amounts t). length x \<le> 32" using v by simp
  show ?thesis
    unfolding handleSplit_def Inr ref wrapE_Inr derefE_Some bindE_Inr
  proof (rule safe_lock_on_success, intro safe_bindE, goal_cases)
    case (4 coin w h)
    obtain addr altAddr where h: "h = (addr, altAddr)" by (cases h)
    have b: "addr < 256 ^ 32" "altAddr < 256 ^ 32" using key_hashes_bound [OF assms(1)] 4(3) h by auto
    have o: "GetImplicitAccount (Owner coin) \<noteq> None"
      using coins_usableD(2) [OF assms(2)] 4(1) by (auto simp: wrapE_eq_Inr)
    show ?case unfolding h prod.case
      by (intro safe_bindE safe_check_owner [OF o b] safe_split_coins [OF l])
        (auto intro!: no_panic split: prod.splits)
  next
    case 3
    show ?case by (rule safe_key_hashes [OF assms(1) s])
  qed (auto intro!: no_panic coins_usableD(1) [OF assms(2)])
qed

lemma merge_coin_keeps_length:
  "merge_coin a addr altAddr acc x = Inr acc' \<Longrightarrow> length (newIntersection acc') = length (newIntersection acc)"
  by (cases x) (auto simp: merge_coin_Inr merge_coin_def [of _ _ _ _ None] or_bytes_length)

lemma safe_merge:
  assumes "hashes_ok c" "coins_usable a"
    and "\<And>refs. Coins t = map Some refs \<Longrightarrow> distinct (map CoinAddress refs) \<Longrightarrow>
      sum_list (map (worth a \<circ> CoinAddress) refs) < 256 ^ 32"
  shows "safeE (snd (handleMerge c a n st t))"
proof (cases "MergeCoinRequest_Validate c (Some t)")
  case (Inl e)
  then have "e \<noteq> Panic" using Merge_no_panic [of c t] by auto
  then show ?thesis using Inl unfolding handleMerge_def by (cases e) (simp_all add: lock_on_success_def wrapE_def)
next
  case (Inr u)
  then have v: "request_content c (Merge t)" "signed_ok c (Merge t)" by (simp_all add: Validate_iff)
  obtain s pk where "request_signature (Merge t) = Some s" "PublicKey s = Some pk" "KeyValue pk \<noteq> []"
    by (rule signed_key [OF v(2)])
  then have s: "MergeSignature t = Some s" "PublicKey s = Some pk" by simp_all
  have refs: "\<And>x. x \<in> set (Coins t) \<Longrightarrow> x \<noteq> None" using v(1) by auto
  have addrs: "safeE (merge_addresses (lockMap st) (Coins t))"
    unfolding merge_addresses_def
    by (rule safe_foldE [where P = "\<lambda>_. True"]) (auto intro!: no_panic dest: refs)
  show ?thesis
    unfolding handleMerge_def Inr wrapE_Inr bindE_Inr
  proof (rule safe_lock_on_success, rule safe_bindE [OF addrs], rule safe_bindE [OF safe_key_hashes [OF assms(1) s]], goal_cases)
    case (1 addresses h)
    obtain addr altAddr where h: "h = (addr, altAddr)" by (cases h)
    have b: "addr < 256 ^ 32" "altAddr < 256 ^ 32" using key_hashes_bound [OF assms(1)] 1(2) h by auto
    let ?acc = "\<lparr>newTotal = 0, newIntersection = replicate 1024 0, mergeOwner = Some AccountUnset, deleted = []\<rparr>"
    have f: "safeE (foldE (merge_coin a addr altAddr) ?acc (Coins t))"
    proof (rule safe_foldE [where P = "\<lambda>acc. length (newIntersection acc) = 1024"])
      fix acc :: merge_acc and x assume x: "x \<in> set (Coins t)" and l: "length (newIntersection acc) = 1024"
      then obtain ref where ref: "x = Some ref" using refs by blast
      show "safeE (merge_coin a addr altAddr acc x)"
        unfolding merge_coin_def ref derefE_Some bindE_Inr
      proof (intro safe_bindE, goal_cases)
        case 1
        show ?case by (intro no_panic coins_usableD(1) [OF assms(2)]) simp
      next
        case (2 coin)
        then show ?case using coins_usableD(2) [OF assms(2)] b by (intro safe_check_owner) (auto simp: wrapE_eq_Inr)
      next
        case (3 coin w)
        then show ?case using coins_usableD(2) [OF assms(2)] l by (intro safe_or_bytes) (auto simp: wrapE_eq_Inr)
      qed simp
    qed (auto dest: merge_coin_keeps_length)
    show ?case unfolding h prod.case
    proof (rule safe_bindE [OF f])
      fix acc assume acc: "foldE (merge_coin a addr altAddr) ?acc (Coins t) = Inr acc"
      obtain rs where rs: "Coins t = map Some rs" "addresses = map CoinAddress rs" "distinct addresses"
        using merge_addresses_result [OF 1(1)] by blast
      obtain coins where coins: "list_all2 (\<lambda>r k. coin_at a (CoinAddress r) = Inr k \<and> check_owner k addr altAddr = Inr ()) rs coins"
        "newTotal acc = sum_list (map (\<lambda>k. nat_of_be (Amount k)) coins)"
        using merge_coins_result [OF acc [unfolded rs(1)]] by auto
      have "map (\<lambda>k. nat_of_be (Amount k)) coins = map (worth a \<circ> CoinAddress) rs"
        using coins(1) by (induction rule: list_all2_induct) (simp_all add: worth_def)
      then have "newTotal acc < 256 ^ 32" using assms(3) [OF rs(1)] rs(2,3) coins(2) by simp
      then show "safeE (bindE (fill_bytes 32 (newTotal acc)) (\<lambda>amount. Inr (addresses,
          OutCoin \<lparr>Amount = amount, Intersection = newIntersection acc, Owner = mergeOwner acc\<rparr> # deleted acc)))"
        by (intro safe_bindE safe_fill_bytes) simp_all
    qed
  qed
qed

lemma safe_getAddress:
  assumes "hashes_ok c" "sig = Some s"
  shows "safeE (getAddressFromSignature c sig)"
  unfolding getAddressFromSignature_def assms(2) derefE_Some bindE_Inr
  by (auto simp: altAddress_def UnmarshalEd448PublicKey_def IDFromPublicKey_def split: option.split
      intro!: no_panic hashes_okD [OF assms(1)] intro: hashes_okD(3) [OF assms(1), simplified])

lemma safe_sig_key: "PublicKey s = Some pk \<Longrightarrow> safeE (sig_key (Some s))"
  by (simp add: sig_key_def)

lemma safe_announce: "safeE (snd (handleAnnounce c n st t))"
proof (cases "AnnounceProverRequest_Validate c (Some t)")
  case (Inl e)
  then have "e \<noteq> Panic" using AnnounceProverRequest_no_panic [of c "Some t"] by auto
  then show ?thesis using Inl unfolding handleAnnounce_def by (cases e) (simp_all add: lock_on_success_def wrapE_def)
next
  case (Inr u)
  then have ne: "PublicKeySignaturesEd448 t \<noteq> []"
    and "\<forall>e \<in> set (PublicKeySignaturesEd448 t). Ed448Signature_Validate e = Inr ()"
    by (auto simp: AnnounceProverRequest_Validate_def bindE_eq_Inr foldE_unit split: if_splits)
  then have ks: "\<forall>e \<in> set (PublicKeySignaturesEd448 t). \<exists>k. sig_key e = Inr k"
    by (auto simp: Ed448Signature_Validate_iff sig_key_def)
  have 1: "safeE (foldE (\<lambda>_ p. bindE (sig_key p) (\<lambda>key. requireE (key \<notin> lockMap st))) () (PublicKeySignaturesEd448 t))"
    by (rule safe_foldE [where P = "\<lambda>_. True"]) (use ks in \<open>auto intro!: safe_guardE dest!: bspec\<close>)
  have "\<exists>ys. mapE sig_key xs = Inr ys" if "set xs \<subseteq> set (PublicKeySignaturesEd448 t)" for xs
    using that ks by (induction xs) auto
  moreover have "set (tl (PublicKeySignaturesEd448 t)) \<subseteq> set (PublicKeySignaturesEd448 t)" using ne by (simp add: list.set_sel(2) subsetI)
  ultimately obtain ys where "mapE sig_key (tl (PublicKeySignaturesEd448 t)) = Inr ys" by blast
  then show ?thesis
    unfolding handleAnnounce_def Inr wrapE_Inr bindE_Inr
    by (intro safe_lock_on_success safe_bindE [OF 1]) (simp add: ne)
qed

lemma safe_join:
  assumes "hashes_ok c"
  shows "safeE (snd (handleDataAnnounceProverJoin c a n st t))"
proof (cases "AnnounceProverJoin_Validate c (Some t)")
  case (Inl e)
  then have "e \<noteq> Panic" using other_no_panic(2) [of c t] by auto
  then show ?thesis using Inl unfolding handleDataAnnounceProverJoin_def
    by (cases e) (simp_all add: wrapE_def guardE_def)
next
  case (Inr u)
  then have v: "signed_ok c (Join t)" by (simp add: Validate_iff)
  obtain s pk where "request_signature (Join t) = Some s" "PublicKey s = Some pk" "KeyValue pk \<noteq> []"
    by (rule signed_key [OF v])
  then have s: "PublicKeySignatureEd448 t = Some s" "sig_key (Some s) = Inr (KeyValue pk)" by (simp_all add: sig_key_def)
  have ja: "safeE (snd (join_announce c n st t))"
    using safe_announce [of c n st] by (auto simp: join_announce_def split: option.split intro!: safe_wrapE)
  show ?thesis
    using Inr s safe_getAddress [OF assms, of "Some s"] safe_peer_id [OF assms, of "KeyValue pk"] ja
    unfolding handleDataAnnounceProverJoin_def
    by (auto simp: guardE_def bindE_eq_Inl bindE_eq_Inr split: sum.split prod.split)
qed

lemma safe_prover_change:
  assumes "hashes_ok c" "safeE v" "v = Inr () \<Longrightarrow> signed_ok c r" "request_signature r = PublicKeySignatureEd448 t"
  shows "safeE (snd (prover_change a st (prover_checks c v n st t) out))"
proof (cases v)
  case (Inl e)
  then show ?thesis using assms(2) by (cases e) (auto simp: prover_change_def prover_checks_def wrapE_def guardE_def)
next
  case (Inr u)
  then have v: "signed_ok c r" using assms(3) by simp
  obtain s pk where "request_signature r = Some s" "PublicKey s = Some pk" "KeyValue pk \<noteq> []"
    by (rule signed_key [OF v])
  then have s: "PublicKeySignatureEd448 t = Some s" "sig_key (Some s) = Inr (KeyValue pk)"
    using assms(4) by (simp_all add: sig_key_def)
  show ?thesis
    using Inr s safe_getAddress [OF assms(1), of "Some s"]
    by (auto simp: prover_change_def prover_checks_def guardE_def bindE_eq_Inl split: sum.split)
qed

section \<open>Properties\<close>

lemma handlers_safe:
  assumes "hashes_ok c" "coins_usable a"
    and "\<And>t. r = Transfer t \<Longrightarrow> GetOriginatedAccount (ToAccount t) = None"
    and "\<And>t refs. r = Merge t \<Longrightarrow> Coins t = map Some refs \<Longrightarrow> distinct (map CoinAddress refs) \<Longrightarrow>
      sum_list (map (worth a \<circ> CoinAddress) refs) < 256 ^ 32"
  shows "safeE (snd (request_step c a n st r))"
proof -
  have tr: "safeE (TransferCoinRequest_Validate c (Some t))" if "r = Transfer t" for t
    using assms(3) [OF that]
    by (auto simp: safeE_def TransferCoinRequest_Validate_def TransferCoinRequest_ValidateSignature_def signed_no_panic
        bindE_eq_Inl [of "AccountRef_Validate _"] bindE_eq_Inl [of "CoinRef_Validate _"]
        AccountRef_Validate_iff CoinRef_Validate_iff TransferCoinRequest_signatureMessage_def derefE_def)
  show ?thesis
  proof (cases r)
    case (Leave t)
    then show ?thesis
      using safe_prover_change [OF assms(1) safe_validate(4), of c t r t] Validate_iff(6) [of c t]
      by (simp add: request_step_def handle_def handleDataAnnounceProverLeave_def)
  next
    case (Pause t)
    then show ?thesis
      using safe_prover_change [OF assms(1) safe_validate(5), of c t r t] Validate_iff(7) [of c t]
      by (simp add: request_step_def handle_def handleDataAnnounceProverPause_def)
  next
    case (Resume t)
    then show ?thesis
      using safe_prover_change [OF assms(1) safe_validate(6), of c t r t] Validate_iff(8) [of c t]
      by (simp add: request_step_def handle_def handleDataAnnounceProverResume_def)
  qed (use safe_transfer [OF assms(1,2) tr] safe_split [OF assms(1,2)] safe_merge [OF assms(1,2) assms(4)]
      safe_announce safe_join [OF assms(1)] in \<open>auto simp: request_step_def handle_def\<close>)
qed

text \<open>
  C10: the handlers of transfer, split, merge, announcement, join, leave, pause and resume requests
  do not panic: they answer with outputs or an error. Mint requests have handlers of their own and
  are not covered. The conditions are: the hash and the key encoding return, and a hash is below
  \<open>2 ^ 256\<close>; the coin store returns, and every coin in it has an implicit owner and an intersection
  of 128 to 1024 bytes; a transfer does not name an originated account; and the coins that a merge
  of distinct coins names are worth less than \<open>2 ^ 256\<close> together.
\<close>

theorem handlers_do_not_panic:
  assumes "hashes_ok c" "coins_usable a"
    and "\<And>t. r = Transfer t \<Longrightarrow> GetOriginatedAccount (ToAccount t) = None"
    and "\<And>t refs. r = Merge t \<Longrightarrow> Coins t = map Some refs \<Longrightarrow> distinct (map CoinAddress refs) \<Longrightarrow>
      sum_list (map (worth a \<circ> CoinAddress) refs) < 256 ^ 32"
    and "handle c a n st r = Some (st', res)"
  shows "res \<noteq> Inl Panic"
proof -
  have "safeE (snd (request_step c a n st r))" by (rule handlers_safe) (fact assms)+
  then show ?thesis using assms(5) by (simp add: request_step_def safeE_def)
qed

section \<open>Samples\<close>

text \<open>One coin of 9 units at the address of ones, owned by the sample key; no provers.\<close>

definition owned_coin :: "nat \<Rightarrow> coin" where
  "owned_coin amount = \<lparr>Amount = be_of_nat 32 amount, Intersection = replicate 1024 0,
     Owner = Some (ImplicitAccount \<lparr>ImplicitType = 0, ImplicitAddress = be_of_nat 32 57, Domain = []\<rparr>)\<rparr>"

definition sample_app :: token_application where
  "sample_app = \<lparr>Beacon = [], TokenOutputs = None, Tries = [],
     coin_at = (\<lambda>address. if address = replicate 32 1 then Inr (owned_coin 9) else Inl ErrNotFound),
     proofs_of = (\<lambda>_. Some (Inr ([], []))), frame_at = (\<lambda>_ _. Inl ErrNotFound), verify_challenge = (\<lambda>_ _ _. False),
     AppDifficulty = 1\<rparr>"

definition sample_split :: split_coin_request where
  "sample_split = \<lparr>SplitOfCoin = Some \<lparr>CoinAddress = replicate 32 1\<rparr>, Amounts = [[4], [5]],
     SplitSignature = newED448Signature sample_key (replicate 114 1)\<rparr>"

definition no_locks :: handler_state where
  "no_locks = \<lparr>lockMap = {}, peerScores = []\<rparr>"

lemma sample_split_valid: "SplitCoinRequest_Validate sample_crypto (Some sample_split) = Inr ()"
  by (simp add: Validate_iff signed_ok_def SplitCoinRequest_signatureMessage_def sample_split_def newED448Signature_def
      sample_crypto_def sample_key_def)

lemma sample_key_hashes: "key_hashes sample_crypto (newED448Signature sample_key s) = Inr (57, 57)"
  by (simp add: key_hashes_def newED448Signature_def sample_crypto_def sample_key_def peer_id_def
      UnmarshalEd448PublicKey_def IDFromPublicKey_def map_replicate sum_list_replicate)

lemma sample_owner: "check_owner (owned_coin k) 57 57 = Inr ()"
  by (simp add: check_owner_def owned_coin_def fill_bytes_def)

lemma sample_amount: "nat_of_be (Amount (owned_coin 9)) = 9"
  by (simp add: owned_coin_def nat_of_be_of_nat)

lemma sample_split_fields:
  "SplitOfCoin sample_split = Some \<lparr>CoinAddress = replicate 32 1\<rparr>" "Amounts sample_split = [[4], [5]]"
  "coin_at sample_app (replicate 32 1) = Inr (owned_coin 9)"
  "key_hashes sample_crypto (SplitSignature sample_split) = Inr (57, 57)"
  by (simp_all add: sample_split_def sample_app_def sample_key_hashes)

theorem split_outcome_witness:
  "handleSplit sample_crypto sample_app 1 no_locks sample_split =
     (\<lparr>lockMap = {replicate 32 1}, peerScores = []\<rparr>,
      Inr [OutCoin (owned_coin 4), OutCoin (owned_coin 5), DeletedCoin \<lparr>CoinAddress = replicate 32 1\<rparr>])"
proof -
  have 1: "coin_at sample_app (CoinAddress \<lparr>CoinAddress = replicate 32 1\<rparr>) = Inr (owned_coin 9)"
    "CoinAddress \<lparr>CoinAddress = replicate 32 1\<rparr> \<notin> lockMap no_locks"
    by (simp_all add: sample_split_fields no_locks_def)
  show ?thesis
    using split_outcome [OF sample_split_valid sample_split_fields(1) 1 sample_split_fields(4) sample_owner, of 1] sample_amount
    by (simp add: sample_split_fields no_locks_def owned_coin_def)
qed

theorem only_owners_spend_witness:
  "signed_ok sample_crypto (Split sample_split) \<and>
     (\<exists>s pk coin acc. request_signature (Split sample_split) = Some s \<and> PublicKey s = Some pk \<and>
        coin_at sample_app (replicate 32 1) = Inr coin \<and> GetImplicitAccount (Owner coin) = Some acc \<and>
        ImplicitAddress acc \<in> addresses_of sample_crypto (KeyValue pk))"
proof -
  have "snd (request_step sample_crypto sample_app 1 no_locks (Split sample_split)) =
      Inr [OutCoin (owned_coin 4), OutCoin (owned_coin 5), DeletedCoin \<lparr>CoinAddress = replicate 32 1\<rparr>]"
    by (simp add: request_step_def handle_def handleSplit_def sample_split_valid sample_owner sample_split_fields
        lock_on_success_def split_coins_eq sample_amount no_locks_def)
      (simp add: owned_coin_def fill_bytes_def)
  then obtain st' where "request_step sample_crypto sample_app 1 no_locks (Split sample_split) =
      (st', Inr [OutCoin (owned_coin 4), OutCoin (owned_coin 5), DeletedCoin \<lparr>CoinAddress = replicate 32 1\<rparr>])"
    by (metis prod.collapse)
  from only_owners_spend [OF this, of "\<lparr>CoinAddress = replicate 32 1\<rparr>"] show ?thesis by simp
qed

definition bounded_crypto :: crypto_ops where
  "bounded_crypto = sample_crypto\<lparr>poseidon_HashBytes := (\<lambda>b. Inr (sum_list (map unat b) mod 65536))\<rparr>"

theorem handlers_do_not_panic_witness:
  "\<exists>st' res. handle bounded_crypto sample_app 1 no_locks (Split sample_split) = Some (st', res) \<and> res \<noteq> Inl Panic"
proof -
  have "x mod 65536 < 256 ^ 32" for x :: nat
    by (rule less_trans [of _ 65536]) simp_all
  then have h: "hashes_ok bounded_crypto" by (simp add: hashes_ok_def bounded_crypto_def sample_crypto_def)
  have u: "coins_usable sample_app"
    by (simp add: coins_usable_def sample_app_def owned_coin_def)
  obtain st' res where r: "handle bounded_crypto sample_app 1 no_locks (Split sample_split) = Some (st', res)"
    by (cases "handleSplit bounded_crypto sample_app 1 no_locks sample_split") (simp add: handle_def)
  have "res \<noteq> Inl Panic" by (rule handlers_do_not_panic [OF h u _ _ r]) simp_all
  then show ?thesis using r by blast
qed

end
