(* ===== verification/BigFloat.thy ===== *)
theory BigFloat
  imports Bloom
begin

text \<open>
  The non-negative \<open>big.Float\<close> values of precision 53 that \<open>PomwBasis\<close> computes with. A value is
  a pair \<open>(m, k)\<close> of naturals that stands for \<open>m / 2 ^ k\<close>; operations are exact and then round to
  53 bits, to nearest, ties to even, as \<open>math/big\<close> documents them.
\<close>

type_synonym bigfloat = "nat \<times> nat"

section \<open>Operations\<close>

fun isqrt :: "nat \<Rightarrow> nat" where
  "isqrt n = (if n = 0 then 0 else
     let s = 2 * isqrt (n div 4) in if (s + 1) * (s + 1) \<le> n then s + 1 else s)"

declare isqrt.simps [simp del]

text \<open>
  Rounding a number with integral part \<open>n\<close>, of at least 54 bits, to 53 bits; \<open>sticky\<close> says that it
  is not an integer.
\<close>

definition round53 :: "nat \<Rightarrow> bool \<Rightarrow> nat" where
  "round53 n sticky =
     (let d = BitLen n - 53;
          hi = n div 2 ^ d;
          lo = n mod 2 ^ d;
          half = 2 ^ (d - 1)
      in (if half < lo \<or> (lo = half \<and> (sticky \<or> odd hi)) then hi + 1 else hi) * 2 ^ d)"

text \<open>The quotient \<open>p / q\<close>, for \<open>q > 0\<close>, rounded.\<close>

definition round_ratio :: "nat \<Rightarrow> nat \<Rightarrow> bigfloat" where
  "round_ratio p q =
     (if p = 0 then (0, 0)
      else let k = 64 + BitLen q in (round53 (p * 2 ^ k div q) (p * 2 ^ k mod q \<noteq> 0), k))"

definition bf_SetInt64 :: "nat \<Rightarrow> bigfloat" where
  "bf_SetInt64 n = round_ratio n 1"

definition bf_Mul :: "bigfloat \<Rightarrow> bigfloat \<Rightarrow> bigfloat" where
  "bf_Mul x y = round_ratio (fst x * fst y) (2 ^ (snd x + snd y))"

text \<open>\<open>Quo\<close> by zero is infinity, \<open>None\<close>.\<close>

definition bf_Quo :: "bigfloat \<Rightarrow> bigfloat \<Rightarrow> bigfloat option" where
  "bf_Quo x y = (if fst y = 0 then None else Some (round_ratio (fst x * 2 ^ snd y) (fst y * 2 ^ snd x)))"

definition bf_Sqrt :: "bigfloat \<Rightarrow> bigfloat" where
  "bf_Sqrt x =
     (if fst x = 0 then (0, 0)
      else let k = 64 + snd x;
               y = fst x * 2 ^ (2 * k - snd x);
               n = isqrt y
           in (round53 n (n * n \<noteq> y), k))"

text \<open>\<open>Int\<close> truncates.\<close>

definition bf_Int :: "bigfloat \<Rightarrow> nat" where
  "bf_Int x = fst x div 2 ^ snd x"

section \<open>Square roots\<close>

lemma isqrt_correct: "isqrt n * isqrt n \<le> n \<and> n < (isqrt n + 1) * (isqrt n + 1)"
proof (induction n rule: isqrt.induct)
  case (1 n)
  show ?case
  proof (cases "n = 0")
    case True
    then show ?thesis by (simp add: isqrt.simps)
  next
    case False
    define r where "r = isqrt (n div 4)"
    have IH: "r * r \<le> n div 4" "n div 4 < (r + 1) * (r + 1)" using 1 [OF False] by (simp_all add: r_def)
    have e: "isqrt n = (if (2 * r + 1) * (2 * r + 1) \<le> n then 2 * r + 1 else 2 * r)"
      using False by (subst isqrt.simps) (simp add: r_def Let_def)
    have "4 * (r * r) \<le> n" using IH(1) by linarith
    moreover have "n < 4 * ((r + 1) * (r + 1))" using IH(2) by linarith
    ultimately show ?thesis unfolding e by (auto simp: algebra_simps)
  qed
qed

lemma isqrt_ge: "s * s \<le> n \<Longrightarrow> s \<le> isqrt n"
  using isqrt_correct [of n] by (metis Suc_eq_plus1 leD le_trans less_Suc_eq_le mult_le_mono not_less)

lemma isqrt_le: "n \<le> s * s \<Longrightarrow> isqrt n \<le> s"
proof (rule ccontr)
  assume "n \<le> s * s" "\<not> isqrt n \<le> s"
  then have "s < isqrt n" by simp
  then have "s * s < isqrt n * isqrt n" by (intro mult_strict_mono) auto
  then show False using isqrt_correct [of n] \<open>n \<le> s * s\<close> by linarith
qed

section \<open>Rounding keeps powers of two as bounds\<close>

lemma BitLen_bounds: "0 < n \<Longrightarrow> 2 ^ (BitLen n - 1) \<le> n \<and> n < 2 ^ BitLen n"
proof (induction n rule: BitLen.induct)
  case (1 n)
  show ?case
  proof (cases "n div 2 = 0")
    case True
    then have "n = 1" using 1(2) by simp
    then show ?thesis by (simp add: BitLen.simps)
  next
    case False
    then have IH: "2 ^ (BitLen (n div 2) - 1) \<le> n div 2" "n div 2 < 2 ^ BitLen (n div 2)" using 1 by auto
    have e: "BitLen n = Suc (BitLen (n div 2))" using 1(2) by (subst BitLen.simps) simp
    have b: "0 < BitLen (n div 2)" using False by (subst BitLen.simps) simp
    have "(2 :: nat) ^ BitLen (n div 2) = 2 * 2 ^ (BitLen (n div 2) - 1)" using b by (metis Suc_pred' power_Suc)
    then show ?thesis unfolding e using IH by simp linarith
  qed
qed

lemma BitLen_ge: "2 ^ j \<le> n \<Longrightarrow> j < BitLen n"
proof -
  assume a: "2 ^ j \<le> n"
  then have "0 < n" by (meson less_le_trans zero_less_numeral zero_less_power)
  then have "2 ^ j < (2 :: nat) ^ BitLen n" using a BitLen_bounds by (meson le_less_trans)
  then show ?thesis by simp
qed

lemma BitLen_le: "n < 2 ^ j \<Longrightarrow> BitLen n \<le> j"
proof (cases "n = 0")
  case False
  assume a: "n < 2 ^ j"
  have "2 ^ (BitLen n - 1) < (2 :: nat) ^ j" using BitLen_bounds [of n] False a by (meson gr0I le_less_trans)
  then show ?thesis by simp
qed (simp add: BitLen.simps)

lemma round53_ge:
  assumes "2 ^ j \<le> n" "2 ^ 53 \<le> n"
  shows "2 ^ j \<le> round53 n sticky"
proof -
  let ?d = "BitLen n - 53"
  have l: "53 < BitLen n" "j < BitLen n" using BitLen_ge assms by auto
  have n: "2 ^ (BitLen n - 1) \<le> n" using BitLen_bounds [of n] assms by (metis gr0I le_zero_eq power_not_zero zero_neq_numeral)
  have "BitLen n - 1 = 52 + ?d" using l by linarith
  then have e: "(2 :: nat) ^ (BitLen n - 1) = 2 ^ 52 * 2 ^ ?d" by (simp only: power_add)
  have "2 ^ 52 \<le> n div 2 ^ ?d" using n unfolding e by (simp add: less_eq_div_iff_mult_less_eq)
  then have "2 ^ 52 * 2 ^ ?d \<le> round53 n sticky" by (auto simp: round53_def Let_def)
  moreover have "(2 :: nat) ^ j \<le> 2 ^ 52 * 2 ^ ?d" unfolding e [symmetric] using l by (intro power_increasing) auto
  ultimately show ?thesis by linarith
qed

lemma round53_le:
  assumes "n \<le> 2 ^ j" "2 ^ 53 \<le> n"
  shows "round53 n sticky \<le> 2 ^ j"
proof -
  let ?d = "BitLen n - 53"
  have l: "53 < BitLen n" using BitLen_ge assms by auto
  have n: "n < 2 ^ BitLen n" using BitLen_bounds [of n] assms by (metis gr0I le_zero_eq power_not_zero zero_neq_numeral)
  show ?thesis
  proof (cases "n = 2 ^ j")
    case True
    have "BitLen n = Suc j" unfolding True by (rule BitLen_power)
    then have d: "?d \<le> j" "0 < ?d" using l by auto
    then have "n mod 2 ^ ?d = 0" "n div 2 ^ ?d * 2 ^ ?d = 2 ^ j" unfolding True by (simp_all add: le_imp_power_dvd)
    then show ?thesis using d by (simp add: round53_def Let_def)
  next
    case False
    then have "BitLen n \<le> j" using assms by (intro BitLen_le) simp
    have "BitLen n = 53 + ?d" using l by linarith
    then have e: "(2 :: nat) ^ BitLen n = 2 ^ 53 * 2 ^ ?d" by (metis power_add)
    then have "n div 2 ^ ?d < 2 ^ 53" using n by (simp add: div_less_iff_less_mult)
    then have "(if P then n div 2 ^ ?d + 1 else n div 2 ^ ?d) * 2 ^ ?d \<le> 2 ^ 53 * 2 ^ ?d" for P
      by (intro mult_le_mono) auto
    then have "round53 n sticky \<le> 2 ^ BitLen n" unfolding e round53_def Let_def by blast
    also have "\<dots> \<le> 2 ^ j" using \<open>BitLen n \<le> j\<close> by simp
    finally show ?thesis .
  qed
qed

section \<open>Bounds\<close>

text \<open>\<open>at_least x i j\<close>: \<open>x \<ge> 2 ^ i / 2 ^ j\<close>; \<open>at_most x i j\<close>: \<open>x \<le> 2 ^ i / 2 ^ j\<close>.\<close>

definition at_least :: "bigfloat \<Rightarrow> nat \<Rightarrow> nat \<Rightarrow> bool" where
  "at_least x i j \<longleftrightarrow> 2 ^ i * 2 ^ snd x \<le> fst x * 2 ^ j"

definition at_most :: "bigfloat \<Rightarrow> nat \<Rightarrow> nat \<Rightarrow> bool" where
  "at_most x i j \<longleftrightarrow> fst x * 2 ^ j \<le> 2 ^ i * 2 ^ snd x"

lemma at_least_pos: "at_least x i j \<Longrightarrow> 0 < fst x"
  by (auto simp: at_least_def intro: ccontr)

lemma round_ratio_bits:
  assumes "0 < p" "0 < q"
  shows "2 ^ 53 \<le> p * 2 ^ (64 + BitLen q) div q"
proof -
  have "2 ^ 53 * q \<le> 2 ^ 64 * 2 ^ BitLen q"
    using BitLen_bounds [OF assms(2)] by (intro mult_le_mono) auto
  also have "\<dots> \<le> p * 2 ^ (64 + BitLen q)" using assms(1) by (simp add: power_add)
  finally show ?thesis using assms(2) by (simp add: less_eq_div_iff_mult_less_eq)
qed

lemma round_ratio_ge:
  assumes "0 < q" "2 ^ i * q \<le> p * 2 ^ j"
  shows "at_least (round_ratio p q) i j"
proof -
  let ?k = "64 + BitLen q"
  let ?n = "p * 2 ^ ?k div q"
  have p: "0 < p" using assms by (auto intro: ccontr)
  note n53 = round_ratio_bits [OF p assms(1)]
  have v: "round_ratio p q = (round53 ?n (p * 2 ^ ?k mod q \<noteq> 0), ?k)" using p by (simp add: round_ratio_def Let_def)
  show ?thesis
  proof (cases "j \<le> i + ?k")
    case True
    then have e: "(2 :: nat) ^ i * 2 ^ ?k = 2 ^ (i + ?k - j) * 2 ^ j" by (metis le_add_diff_inverse2 power_add)
    have "(2 ^ (i + ?k - j) * q) * 2 ^ j = (2 ^ i * q) * 2 ^ ?k" using e by (metis mult.assoc mult.commute)
    also have "\<dots> \<le> (p * 2 ^ j) * 2 ^ ?k" using assms(2) by (rule mult_le_mono1)
    finally have "(2 ^ (i + ?k - j) * q) * 2 ^ j \<le> (p * 2 ^ ?k) * 2 ^ j" by (simp add: ac_simps)
    then have "2 ^ (i + ?k - j) * q \<le> p * 2 ^ ?k" by simp
    then have "2 ^ (i + ?k - j) \<le> ?n" using assms(1) by (simp add: less_eq_div_iff_mult_less_eq)
    from round53_ge [OF this n53] show ?thesis unfolding v at_least_def fst_conv snd_conv e by (rule mult_le_mono1)
  next
    case False
    have "1 \<le> round53 ?n (p * 2 ^ ?k mod q \<noteq> 0)" using round53_ge [of 0 ?n] n53 by simp
    then have "2 ^ j \<le> round53 ?n (p * 2 ^ ?k mod q \<noteq> 0) * 2 ^ j" by simp
    moreover have "(2 :: nat) ^ i * 2 ^ ?k \<le> 2 ^ j" unfolding power_add [symmetric] using False by (intro power_increasing) auto
    ultimately show ?thesis unfolding v at_least_def fst_conv snd_conv by (rule order_trans [rotated])
  qed
qed

lemma round_ratio_le:
  assumes "0 < q" "p * 2 ^ j \<le> 2 ^ i * q"
  shows "at_most (round_ratio p q) i j"
proof (cases "p = 0")
  case True
  then show ?thesis by (simp add: round_ratio_def at_most_def)
next
  case p: False
  let ?k = "64 + BitLen q"
  let ?n = "p * 2 ^ ?k div q"
  note n53 = round_ratio_bits [OF p [unfolded neq0_conv] assms(1)]
  have v: "round_ratio p q = (round53 ?n (p * 2 ^ ?k mod q \<noteq> 0), ?k)" using p by (simp add: round_ratio_def Let_def)
  have "j \<le> i + ?k"
  proof (rule ccontr)
    assume "\<not> j \<le> i + ?k"
    have "2 ^ j \<le> p * 2 ^ j" using p by simp
    also have "\<dots> \<le> 2 ^ i * q" by (rule assms(2))
    also have "\<dots> < 2 ^ i * 2 ^ BitLen q" using BitLen_bounds [OF assms(1)] by simp
    also have "\<dots> \<le> 2 ^ j" unfolding power_add [symmetric] using \<open>\<not> j \<le> i + ?k\<close> by (intro power_increasing) auto
    finally show False by simp
  qed
  then have e: "(2 :: nat) ^ i * 2 ^ ?k = 2 ^ (i + ?k - j) * 2 ^ j" by (metis le_add_diff_inverse2 power_add)
  have "(p * 2 ^ ?k) * 2 ^ j = (p * 2 ^ j) * 2 ^ ?k" by (simp add: ac_simps)
  also have "\<dots> \<le> (2 ^ i * q) * 2 ^ ?k" using assms(2) by (rule mult_le_mono1)
  also have "\<dots> = (2 ^ (i + ?k - j) * q) * 2 ^ j" using e by (metis mult.assoc mult.commute)
  finally have "p * 2 ^ ?k \<le> 2 ^ (i + ?k - j) * q" by simp
  then have "?n \<le> 2 ^ (i + ?k - j)" using assms(1) by (metis div_le_mono nonzero_mult_div_cancel_right not_gr_zero)
  from round53_le [OF this n53] show ?thesis unfolding v at_most_def fst_conv snd_conv e by (rule mult_le_mono1)
qed

lemma bf_SetInt64_ge: "2 ^ i \<le> n \<Longrightarrow> at_least (bf_SetInt64 n) i 0"
  unfolding bf_SetInt64_def by (rule round_ratio_ge) simp_all

lemma bf_SetInt64_le: "n \<le> 2 ^ i \<Longrightarrow> at_most (bf_SetInt64 n) i 0"
  unfolding bf_SetInt64_def by (rule round_ratio_le) simp_all

lemma bf_Mul_ge:
  assumes "at_least x i j" "at_least y i' j'"
  shows "at_least (bf_Mul x y) (i + i') (j + j')"
  unfolding bf_Mul_def
proof (rule round_ratio_ge)
  have "(2 ^ i * 2 ^ snd x) * (2 ^ i' * 2 ^ snd y) \<le> (fst x * 2 ^ j) * (fst y * 2 ^ j')"
    using assms unfolding at_least_def by (rule mult_le_mono)
  then show "2 ^ (i + i') * 2 ^ (snd x + snd y) \<le> fst x * fst y * 2 ^ (j + j')" by (simp add: power_add ac_simps)
qed simp

lemma bf_Mul_le:
  assumes "at_most x i j" "at_most y i' j'"
  shows "at_most (bf_Mul x y) (i + i') (j + j')"
  unfolding bf_Mul_def
proof (rule round_ratio_le)
  have "(fst x * 2 ^ j) * (fst y * 2 ^ j') \<le> (2 ^ i * 2 ^ snd x) * (2 ^ i' * 2 ^ snd y)"
    using assms unfolding at_most_def by (rule mult_le_mono)
  then show "fst x * fst y * 2 ^ (j + j') \<le> 2 ^ (i + i') * 2 ^ (snd x + snd y)" by (simp add: power_add ac_simps)
qed simp

lemma bf_Quo_ge:
  assumes "at_least x i j" "at_most y i' j'" "0 < fst y"
  obtains z where "bf_Quo x y = Some z" "at_least z (i + j') (j + i')"
proof
  show "bf_Quo x y = Some (round_ratio (fst x * 2 ^ snd y) (fst y * 2 ^ snd x))" using assms(3) by (simp add: bf_Quo_def)
  show "at_least (round_ratio (fst x * 2 ^ snd y) (fst y * 2 ^ snd x)) (i + j') (j + i')"
  proof (rule round_ratio_ge)
    have "(2 ^ i * 2 ^ snd x) * (fst y * 2 ^ j') \<le> (fst x * 2 ^ j) * (2 ^ i' * 2 ^ snd y)"
      using assms(1,2) unfolding at_least_def at_most_def by (rule mult_le_mono)
    then show "2 ^ (i + j') * (fst y * 2 ^ snd x) \<le> fst x * 2 ^ snd y * 2 ^ (j + i')" by (simp add: power_add ac_simps)
  qed (use assms(3) in simp)
qed

lemma bf_Quo_le:
  assumes "at_most x i j" "at_least y i' j'"
  obtains z where "bf_Quo x y = Some z" "at_most z (i + j') (j + i')"
proof
  have y: "0 < fst y" using at_least_pos [OF assms(2)] .
  then show "bf_Quo x y = Some (round_ratio (fst x * 2 ^ snd y) (fst y * 2 ^ snd x))" by (simp add: bf_Quo_def)
  show "at_most (round_ratio (fst x * 2 ^ snd y) (fst y * 2 ^ snd x)) (i + j') (j + i')"
  proof (rule round_ratio_le)
    have "(fst x * 2 ^ j) * (2 ^ i' * 2 ^ snd y) \<le> (2 ^ i * 2 ^ snd x) * (fst y * 2 ^ j')"
      using assms unfolding at_least_def at_most_def by (rule mult_le_mono)
    then show "fst x * 2 ^ snd y * 2 ^ (j + i') \<le> 2 ^ (i + j') * (fst y * 2 ^ snd x)" by (simp add: power_add ac_simps)
  qed (use y in simp)
qed

lemma bf_Sqrt_ge:
  assumes "at_least x (2 * i) (2 * j)" "j \<le> 64 + snd x + i"
  shows "at_least (bf_Sqrt x) i j"
proof -
  let ?k = "64 + snd x"
  let ?y = "fst x * 2 ^ (2 * ?k - snd x)"
  let ?e = "?k + i - j"
  have f: "0 < fst x" using at_least_pos [OF assms(1)] .
  have v: "bf_Sqrt x = (round53 (isqrt ?y) (isqrt ?y * isqrt ?y \<noteq> ?y), ?k)" using f by (simp add: bf_Sqrt_def Let_def)
  have "(2 ^ ?e * 2 ^ ?e * 2 ^ snd x) * 2 ^ (2 * j) = (2 ^ (2 * i) * 2 ^ snd x) * (2 :: nat) ^ (2 * ?k)"
    using assms(2) by (simp flip: power_add)
  also have "\<dots> \<le> (fst x * 2 ^ (2 * j)) * 2 ^ (2 * ?k)" using assms(1) unfolding at_least_def by (rule mult_le_mono1)
  finally have "2 ^ ?e * 2 ^ ?e * 2 ^ snd x \<le> fst x * 2 ^ (2 * ?k)" by (simp add: ac_simps)
  moreover have "(2 :: nat) ^ (2 * ?k) = 2 ^ (2 * ?k - snd x) * 2 ^ snd x" by (simp flip: power_add)
  ultimately have "(2 ^ ?e * 2 ^ ?e) * 2 ^ snd x \<le> ?y * 2 ^ snd x" by (simp add: ac_simps)
  then have "2 ^ ?e * 2 ^ ?e \<le> ?y" by simp
  then have s: "2 ^ ?e \<le> isqrt ?y" by (rule isqrt_ge)
  have "(2 :: nat) ^ 53 * 2 ^ 53 \<le> 2 ^ (2 * ?k - snd x)" unfolding power_add [symmetric] by (intro power_increasing) auto
  also have "\<dots> \<le> ?y" using f by simp
  finally have "2 ^ 53 \<le> isqrt ?y" by (rule isqrt_ge)
  from round53_ge [OF s this] have "2 ^ ?e * 2 ^ j \<le> round53 (isqrt ?y) (isqrt ?y * isqrt ?y \<noteq> ?y) * 2 ^ j"
    by (rule mult_le_mono1)
  moreover have "2 ^ ?e * 2 ^ j = (2 :: nat) ^ i * 2 ^ ?k" using assms(2) by (simp flip: power_add)
  ultimately show ?thesis unfolding v at_least_def fst_conv snd_conv by simp
qed

lemma bf_Int_le: "at_most x i j \<Longrightarrow> bf_Int x * 2 ^ j \<le> 2 ^ i"
proof -
  assume a: "at_most x i j"
  have "(bf_Int x * 2 ^ j) * 2 ^ snd x = (fst x div 2 ^ snd x * 2 ^ snd x) * 2 ^ j" by (simp add: bf_Int_def)
  also have "\<dots> \<le> fst x * 2 ^ j" by (intro mult_le_mono1) simp
  also have "\<dots> \<le> 2 ^ i * 2 ^ snd x" using a by (simp add: at_most_def)
  finally show ?thesis by simp
qed

end
