(* ===== verification/Mint.thy ===== *)
theory Mint
  imports HandlerSafety ProofLeaf BigFloat
begin

text \<open>
  Minting (\<open>token_handle_mint.go\<close>): \<open>preProcessMint\<close> checks the proofs of a request against the
  proofs stored for the prover, \<open>handleMint\<close> turns the outcome into outputs, \<open>PomwBasis\<close> gives the
  reward. A step that may loop forever is option-valued, \<open>None\<close> being the loop that does not end;
  \<open>bindL\<close> sequences such steps.
\<close>

section \<open>Steps that may not end\<close>

definition bindL :: "'a result option \<Rightarrow> ('a \<Rightarrow> 'b result option) \<Rightarrow> 'b result option" where
  "bindL m f = (case m of None \<Rightarrow> None | Some (Inl e) \<Rightarrow> Some (Inl e) | Some (Inr x) \<Rightarrow> f x)"

lemma bindL_simps [simp]:
  "bindL None f = None" "bindL (Some (Inl e)) f = Some (Inl e)" "bindL (Some (Inr x)) f = f x"
  by (simp_all add: bindL_def)

lemma bindL_eq_Inr [result_simps]:
  "bindL m f = Some (Inr y) \<longleftrightarrow> (\<exists>x. m = Some (Inr x) \<and> f x = Some (Inr y))"
  by (auto simp: bindL_def split: option.splits sum.splits)

section \<open>Rewards\<close>

text \<open>
  \<open>exp\<close> of the source is computed and not used. The result is nil for infinity, when the frame
  number wraps around below one step.
\<close>

definition PomwBasis :: "u64 \<Rightarrow> int \<Rightarrow> u64 \<Rightarrow> nat option" where
  "PomwBasis generation ring currentFrameNumber =
     (let one = bf_SetInt64 1;
          divisor = bf_SetInt64 1048576;
          normalized = bf_SetInt64 (unat ((737280 + currentFrameNumber) div 184320))
      in Option.bind (bf_Quo normalized divisor) (\<lambda>normalized.
         let root = (bf_Sqrt ^^ unat generation) normalized in
         Option.bind (bf_Quo one root) (\<lambda>inverse.
         Option.bind
           (if ring > 0
            then bf_Quo inverse (((\<lambda>d. bf_Mul d (bf_SetInt64 2)) ^^ nat ring) (bf_SetInt64 1))
            else Some inverse) (\<lambda>scaled.
         Some (bf_Int (bf_Mul scaled (bf_SetInt64 8000000000)))))))"

section \<open>Checking the proofs\<close>

record processed_mint =
  isPre2 :: bool
  penalty :: bool
  deletedProof :: "pre_coin_proof option"
  parallelism :: u32
  priorCommitment :: bytes
  newCommitment :: bytes
  newFrameNumber :: u64
  implicitAddr :: bytes
  validForReward :: bool
  treeVerified :: bool
  wesoVerified :: bool

definition zero_mint :: processed_mint where
  "zero_mint = \<lparr>isPre2 = False, penalty = False, deletedProof = None, parallelism = 0, priorCommitment = [],
     newCommitment = [], newFrameNumber = 0, implicitAddr = [], validForReward = False, treeVerified = False,
     wesoVerified = False\<rparr>"

definition penalty_mint :: processed_mint where
  "penalty_mint = zero_mint\<lparr>penalty := True\<rparr>"

text \<open>The \<open>if err != nil { return penalty }\<close> idiom.\<close>

definition or_penalty ::
    "'a result \<Rightarrow> ('a \<Rightarrow> processed_mint result option) \<Rightarrow> processed_mint result option" where
  "or_penalty m f = (case m of
       Inl Panic \<Rightarrow> Some (Inl Panic)
     | Inl _ \<Rightarrow> Some (Inr penalty_mint)
     | Inr x \<Rightarrow> f x)"

lemma or_penalty_Inr [result_simps]:
  "or_penalty m f = Some (Inr pm) \<longleftrightarrow>
     (\<exists>e. m = Inl e \<and> e \<noteq> Panic \<and> pm = penalty_mint) \<or> (\<exists>x. m = Inr x \<and> f x = Some (Inr pm))"
  by (auto simp: or_penalty_def split: sum.splits go_err.splits)

lemma or_penalty_simps [simp]: "or_penalty (Inr x) f = f x"
  by (simp add: or_penalty_def)

text \<open>
  What the loop over the stored proofs of a prover keeps: the last proof of the right shape, its
  commitment, frame and prover count, and what follows the frame number in the commitment.
\<close>

record prior_proof =
  priorProof :: pre_coin_proof
  commitment :: bytes
  previousFrame :: clock_frame
  previousParallelism :: u32
  beforeCommitment :: bytes

text \<open>
  The loop; \<open>Inl ()\<close> of the inner sum is the early return of a penalty. \<open>previous\<close> keeps
  \<open>priorCommitment\<close> of an earlier round when the commitment has 40 bytes.
\<close>

fun scan_proofs ::
    "token_application \<Rightarrow> bytes \<Rightarrow> prior_proof option \<Rightarrow> pre_coin_proof list \<Rightarrow> (unit + prior_proof option) result" where
  "scan_proofs a flt previous [] = Inr (Inr previous)"
| "scan_proofs a flt previous (pr # prfs) =
     (if length (Proof pr) \<ge> 3 \<and> (length (Commitment pr) = 40 \<or> length (Commitment pr) = 72) then
        bindE (be_uint64 (drop 32 (Commitment pr))) (\<lambda>previousFrameNumber.
        bindE (guardE (length (Proof pr) \<ge> 40) Panic) (\<lambda>_.
        bindE (be_uint32 (take 4 (drop 36 (Proof pr)))) (\<lambda>par.
        case frame_at a flt previousFrameNumber of
          Inl Panic \<Rightarrow> Inl Panic
        | Inl e \<Rightarrow> Inr (Inl ())
        | Inr frame \<Rightarrow>
            scan_proofs a flt (Some \<lparr>priorProof = pr, commitment = take 32 (Commitment pr), previousFrame = frame,
              previousParallelism = par,
              beforeCommitment = (if length (Commitment pr) > 40 then drop 40 (Commitment pr)
                else case previous of None \<Rightarrow> [] | Some p \<Rightarrow> beforeCommitment p)\<rparr>) prfs)))
      else scan_proofs a flt previous prfs)"

text \<open>
  The check of one output of the previous proof: its challenge is the peer id, the previous frame
  number, the index and \<open>extra\<close>. \<open>None\<close> is an output of the wrong size, answered with a penalty.
\<close>

definition individual_challenge :: "bytes \<Rightarrow> clock_frame \<Rightarrow> bytes \<Rightarrow> u64 \<Rightarrow> bytes" where
  "individual_challenge peerId prev extra pick =
     peerId @ be_put_uint64 (FFrameNumber prev) @ be_put_uint32 (ucast pick) @ Output prev @ extra"

definition check_leaf :: "token_application \<Rightarrow> u32 \<Rightarrow> bytes \<Rightarrow> bytes \<Rightarrow> bool option" where
  "check_leaf a difficulty challenge lf =
     (if length lf \<noteq> 516 then None
      else Some (lf \<noteq> replicate 516 0 \<and> verify_challenge a challenge difficulty lf))"

fun check_leaves ::
    "token_application \<Rightarrow> u32 \<Rightarrow> (u64 \<Rightarrow> bytes) \<Rightarrow> u64 list \<Rightarrow> bytes list \<Rightarrow> bool option" where
  "check_leaves a difficulty challenge (pick # picks) (lf # leaves) =
     Option.bind (check_leaf a difficulty (challenge pick) lf) (\<lambda>v.
     Option.bind (check_leaves a difficulty challenge picks leaves) (\<lambda>vs. Some (v \<and> vs)))"
| "check_leaves a difficulty challenge _ _ = Some True"

text \<open>The checks before the combined format: one output, the last of the proofs.\<close>

definition check_single ::
    "crypto_ops \<Rightarrow> token_application \<Rightarrow> clock_frame \<Rightarrow> bytes list \<Rightarrow> bytes \<Rightarrow> prior_proof \<Rightarrow> u32 \<Rightarrow> clock_frame \<Rightarrow>
     bool option result option" where
  "check_single c a frame proofs peerId prior par newFrame =
     Option.bind (BytesToUnbiasedMod (sha3_Sum256 c (Output newFrame)) (ucast par)) (\<lambda>pick.
     Some (Inr (check_leaf a (FDifficulty frame) (individual_challenge peerId (previousFrame prior) [] pick) (last proofs))))"

text \<open>
  The combined format: as many outputs as the tree has levels, the last ones of the proofs, at the
  indices drawn from the hash of the new frame. With one prover the number of further outputs is
  \<open>-1\<close> and the first index is past the end.
\<close>

definition check_multi ::
    "crypto_ops \<Rightarrow> token_application \<Rightarrow> clock_frame \<Rightarrow> bytes list \<Rightarrow> bytes \<Rightarrow> prior_proof \<Rightarrow> u32 \<Rightarrow> clock_frame \<Rightarrow>
     bool option result option" where
  "check_multi c a frame proofs peerId prior par newFrame =
     (let hash = sha3_Sum256 c (Output newFrame @ commitment prior);
          count = num_siblings (ucast par)
      in Option.bind (BytesToUnbiasedMod hash (ucast par)) (\<lambda>pick.
         if count = 0 \<or> length proofs < count then Some (Inl Panic)
         else Option.bind (pick_loop c (ucast par) hash [pick] (count - 1)) (\<lambda>picks.
           Some (Inr (check_leaves a (FDifficulty frame)
             (individual_challenge peerId (previousFrame prior) (beforeCommitment prior))
             picks (drop (length proofs - count) proofs))))))"

text \<open>
  The part the two formats share; \<open>unpack\<close> and \<open>check\<close> are what they differ in, and only the
  combined one passes the prior commitment on. \<open>judge_proofs\<close> is what follows unpacking.
\<close>

definition prior_commitment :: "prior_proof option \<Rightarrow> bytes" where
  "prior_commitment prior = (case prior of None \<Rightarrow> [] | Some p \<Rightarrow> commitment p)"

definition mint_of ::
    "bytes list \<Rightarrow> bytes \<Rightarrow> bool \<Rightarrow> prior_proof option \<Rightarrow> bytes \<Rightarrow> u32 \<Rightarrow> u64 \<Rightarrow> bool \<Rightarrow> bool \<Rightarrow> processed_mint" where
  "mint_of proofs altAddrBytes combined prior newRoot par newNumber verified weso =
     \<lparr>isPre2 = False, penalty = False, deletedProof = map_option priorProof prior, parallelism = par,
      priorCommitment = (if combined then prior_commitment prior else []),
      newCommitment = newRoot, newFrameNumber = newNumber, implicitAddr = altAddrBytes,
      validForReward = (verified \<and> prior \<noteq> None \<and> length proofs > 3 \<and> weso),
      treeVerified = verified, wesoVerified = weso\<rparr>"

definition out_of_order :: "u64 \<Rightarrow> prior_proof option \<Rightarrow> u64 \<Rightarrow> bool" where
  "out_of_order currentFrameNumber prior newNumber \<longleftrightarrow>
     (case prior of None \<Rightarrow> False | Some p \<Rightarrow> newNumber \<le> FFrameNumber (previousFrame p)) \<or>
     newNumber < currentFrameNumber - 1"

definition tree_verified :: "prior_proof option \<Rightarrow> u32 \<Rightarrow> bool \<Rightarrow> bool" where
  "tree_verified prior par verified \<longleftrightarrow> verified \<and>
     (case prior of None \<Rightarrow> True | Some p \<Rightarrow> \<not> (previousParallelism p \<noteq> 0 \<and> previousParallelism p \<noteq> par))"

definition judge_proofs ::
    "token_application \<Rightarrow> u64 \<Rightarrow> bytes list \<Rightarrow> clock_frame \<Rightarrow> bytes \<Rightarrow>
     (prior_proof \<Rightarrow> u32 \<Rightarrow> clock_frame \<Rightarrow> bool option result option) \<Rightarrow> bool \<Rightarrow> prior_proof option \<Rightarrow>
     bytes \<times> u32 \<times> u64 \<times> bool \<Rightarrow> processed_mint result option" where
  "judge_proofs a currentFrameNumber proofs frame altAddrBytes check combined prior = (\<lambda>(newRoot, par, newNumber, ok).
     let verified = tree_verified prior par ok;
         out = mint_of proofs altAddrBytes combined prior newRoot par newNumber verified
     in if out_of_order currentFrameNumber prior newNumber then Some (Inl ErrInvalidStateTransition)
        else case prior of
            None \<Rightarrow> Some (Inr (out True))
          | Some p \<Rightarrow>
              if verified \<and> length proofs > 3 then
                or_penalty (frame_at a (FFilter frame) newNumber) (\<lambda>newFrame.
                bindL (check p par newFrame) (\<lambda>weso.
                case weso of None \<Rightarrow> Some (Inr penalty_mint) | Some w \<Rightarrow> Some (Inr (out w))))
              else Some (Inr (out True)))"

definition process_proofs ::
    "token_application \<Rightarrow> u64 \<Rightarrow> bytes list \<Rightarrow> clock_frame \<Rightarrow> bytes \<Rightarrow>
     (bytes \<Rightarrow> bytes list \<Rightarrow> (bytes \<times> u32 \<times> u64 \<times> bool) result) \<Rightarrow>
     (prior_proof \<Rightarrow> u32 \<Rightarrow> clock_frame \<Rightarrow> bool option result option) \<Rightarrow> bool \<Rightarrow> processed_mint result option" where
  "process_proofs a currentFrameNumber proofs frame altAddrBytes unpack check combined =
     bindL (map_option invalidE (proofs_of a altAddrBytes)) (\<lambda>(_, prfs).
     bindL (Some (scan_proofs a (FFilter frame) None prfs)) (\<lambda>scan.
     case scan of
       Inl _ \<Rightarrow> Some (Inr penalty_mint)
     | Inr prior \<Rightarrow>
         or_penalty (unpack (prior_commitment prior) proofs)
           (judge_proofs a currentFrameNumber proofs frame altAddrBytes check combined prior)))"

definition preProcessMint ::
    "crypto_ops \<Rightarrow> merkle_ops \<Rightarrow> token_application \<Rightarrow> u64 \<Rightarrow> mint_coin_request \<Rightarrow> clock_frame \<Rightarrow>
     processed_mint result option" where
  "preProcessMint c m a currentFrameNumber t frame =
     bindL (Some (invalidE (MintCoinRequest_Validate c (Some t)))) (\<lambda>_.
     bindL (Some (sig_key (MintSignature t))) (\<lambda>key.
     bindL (Some (invalidE (peer_id c key))) (\<lambda>peerId.
     bindL (Some (invalidE (poseidon_HashBytes c key))) (\<lambda>addr.
     bindL (Some (fill_bytes 32 addr)) (\<lambda>addrBytes.
     bindL (Some (invalidE (poseidon_HashBytes c peerId))) (\<lambda>altAddr.
     bindL (Some (fill_bytes 32 altAddr)) (\<lambda>altAddrBytes.
     bindL (Some (if length (Proofs t) = 1
         then bindE (nthE (Tries a) 0) (\<lambda>trie. Inr (Contains trie addrBytes \<and> key = Beacon a))
         else Inr False)) (\<lambda>pre2.
     if pre2 then Some (Inr (zero_mint\<lparr>isPre2 := True\<rparr>))
     else if length (Proofs t) > 0 \<and> currentFrameNumber > PROOF_FRAME_CUTOFF \<and>
         currentFrameNumber < PROOF_FRAME_COMBINE_CUTOFF then
       process_proofs a currentFrameNumber (Proofs t) frame altAddrBytes (UnpackAndVerifyOutput c m)
         (check_single c a frame (Proofs t) peerId) False
     else if length (Proofs t) > 0 \<and> currentFrameNumber \<ge> PROOF_FRAME_COMBINE_CUTOFF then
       process_proofs a currentFrameNumber (Proofs t) frame altAddrBytes (UnpackAndVerifyMultiOutput c m)
         (check_multi c a frame (Proofs t) peerId) True
     else Some (Inl ErrInvalidStateTransition)))))))))"

section \<open>Outputs\<close>

definition implicit_owner :: "bytes \<Rightarrow> account_ref option" where
  "implicit_owner address = Some (ImplicitAccount \<lparr>ImplicitType = 0, ImplicitAddress = address, Domain = []\<rparr>)"

definition penalty_output :: "bytes \<Rightarrow> token_output" where
  "penalty_output address = OutPenalty \<lparr>Quantity = 10, PenaltyAccount = implicit_owner address\<rparr>"

text \<open>A proof with the zero values of the fields a literal leaves out.\<close>

definition zero_proof :: pre_coin_proof where
  "zero_proof = \<lparr>ProofAmount = [], Index = 0, IndexProof = [], Commitment = [], Proof = [], Parallelism = 0,
     Difficulty = 0, ProofOwner = None\<rparr>"

text \<open>The last trie, after the first, that holds the address; \<open>-1\<close> if none does.\<close>

definition last_ring :: "rolling_trie list \<Rightarrow> bytes \<Rightarrow> int" where
  "last_ring ts address =
     fold (\<lambda>(i, t) ring. if Contains t address then int i else ring) (enumerate 0 ts) (- 1)"

definition mint_pre2 :: "token_application \<Rightarrow> mint_coin_request \<Rightarrow> token_output list result option" where
  "mint_pre2 a t =
     bindL (Some (nthE (Proofs t) 0)) (\<lambda>proof.
     if length proof \<noteq> 64 then Some (Inl ErrInvalidStateTransition)
     else bindL (map_option (\<lambda>r. case r of
             Inl ErrNotFound \<Rightarrow> Inr []
           | Inl Panic \<Rightarrow> Inl Panic
           | Inl e \<Rightarrow> Inl ErrInvalidStateTransition
           | Inr (_, pr) \<Rightarrow> Inr pr) (proofs_of a (drop 32 proof))) (\<lambda>pr.
       if list_ex (\<lambda>p. IndexProof p = [] \<and> ProofAmount p = take 32 proof) pr
       then Some (Inl ErrInvalidStateTransition)
       else bindL (Some (derefE (MintSignature t))) (\<lambda>s.
         Some (Inr
           [OutProof (zero_proof\<lparr>ProofAmount := take 32 proof, ProofOwner := implicit_owner (drop 32 proof),
              Proof := Signature s\<rparr>),
            OutCoin \<lparr>Amount = take 32 proof, Intersection = replicate 1024 0,
              Owner = implicit_owner (drop 32 proof)\<rparr>]))))"

text \<open>
  \<open>PomwBasis(1, ring, n) / m * parallelism\<close>; \<open>int64(m)\<close> is read as signed and \<open>FillBytes\<close> takes the
  absolute value.
\<close>

definition reward :: "int \<Rightarrow> u64 \<Rightarrow> (int \<Rightarrow> u64) \<Rightarrow> u32 \<Rightarrow> bytes result" where
  "reward ring currentFrameNumber parallelismMap par =
     bindE (derefE (PomwBasis 1 ring currentFrameNumber)) (\<lambda>storage.
     let m = (if parallelismMap ring = 0 then 1 else parallelismMap ring) in
     fill_bytes 32 (storage div nat \<bar>sint m\<bar> * unat par))"

definition mint_outputs ::
    "token_application \<Rightarrow> u64 \<Rightarrow> bytes \<Rightarrow> bytes \<Rightarrow> processed_mint \<Rightarrow> int \<Rightarrow> (int \<Rightarrow> u64) \<Rightarrow> token_output list result" where
  "mint_outputs a currentFrameNumber payload altAddrBytes processed ring parallelismMap =
     (let gone = (case deletedProof processed of None \<Rightarrow> [] | Some p \<Rightarrow> [DeletedProof p]);
          proof = zero_proof\<lparr>Commitment := newCommitment processed @ be_put_uint64 (newFrameNumber processed) @
              priorCommitment processed,
            Proof := payload, Difficulty := AppDifficulty a, ProofOwner := implicit_owner altAddrBytes\<rparr>
      in if validForReward processed then
           bindE (reward ring currentFrameNumber parallelismMap (parallelism processed)) (\<lambda>storageBytes.
           Inr (gone @ [OutProof (proof\<lparr>ProofAmount := storageBytes\<rparr>),
             OutCoin \<lparr>Amount = storageBytes, Intersection = replicate 1024 0, Owner = implicit_owner altAddrBytes\<rparr>]))
         else
           Inr (gone @ [OutProof proof] @
             (if \<not> wesoVerified processed \<or> (currentFrameNumber < PROOF_FRAME_RING_RESET \<and> \<not> treeVerified processed)
              then [penalty_output altAddrBytes] else [])))"

definition handleMint ::
    "crypto_ops \<Rightarrow> token_application \<Rightarrow> u64 \<Rightarrow> mint_coin_request \<Rightarrow> clock_frame \<Rightarrow> processed_mint \<Rightarrow> (int \<Rightarrow> u64) \<Rightarrow>
     token_output list result option" where
  "handleMint c a currentFrameNumber t frame processed parallelismMap =
     bindL (Some (sig_key (MintSignature t))) (\<lambda>key.
     bindL (Some (invalidE (peer_id c key))) (\<lambda>peerId.
     bindL (Some (invalidE (poseidon_HashBytes c peerId))) (\<lambda>altAddr.
     bindL (Some (fill_bytes 32 altAddr)) (\<lambda>altAddrBytes.
     if isPre2 processed then mint_pre2 a t
     else if length (Proofs t) > 0 \<and> currentFrameNumber > PROOF_FRAME_CUTOFF then
       if Tries a = [] then Some (Inl Panic)
       else if penalty processed then Some (Inr [penalty_output altAddrBytes])
       else Some (mint_outputs a currentFrameNumber (str_bytes ''mint'' @ concat (Proofs t)) altAddrBytes processed
              (last_ring (tl (Tries a)) altAddrBytes) parallelismMap)
     else Some (Inl ErrInvalidStateTransition)))))"

section \<open>Bounds on rewards\<close>

lemma halving_divisor: "at_least (((\<lambda>d. bf_Mul d (bf_SetInt64 2)) ^^ n) (bf_SetInt64 1)) n 0"
proof (induction n)
  case 0
  then show ?case by (simp add: bf_SetInt64_ge)
next
  case (Suc n)
  have "at_least (bf_SetInt64 2) 1 0" by (rule bf_SetInt64_ge) simp
  from bf_Mul_ge [OF Suc this] show ?case by simp
qed

text \<open>Before the frame number wraps around, \<open>normalized\<close> is at least \<open>2 ^ 2 / 2 ^ 20\<close>.\<close>

lemma growth_steps:
  fixes n :: u64
  assumes "unat n < 2 ^ 64 - 737280"
  shows "4 \<le> unat ((737280 + n) div 184320)"
proof -
  have "unat (737280 + n) = 737280 + unat n"
    using assms by (subst unat_add_lem [THEN iffD1]) simp_all
  then have "unat ((737280 + n) div 184320) = (737280 + unat n) div 184320" by (simp add: unat_div)
  moreover have "737280 div 184320 \<le> (737280 + unat n) div 184320" by (rule div_le_mono) simp
  ultimately show ?thesis by simp
qed

lemma PomwBasis_bound:
  assumes "unat n < 2 ^ 64 - 737280"
  obtains b where "PomwBasis 1 ring n = Some b" "b * 2 ^ nat ring \<le> 2 ^ 42"
proof -
  have n: "at_least (bf_SetInt64 (unat ((737280 + n) div 184320))) 2 0"
    using growth_steps [OF assms] by (intro bf_SetInt64_ge) simp
  have d: "at_most (bf_SetInt64 1048576) 20 0" "0 < fst (bf_SetInt64 1048576)"
    using at_least_pos [OF bf_SetInt64_ge [of 20 1048576]] by (auto intro: bf_SetInt64_le)
  obtain x where x: "bf_Quo (bf_SetInt64 (unat ((737280 + n) div 184320))) (bf_SetInt64 1048576) = Some x" "at_least x 2 20"
    using bf_Quo_ge [OF n d] by (metis add.left_neutral add.right_neutral)
  have s: "at_least (bf_Sqrt x) 1 10" by (rule bf_Sqrt_ge) (use x(2) in simp_all)
  have o: "at_most (bf_SetInt64 1) 0 0" by (rule bf_SetInt64_le) simp
  obtain v where v: "bf_Quo (bf_SetInt64 1) (bf_Sqrt x) = Some v" "at_most v 10 1"
    using bf_Quo_le [OF o s] by (metis add.left_neutral)
  obtain z where z: "(if ring > 0 then bf_Quo v (((\<lambda>d. bf_Mul d (bf_SetInt64 2)) ^^ nat ring) (bf_SetInt64 1)) else Some v) =
      Some z" "at_most z 10 (1 + nat ring)"
  proof (cases "ring > 0")
    case True
    from bf_Quo_le [OF v(2) halving_divisor [of "nat ring"]] obtain w where
      "bf_Quo v (((\<lambda>d. bf_Mul d (bf_SetInt64 2)) ^^ nat ring) (bf_SetInt64 1)) = Some w" "at_most w 10 (1 + nat ring)"
      by (metis add.right_neutral)
    then show ?thesis using that True by simp
  qed (use that v(2) in simp)
  have "at_most (bf_SetInt64 8000000000) 33 0" by (rule bf_SetInt64_le) simp
  from bf_Mul_le [OF z(2) this] have m: "at_most (bf_Mul z (bf_SetInt64 8000000000)) 43 (1 + nat ring)" by simp
  have "PomwBasis 1 ring n = Some (bf_Int (bf_Mul z (bf_SetInt64 8000000000)))"
    using x(1) v(1) z(1) by (simp add: PomwBasis_def Let_def)
  moreover have "bf_Int (bf_Mul z (bf_SetInt64 8000000000)) * 2 ^ (1 + nat ring) \<le> 2 ^ 43" by (rule bf_Int_le [OF m])
  ultimately show ?thesis using that by (simp add: mult.commute)
qed

text \<open>The divisor of a ring's reward: the parallelism recorded for the ring, at least 1, read as signed.\<close>

definition ring_share :: "(int \<Rightarrow> u64) \<Rightarrow> int \<Rightarrow> nat" where
  "ring_share parallelismMap ring = nat \<bar>sint (if parallelismMap ring = 0 then 1 else parallelismMap ring)\<bar>"

lemma reward_exact:
  assumes "unat n < 2 ^ 64 - 737280"
  obtains b bs where "PomwBasis 1 ring n = Some b" "b * 2 ^ nat ring \<le> 2 ^ 42" "reward ring n parMap par = Inr bs"
    "nat_of_be bs = b div ring_share parMap ring * unat par" "length bs = 32"
proof -
  obtain b where b: "PomwBasis 1 ring n = Some b" "b * 2 ^ nat ring \<le> 2 ^ 42" by (rule PomwBasis_bound [OF assms])
  let ?v = "b div ring_share parMap ring * unat par"
  have "b \<le> b * 2 ^ nat ring" by simp
  then have "b div ring_share parMap ring \<le> 2 ^ 42" using b(2) by (meson div_le_dividend order_trans)
  then have "?v \<le> 2 ^ 42 * unat par" by (rule mult_le_mono1)
  also have "\<dots> < 2 ^ 42 * 2 ^ 32" using unsigned_less [of par] by simp
  also have "\<dots> \<le> (256 :: nat) ^ 32" by simp
  finally have lt: "?v < 256 ^ 32" .
  have "reward ring n parMap par = Inr (be_of_nat 32 ?v)"
    using lt b(1) by (simp add: reward_def fill_bytes_def ring_share_def Let_def)
  moreover have "nat_of_be (be_of_nat 32 ?v) = ?v" using lt by (simp add: nat_of_be_of_nat)
  ultimately show ?thesis using that b by simp
qed

end
