(* ===== verification/MintSafety.thy ===== *)
theory MintSafety
  imports Mint
begin

text \<open>
  What minting guarantees: a coin is created only for the beacon or for proven work, and a prover
  that follows the protocol is rewarded.
\<close>

section \<open>What a valid proof shows\<close>

text \<open>
  The proof a submission is checked against: the last stored proof of the right shape, with the
  commitment, the frame and the prover count it holds. Only a commitment of 72 bytes names the
  commitment before it.
\<close>

definition proof_shape :: "pre_coin_proof \<Rightarrow> bool" where
  "proof_shape p \<longleftrightarrow> length (Proof p) \<ge> 3 \<and> (length (Commitment p) = 40 \<or> length (Commitment p) = 72)"

definition read_from :: "token_application \<Rightarrow> bytes \<Rightarrow> prior_proof \<Rightarrow> bool" where
  "read_from a flt p \<longleftrightarrow>
     proof_shape (priorProof p) \<and>
     commitment p = take 32 (Commitment (priorProof p)) \<and>
     (\<exists>num. be_uint64 (drop 32 (Commitment (priorProof p))) = Inr num \<and> frame_at a flt num = Inr (previousFrame p)) \<and>
     be_uint32 (take 4 (drop 36 (Proof (priorProof p)))) = Inr (previousParallelism p) \<and>
     (length (Commitment (priorProof p)) = 72 \<longrightarrow> beforeCommitment p = drop 40 (Commitment (priorProof p)))"

lemma scan_proofs_prior:
  assumes "scan_proofs a flt previous prfs = Inr (Inr (Some p))"
    and "\<And>q. previous = Some q \<Longrightarrow> read_from a flt q"
  shows "read_from a flt p \<and> (previous = Some p \<and> list_all (Not \<circ> proof_shape) prfs \<or>
     (\<exists>xs ys. prfs = xs @ priorProof p # ys \<and> list_all (Not \<circ> proof_shape) ys))"
  using assms
proof (induction a flt previous prfs rule: scan_proofs.induct)
  case (1 a flt previous)
  then show ?case by simp
next
  case (2 a flt previous pr prfs)
  show ?case
  proof (cases "proof_shape pr")
    case False
    then have "scan_proofs a flt previous prfs = Inr (Inr (Some p))" using 2(3) by (simp add: proof_shape_def split: if_splits)
    from 2(2) [OF _ this 2(4)] False show ?thesis
      by (auto simp: proof_shape_def)
  next
    case True
    let ?q = "\<lambda>frame par. \<lparr>priorProof = pr, commitment = take 32 (Commitment pr), previousFrame = frame,
              previousParallelism = par,
              beforeCommitment = (if length (Commitment pr) > 40 then drop 40 (Commitment pr)
                else case previous of None \<Rightarrow> [] | Some p \<Rightarrow> beforeCommitment p)\<rparr>"
    from 2(3) True [unfolded proof_shape_def] obtain nf par where
      e: "be_uint64 (drop 32 (Commitment pr)) = Inr nf" "be_uint32 (take 4 (drop 36 (Proof pr))) = Inr par"
        "guardE (length (Proof pr) \<ge> 40) Panic = Inr ()"
      and s: "(case frame_at a flt nf of Inl Panic \<Rightarrow> Inl Panic | Inl e \<Rightarrow> Inr (Inl ())
          | Inr frame \<Rightarrow> scan_proofs a flt (Some (?q frame par)) prfs) = Inr (Inr (Some p))"
      by (auto simp: bindE_eq_Inr)
    obtain frame where f: "frame_at a flt nf = Inr frame"
    proof (cases "frame_at a flt nf")
      case (Inl e)
      then show ?thesis using s by (cases e) simp_all
    qed
    have r: "scan_proofs a flt (Some (?q frame par)) prfs = Inr (Inr (Some p))" using s f by simp
    have "read_from a flt (?q frame par)"
      using e f True by (auto simp: read_from_def)
    with 2(1) [OF True [unfolded proof_shape_def] f r] show ?thesis
      by (auto intro: exI [of _ "[]"] exI [of _ "pr # _"])
  qed
qed

lemma not_validForReward_penalty [simp]: "\<not> validForReward penalty_mint" "\<not> isPre2 penalty_mint"
  by (simp_all add: penalty_mint_def zero_mint_def)

lemma judge_proofs_Inr:
  "judge_proofs a n proofs frame addr check comb prior (root, par, num, ok) = Some (Inr pm) \<longleftrightarrow>
     \<not> out_of_order n prior num \<and>
     (case prior of
        Some p \<Rightarrow>
          if tree_verified prior par ok \<and> length proofs > 3 then
            pm = penalty_mint \<and> ((\<exists>e. frame_at a (FFilter frame) num = Inl e \<and> e \<noteq> Panic) \<or>
               (\<exists>nf. frame_at a (FFilter frame) num = Inr nf \<and> check p par nf = Some (Inr None))) \<or>
            (\<exists>nf w. frame_at a (FFilter frame) num = Inr nf \<and> check p par nf = Some (Inr (Some w)) \<and>
               pm = mint_of proofs addr comb prior root par num True w)
          else pm = mint_of proofs addr comb prior root par num (tree_verified prior par ok) True
      | None \<Rightarrow> pm = mint_of proofs addr comb prior root par num (tree_verified prior par ok) True)"
  by (cases prior) (auto simp: judge_proofs_def Let_def result_simps split: option.splits)

lemma judge_proofs_valid:
  assumes "judge_proofs a n proofs frame addr check comb prior (root, par, num, ok) = Some (Inr pm)" "validForReward pm"
  obtains p nf where "prior = Some p" "ok" "previousParallelism p \<in> {0, par}" "frame_at a (FFilter frame) num = Inr nf"
    "check p par nf = Some (Inr (Some True))" "\<not> out_of_order n prior num" "length proofs > 3"
    "pm = mint_of proofs addr comb prior root par num True True"
  using assms unfolding judge_proofs_Inr
  by (cases prior) (auto simp: mint_of_def tree_verified_def split: if_splits)

lemma process_proofs_Inr:
  "process_proofs a n proofs frame addr unpack check comb = Some (Inr pm) \<longleftrightarrow>
     (\<exists>fs prfs. proofs_of a addr = Some (Inr (fs, prfs)) \<and>
        (scan_proofs a (FFilter frame) None prfs = Inr (Inl ()) \<and> pm = penalty_mint \<or>
         (\<exists>prior. scan_proofs a (FFilter frame) None prfs = Inr (Inr prior) \<and>
            ((\<exists>e. unpack (prior_commitment prior) proofs = Inl e \<and> e \<noteq> Panic \<and> pm = penalty_mint) \<or>
             (\<exists>u. unpack (prior_commitment prior) proofs = Inr u \<and>
                judge_proofs a n proofs frame addr check comb prior u = Some (Inr pm))))))"
proof -
  consider "proofs_of a addr = None" | e where "proofs_of a addr = Some (Inl e)"
    | fs prfs where "proofs_of a addr = Some (Inr (fs, prfs))"
    by (cases "proofs_of a addr") (auto, metis old.sum.exhaust surj_pair)
  then show ?thesis
  proof cases
    case 2
    then show ?thesis by (auto simp: process_proofs_def result_simps)
  next
    case (3 fs prfs)
    consider e where "scan_proofs a (FFilter frame) None prfs = Inl e" | "scan_proofs a (FFilter frame) None prfs = Inr (Inl ())"
      | prior where "scan_proofs a (FFilter frame) None prfs = Inr (Inr prior)"
      by (cases "scan_proofs a (FFilter frame) None prfs" rule: sum.exhaust) (auto, metis old.sum.exhaust old.unit.exhaust)
    then show ?thesis
    proof cases
      case (3 prior)
      then show ?thesis
        using \<open>proofs_of a addr = Some (Inr (fs, prfs))\<close> by (simp add: process_proofs_def or_penalty_Inr)
    qed (use 3 in \<open>simp_all add: process_proofs_def eq_commute [of pm]\<close>)
  qed (simp add: process_proofs_def)
qed

lemma process_proofs_valid:
  assumes "process_proofs a n proofs frame addr unpack check comb = Some (Inr pm)" "validForReward pm"
  obtains fs prfs prior root par num nf where
    "proofs_of a addr = Some (Inr (fs, prfs))" "scan_proofs a (FFilter frame) None prfs = Inr (Inr (Some prior))"
    "unpack (commitment prior) proofs = Inr (root, par, num, True)" "previousParallelism prior \<in> {0, par}"
    "frame_at a (FFilter frame) num = Inr nf"
    "check prior par nf = Some (Inr (Some True))" "\<not> out_of_order n (Some prior) num" "length proofs > 3"
    "pm = mint_of proofs addr comb (Some prior) root par num True True"
proof -
  from assms obtain fs prfs prior u where 1: "proofs_of a addr = Some (Inr (fs, prfs))"
    "scan_proofs a (FFilter frame) None prfs = Inr (Inr prior)" "unpack (prior_commitment prior) proofs = Inr u"
    "judge_proofs a n proofs frame addr check comb prior u = Some (Inr pm)"
    unfolding process_proofs_Inr by (metis not_validForReward_penalty(1))
  obtain root par num ok where u: "u = (root, par, num, ok)" by (cases u)
  show ?thesis
    by (rule judge_proofs_valid [OF 1(4) [unfolded u] assms(2)]) (use that 1 u in \<open>simp add: prior_commitment_def\<close>)
qed

lemma judge_not_pre2:
  assumes "judge_proofs a n prfs frame ad ch co prior u = Some (Inr pm)"
  shows "\<not> isPre2 pm"
proof -
  obtain root par num ok where u: "u = (root, par, num, ok)" by (cases u)
  show ?thesis
    using assms unfolding u judge_proofs_Inr by (cases prior) (auto simp: mint_of_def split: if_splits)
qed

lemma process_not_pre2: "process_proofs a n prfs frame ad unpack ch co = Some (Inr pm) \<Longrightarrow> \<not> isPre2 pm"
  unfolding process_proofs_Inr using judge_not_pre2 not_validForReward_penalty(2) by blast

lemma check_leaves_True:
  "check_leaves a d challenge picks leaves = Some True \<Longrightarrow> length picks = length leaves \<Longrightarrow>
   list_all2 (\<lambda>pick lf. length lf = 516 \<and> lf \<noteq> replicate 516 0 \<and> verify_challenge a (challenge pick) d lf) picks leaves"
proof (induction a d challenge picks leaves rule: check_leaves.induct)
  case (1 a d challenge pick picks lf leaves)
  then show ?case by (auto simp: check_leaf_def bind_eq_Some_conv split: if_splits)
qed auto

lemma pick_loop_result:
  "pick_loop c modulus h picks k = Some ps \<Longrightarrow> distinct picks \<longrightarrow> distinct ps \<and> length ps = length picks + k"
proof (rule pick_loop.raw_induct [where P = "\<lambda>c modulus h picks k ps. distinct picks \<longrightarrow> distinct ps \<and> length ps = length picks + k"])
  fix loop c modulus h picks k ps
  assume IH: "\<And>c modulus h picks k ps. loop c modulus h picks k = Some ps \<Longrightarrow>
      distinct picks \<longrightarrow> distinct ps \<and> length ps = length picks + k"
    and body: "(if 0 < k
      then Option.bind (BytesToUnbiasedMod (sha3_Sum256 c h) modulus) (\<lambda>pick.
        if pick \<in> set picks then loop c modulus (sha3_Sum256 c h) picks k
        else loop c modulus (sha3_Sum256 c h) (picks @ [pick]) (k - 1))
      else Some picks) = Some ps"
  show "distinct picks \<longrightarrow> distinct ps \<and> length ps = length picks + k"
  proof (cases "0 < k")
    case True
    then obtain pick where "(if pick \<in> set picks then loop c modulus (sha3_Sum256 c h) picks k
        else loop c modulus (sha3_Sum256 c h) (picks @ [pick]) (k - 1)) = Some ps"
      using body by (cases "BytesToUnbiasedMod (sha3_Sum256 c h) modulus") simp_all
    then show ?thesis using IH [of c modulus "sha3_Sum256 c h" picks k ps]
        IH [of c modulus "sha3_Sum256 c h" "picks @ [pick]" "k - 1" ps] True
      by (auto split: if_splits)
  qed (use body in simp)
qed

text \<open>
  What a prover must have submitted. The prior proof is the last one stored for the prover; the
  submission verifies against its commitment, for a later frame and for the prover count it records
  (0 for a proof that records none). The frame that the submission names draws distinct indices
  from its output and the prior commitment, as many as the tree has levels, and the last entries of
  the submission are outputs that answer the challenges of those indices.
\<close>

definition drawn_indices :: "crypto_ops \<Rightarrow> bytes \<Rightarrow> u32 \<Rightarrow> u64 list \<Rightarrow> bool" where
  "drawn_indices c hash par picks \<longleftrightarrow>
     (\<exists>pick. BytesToUnbiasedMod hash (ucast par) = Some pick \<and>
        pick_loop c (ucast par) hash [pick] (num_siblings (ucast par) - 1) = Some picks) \<and>
     distinct picks \<and> length picks = num_siblings (ucast par) \<and> 0 < length picks"

definition proven_work ::
    "crypto_ops \<Rightarrow> merkle_ops \<Rightarrow> token_application \<Rightarrow> u64 \<Rightarrow> clock_frame \<Rightarrow> bytes list \<Rightarrow> bytes \<Rightarrow> bytes \<Rightarrow> u32 \<Rightarrow> bool" where
  "proven_work c m a n frame proofs peerId addr par \<longleftrightarrow>
     (\<exists>fs older newer (prior :: prior_proof) root num nf picks.
        proofs_of a addr = Some (Inr (fs, older @ priorProof prior # newer)) \<and> list_all (Not \<circ> proof_shape) newer \<and>
        read_from a (FFilter frame) prior \<and>
        UnpackAndVerifyMultiOutput c m (commitment prior) proofs = Inr (root, par, num, True) \<and>
        previousParallelism prior \<in> {0, par} \<and>
        FFrameNumber (previousFrame prior) < num \<and> n - 1 \<le> num \<and> frame_at a (FFilter frame) num = Inr nf \<and>
        drawn_indices c (sha3_Sum256 c (Output nf @ commitment prior)) par picks \<and> length picks \<le> length proofs \<and>
        list_all2 (\<lambda>pick lf. length lf = 516 \<and> lf \<noteq> replicate 516 0 \<and>
            verify_challenge a (individual_challenge peerId (previousFrame prior) (beforeCommitment prior) pick)
              (FDifficulty frame) lf)
          picks (drop (length proofs - length picks) proofs))"

lemma process_multi_proven:
  assumes "process_proofs a n proofs frame addr (UnpackAndVerifyMultiOutput c m) (check_multi c a frame proofs peerId) True =
     Some (Inr pm)" "validForReward pm"
  shows "proven_work c m a n frame proofs peerId addr (parallelism pm)"
  using assms
proof (rule process_proofs_valid)
  fix fs prfs prior root par num nf
  assume p: "proofs_of a addr = Some (Inr (fs, prfs))" "scan_proofs a (FFilter frame) None prfs = Inr (Inr (Some prior))"
    and u: "UnpackAndVerifyMultiOutput c m (commitment prior) proofs = Inr (root, par, num, True)"
    and pp: "previousParallelism prior \<in> {0, par}" and nf: "frame_at a (FFilter frame) num = Inr nf"
    and ch: "check_multi c a frame proofs peerId prior par nf = Some (Inr (Some True))"
    and o: "\<not> out_of_order n (Some prior) num"
    and pm: "pm = mint_of proofs addr True (Some prior) root par num True True"
  obtain older newer where pr: "read_from a (FFilter frame) prior" "prfs = older @ priorProof prior # newer"
    "list_all (Not \<circ> proof_shape) newer"
    using scan_proofs_prior [OF p(2)] by auto
  let ?k = "num_siblings (ucast par)"
  let ?hash = "sha3_Sum256 c (Output nf @ commitment prior)"
  from ch obtain pick picks where k: "?k \<noteq> 0" "?k \<le> length proofs" "BytesToUnbiasedMod ?hash (ucast par) = Some pick"
    and pl: "pick_loop c (ucast par) ?hash [pick] (?k - 1) = Some picks"
    and cl: "check_leaves a (FDifficulty frame)
       (individual_challenge peerId (previousFrame prior) (beforeCommitment prior)) picks (drop (length proofs - ?k) proofs) = Some True"
    by (auto simp: check_multi_def Let_def bind_eq_Some_conv linorder_not_less split: if_splits)
  have ps: "distinct picks" "length picks = ?k" using pick_loop_result [OF pl] k(1) by auto
  have "drawn_indices c ?hash par picks" using ps k(1,3) pl unfolding drawn_indices_def by auto
  moreover have "FFrameNumber (previousFrame prior) < num \<and> n - 1 \<le> num"
    using o by (simp add: out_of_order_def linorder_not_le linorder_not_less)
  ultimately show ?thesis
    using p(1) pr u pp nf ps k(2) check_leaves_True [OF cl] unfolding proven_work_def
    by (intro exI [of _ fs] exI [of _ older] exI [of _ newer] exI [of _ prior] exI [of _ root] exI [of _ num]
        exI [of _ nf] exI [of _ picks])
      (simp add: pm mint_of_def)
qed

lemma preProcessMint_cases:
  assumes "preProcessMint c m a n t frame = Some (Inr pm)"
  obtains key peerId addr where "signed_ok c (Mint t)" "sig_key (MintSignature t) = Inr key" "peer_id c key = Inr peerId"
    "altAddress c key = Inr addr"
    "isPre2 pm \<longrightarrow> length (Proofs t) = 1 \<and> key = Beacon a \<and>
       (\<exists>ad. bindE (poseidon_HashBytes c key) (fill_bytes 32) = Inr ad \<and> Tries a \<noteq> [] \<and> Contains (Tries a ! 0) ad)"
    "\<not> isPre2 pm \<longrightarrow> process_proofs a n (Proofs t) frame addr (UnpackAndVerifyMultiOutput c m)
       (check_multi c a frame (Proofs t) peerId) True = Some (Inr pm)"
    "isPre2 pm \<longrightarrow> \<not> validForReward pm"
proof -
  from assms obtain v key peerId addr0 addrBytes alt addr pre2 where
    1: "MintCoinRequest_Validate c (Some t) = Inr v" "sig_key (MintSignature t) = Inr key" "peer_id c key = Inr peerId"
      "poseidon_HashBytes c key = Inr addr0" "fill_bytes 32 addr0 = Inr addrBytes" "poseidon_HashBytes c peerId = Inr alt"
      "fill_bytes 32 alt = Inr addr"
      "(if length (Proofs t) = 1 then bindE (nthE (Tries a) 0) (\<lambda>trie. Inr (Contains trie addrBytes \<and> key = Beacon a))
         else Inr False) = Inr pre2"
    and 2: "(if pre2 then Some (Inr (zero_mint\<lparr>isPre2 := True\<rparr>))
     else if length (Proofs t) > 0 \<and> n > PROOF_FRAME_CUTOFF \<and> n < PROOF_FRAME_COMBINE_CUTOFF then
       process_proofs a n (Proofs t) frame addr (UnpackAndVerifyOutput c m) (check_single c a frame (Proofs t) peerId) False
     else if length (Proofs t) > 0 \<and> n \<ge> PROOF_FRAME_COMBINE_CUTOFF then
       process_proofs a n (Proofs t) frame addr (UnpackAndVerifyMultiOutput c m) (check_multi c a frame (Proofs t) peerId) True
     else Some (Inl ErrInvalidStateTransition)) = Some (Inr pm)"
    unfolding preProcessMint_def bindL_eq_Inr wrapE_eq_Inr option.inject by blast
  have alt: "altAddress c key = Inr addr" using 1 by (simp add: altAddress_def peer_id_def bindE_assoc [symmetric])
  have "(isPre2 pm \<longleftrightarrow> pre2) \<and> (isPre2 pm \<longrightarrow> \<not> validForReward pm)"
    using 2 process_not_pre2 by (cases pre2) (auto simp: zero_mint_def split: if_splits)
  moreover have "\<not> n < PROOF_FRAME_COMBINE_CUTOFF" by (simp add: PROOF_FRAME_COMBINE_CUTOFF_def)
  ultimately show ?thesis
    using that [of key peerId addr] 1 2 alt
    by (auto simp: Validate_iff nthE_def split: if_splits)
qed

definition coins_of :: "token_output list \<Rightarrow> coin list" where
  "coins_of outs = concat (map (\<lambda>x. case x of OutCoin k \<Rightarrow> [k] | _ \<Rightarrow> []) outs)"

lemma coins_of_simps [simp]:
  "coins_of [] = []" "coins_of (xs @ ys) = coins_of xs @ coins_of ys" "coins_of (OutCoin k # xs) = k # coins_of xs"
  "coins_of (OutProof p # xs) = coins_of xs" "coins_of (OutPenalty e # xs) = coins_of xs"
  "coins_of (DeletedProof p # xs) = coins_of xs"
  by (simp_all add: coins_of_def)

lemma mint_pre2_coin:
  assumes "mint_pre2 a t = Some (Inr outs)" "length (Proofs t) = 1"
  shows "length (Proofs t ! 0) = 64 \<and>
    (\<exists>k. coins_of outs = [k] \<and> Amount k = take 32 (Proofs t ! 0) \<and> Owner k = implicit_owner (drop 32 (Proofs t ! 0)))"
  using assms by (auto simp: mint_pre2_def bindL_eq_Inr nthE_def split: if_splits)

lemma mint_outputs_coin:
  assumes "mint_outputs a n payload addr pm ring parMap = Inr outs"
  shows "coins_of outs = [] \<and> \<not> validForReward pm \<or>
    (\<exists>k. coins_of outs = [k] \<and> validForReward pm \<and> Owner k = implicit_owner addr \<and>
       reward ring n parMap (parallelism pm) = Inr (Amount k))"
  using assms
  by (auto simp: mint_outputs_def Let_def bindE_eq_Inr penalty_output_def split: if_splits option.splits)

section \<open>Properties\<close>

text \<open>
  What a minted coin rests on. The request is signed. Either the signer is the beacon, an active
  prover, and the coin is the one its 64-byte proof names; or the coin belongs to the prover, has
  proven its work, and is worth its share of the ring's reward: the reward of the ring, which halves
  with every ring, divided by the parallelism recorded for the ring, times the proven parallelism.
\<close>

definition beacon_coin :: "crypto_ops \<Rightarrow> token_application \<Rightarrow> mint_coin_request \<Rightarrow> bytes \<Rightarrow> coin \<Rightarrow> bool" where
  "beacon_coin c a t key k \<longleftrightarrow>
     key = Beacon a \<and> length (Proofs t) = 1 \<and> length (Proofs t ! 0) = 64 \<and>
     Amount k = take 32 (Proofs t ! 0) \<and> Owner k = implicit_owner (drop 32 (Proofs t ! 0)) \<and>
     (\<exists>ad. bindE (poseidon_HashBytes c key) (fill_bytes 32) = Inr ad \<and> Tries a \<noteq> [] \<and> Contains (Tries a ! 0) ad)"

definition reward_coin ::
    "crypto_ops \<Rightarrow> merkle_ops \<Rightarrow> token_application \<Rightarrow> u64 \<Rightarrow> clock_frame \<Rightarrow> (int \<Rightarrow> u64) \<Rightarrow> mint_coin_request \<Rightarrow> bytes \<Rightarrow> bytes \<Rightarrow>
     u32 \<Rightarrow> coin \<Rightarrow> bool" where
  "reward_coin c m a n frame parMap t peerId addr par k \<longleftrightarrow>
     Owner k = implicit_owner addr \<and> proven_work c m a n frame (Proofs t) peerId addr par \<and>
     (let ring = last_ring (tl (Tries a)) addr
      in \<exists>b. PomwBasis 1 ring n = Some b \<and> b * 2 ^ nat ring \<le> 2 ^ 42 \<and>
           nat_of_be (Amount k) = b div ring_share parMap ring * unat par)"

definition mint_pays ::
    "crypto_ops \<Rightarrow> merkle_ops \<Rightarrow> token_application \<Rightarrow> u64 \<Rightarrow> clock_frame \<Rightarrow> (int \<Rightarrow> u64) \<Rightarrow> mint_coin_request \<Rightarrow>
     processed_mint \<Rightarrow> coin list \<Rightarrow> bool" where
  "mint_pays c m a n frame parMap t pm coins \<longleftrightarrow>
     (\<exists>key peerId addr. signed_ok c (Mint t) \<and> sig_key (MintSignature t) = Inr key \<and> peer_id c key = Inr peerId \<and>
        altAddress c key = Inr addr \<and>
        (if isPre2 pm then \<exists>k. coins = [k] \<and> beacon_coin c a t key k
         else if validForReward pm then
           \<exists>k. coins = [k] \<and> reward_coin c m a n frame parMap t peerId addr (parallelism pm) k
         else coins = []))"

lemma mint_backed:
  assumes pre: "preProcessMint c m a n t frame = Some (Inr pm)"
    and mint: "handleMint c a n t frame pm parMap = Some (Inr outs)"
    and n: "unat n < 2 ^ 64 - 737280"
  shows "mint_pays c m a n frame parMap t pm (coins_of outs)"
  using pre
proof (rule preProcessMint_cases)
  fix key peerId addr
  assume k: "signed_ok c (Mint t)" "sig_key (MintSignature t) = Inr key" "peer_id c key = Inr peerId" "altAddress c key = Inr addr"
    and p2: "isPre2 pm \<longrightarrow> length (Proofs t) = 1 \<and> key = Beacon a \<and>
       (\<exists>ad. bindE (poseidon_HashBytes c key) (fill_bytes 32) = Inr ad \<and> Tries a \<noteq> [] \<and> Contains (Tries a ! 0) ad)"
    and np: "\<not> isPre2 pm \<longrightarrow> process_proofs a n (Proofs t) frame addr (UnpackAndVerifyMultiOutput c m)
       (check_multi c a frame (Proofs t) peerId) True = Some (Inr pm)"
  obtain alt where alt: "poseidon_HashBytes c peerId = Inr alt" "fill_bytes 32 alt = Inr addr"
    using k(3,4) by (auto simp: altAddress_def peer_id_def bindE_eq_Inr)
  let ?ring = "last_ring (tl (Tries a)) addr"
  have "if isPre2 pm then \<exists>k. coins_of outs = [k] \<and> beacon_coin c a t key k
    else if validForReward pm then
      \<exists>k. coins_of outs = [k] \<and> reward_coin c m a n frame parMap t peerId addr (parallelism pm) k
    else coins_of outs = []"
  proof (cases "isPre2 pm")
    case True
    have "mint_pre2 a t = Some (Inr outs)" using mint k alt True by (simp add: handleMint_def)
    from mint_pre2_coin [OF this] show ?thesis using p2 True k unfolding beacon_coin_def by auto
  next
    case False
    have v: "validForReward pm \<Longrightarrow> \<not> penalty pm"
      using process_proofs_valid [of a n "Proofs t" frame addr _ _ True pm] np False by (force simp: mint_of_def)
    consider "penalty pm" "outs = [penalty_output addr]"
      | "mint_outputs a n (str_bytes ''mint'' @ concat (Proofs t)) addr pm ?ring parMap = Inr outs"
      using mint k alt False by (auto simp: handleMint_def split: if_splits)
    then show ?thesis
    proof cases
      case 1
      then show ?thesis using v False by (auto simp: penalty_output_def)
    next
      case 2
      note o = mint_outputs_coin [OF this]
      show ?thesis
      proof (cases "validForReward pm")
        case True
        then obtain co where co: "coins_of outs = [co]" "Owner co = implicit_owner addr"
          "reward ?ring n parMap (parallelism pm) = Inr (Amount co)" using o by blast
        obtain b bs where "PomwBasis 1 ?ring n = Some b" "b * 2 ^ nat ?ring \<le> 2 ^ 42" "reward ?ring n parMap (parallelism pm) = Inr bs"
          "nat_of_be bs = b div ring_share parMap ?ring * unat (parallelism pm)"
          by (rule reward_exact [OF n])
        moreover have "proven_work c m a n frame (Proofs t) peerId addr (parallelism pm)"
          by (rule process_multi_proven) (use np False True in simp_all)
        ultimately show ?thesis using co True False by (simp add: reward_coin_def Let_def)
      qed (use o False in auto)
    qed
  qed
  then show ?thesis using k unfolding mint_pays_def by blast
qed

text \<open>
  C4: what minting pays. The request is signed. If the signer is the beacon, an active prover, with
  one proof, the request creates one coin, the one its 64-byte proof names. If the proofs are valid
  for a reward, it creates one coin: the coin belongs to the prover and is worth exactly the reward
  of its ring (at most \<open>2 ^ 42\<close> units, halved for every ring) divided by the parallelism recorded for
  the ring, times the parallelism of the proof; and the prover has submitted a proof for that
  parallelism which verifies against the commitment last stored for it, with outputs at the indices
  the new frame draws, as many as the tree has levels, that answer their challenges. Otherwise it
  creates no coin. The frame number is below \<open>2 ^ 64 - 737280\<close>.
\<close>

theorem minted_coins_are_backed:
  assumes pre: "preProcessMint c m a n t frame = Some (Inr pm)"
    and mint: "handleMint c a n t frame pm parMap = Some (Inr outs)"
    and n: "unat n < 2 ^ 64 - 737280"
  shows "mint_pays c m a n frame parMap t pm (coins_of outs)"
  by (rule mint_backed [OF assms])

lemma handleMint_spends_nothing:
  assumes "handleMint c a n t frame pm parMap = Some (Inr outs)" "x \<in> set outs"
  shows "spent x = []"
  using assms
  by (auto simp: handleMint_def mint_pre2_def mint_outputs_def penalty_output_def spent_def Let_def bindL_eq_Inr bindE_eq_Inr
      split: if_splits option.splits)


section \<open>Honest provers\<close>

lemma check_leaves_all:
  assumes "\<And>p. p \<in> set picks \<Longrightarrow> length (lf p) = 516 \<and> lf p \<noteq> replicate 516 0 \<and> verify_challenge a (challenge p) d (lf p)"
  shows "check_leaves a d challenge picks (map lf picks) = Some True"
  using assms by (induction picks) (simp_all add: check_leaf_def)

lemma check_multi_honest:
  assumes "BytesToUnbiasedMod (sha3_Sum256 c (Output nf @ commitment prior)) (ucast par) = Some pick"
    and "pick_loop c (ucast par) (sha3_Sum256 c (Output nf @ commitment prior)) [pick] (num_siblings (ucast par) - 1) = Some picks"
    and "drop (length proofs - num_siblings (ucast par)) proofs = map lf picks"
    and "0 < num_siblings (ucast par)" "num_siblings (ucast par) \<le> length proofs"
    and "\<And>p. p \<in> set picks \<Longrightarrow> length (lf p) = 516 \<and> lf p \<noteq> replicate 516 0 \<and>
      verify_challenge a (individual_challenge peerId (previousFrame prior) (beforeCommitment prior) p) (FDifficulty frame) (lf p)"
  shows "check_multi c a frame proofs peerId prior par nf = Some (Inr (Some True))"
  using assms(1-5) check_leaves_all [OF assms(6)] by (simp add: check_multi_def Let_def)

text \<open>
  What the theorem below asks of a prover: its stored proof commits to the root of the tree of its
  previous outputs, for an earlier frame; those outputs answer the challenges of their indices; the
  request packs new outputs for the frame \<open>nf\<close>.
\<close>

definition honest_prover ::
    "crypto_ops \<Rightarrow> merkle_ops \<Rightarrow> token_application \<Rightarrow> clock_frame \<Rightarrow> clock_frame \<Rightarrow> bytes \<Rightarrow> bytes \<Rightarrow> prior_proof \<Rightarrow>
     bytes list \<Rightarrow> merkle_tree \<Rightarrow> bytes list \<Rightarrow> merkle_tree \<Rightarrow> bool" where
  "honest_prover c m a frame nf peerId addr prior old prev outputs tree \<longleftrightarrow>
     mt_New m (sha3_Sum256 c) old = Inr prev \<and> mt_New m (sha3_Sum256 c) outputs = Inr tree \<and>
     length old = length outputs \<and> 2 \<le> length outputs \<and> length outputs < 2 ^ 32 \<and>
     (\<exists>fs prfs. proofs_of a addr = Some (Inr (fs, prfs)) \<and> scan_proofs a (FFilter frame) None prfs = Inr (Inr (Some prior))) \<and>
     commitment prior = Root prev \<and> previousParallelism prior \<in> {0, of_nat (length outputs)} \<and>
     FFrameNumber (previousFrame prior) < FFrameNumber nf \<and> frame_at a (FFilter frame) (FFrameNumber nf) = Inr nf \<and>
     (\<forall>i. i < length old \<longrightarrow> length (old ! i) = 516 \<and> old ! i \<noteq> replicate 516 0 \<and>
        verify_challenge a (individual_challenge peerId (previousFrame prior) (beforeCommitment prior) (of_nat i))
          (FDifficulty frame) (old ! i))"

lemma honest_process:
  assumes laws: "merkle_laws m (sha3_Sum256 c)"
    and honest: "honest_prover c m a frame nf peerId addr prior old prev outputs tree"
    and order: "n - 1 \<le> FFrameNumber nf"
    and pack: "PackOutputIntoMultiPayloadAndProof c m outputs (int (length outputs)) nf (Some prev) = Some (Inr (tree, proofs))"
    and hash: "hash = sha3_Sum256 c (Output nf @ Root prev)"
    and pick: "BytesToUnbiasedMod hash (of_nat (length outputs)) = Some pick"
    and drawn: "drawn c (of_nat (length outputs)) hash xs" "num_siblings (of_nat (length outputs)) \<le> card (insert pick (set xs))"
  shows "process_proofs a n proofs frame addr (UnpackAndVerifyMultiOutput c m) (check_multi c a frame proofs peerId) True =
      Some (Inr (mint_of proofs addr True (Some prior) (Root tree) (of_nat (length outputs)) (FFrameNumber nf) True True)) \<and>
    3 < length proofs"
proof -
  let ?n = "of_nat (length outputs) :: u64"
  let ?k = "num_siblings ?n"
  note h = honest [unfolded honest_prover_def]
  have len: "length old = length outputs" "2 \<le> length outputs" "length outputs < 2 ^ 32"
    and trees: "mt_New m (sha3_Sum256 c) old = Inr prev" "mt_New m (sha3_Sum256 c) outputs = Inr tree"
    using h by blast+
  obtain picks where u: "UnpackAndVerifyMultiOutput c m (Root prev) proofs = Inr (Root tree, of_nat (length outputs), FFrameNumber nf, True)"
    and l: "length proofs = 4 + 2 * ?k"
    and pl: "pick_loop c ?n hash [pick] (?k - 1) = Some picks"
    and dr: "drop (length proofs - ?k) proofs = map (\<lambda>p. old ! unat p) picks"
    using pack_then_unpack_multi [OF laws trees(2,1) len refl hash pick drawn] pack by auto
  have uc: "(ucast (of_nat (length outputs) :: u32) :: u64) = ?n" by (rule ucast_of_nat_u32 [OF len(3)])
  have k: "0 < ?k"
  proof -
    have "1 < ?n" using len by (auto simp: word_less_nat_alt unat_of_nat)
    then have "unat (?n - 1) \<noteq> 0" by (simp add: unat_eq_0)
    then show ?thesis unfolding num_siblings_def by (subst BitLen.simps) simp
  qed
  have n0: "0 < ?n" using len by (auto simp: word_less_nat_alt unat_of_nat)
  have lt: "\<forall>p \<in> set picks. p < ?n"
  proof -
    have "set picks \<subseteq> insert pick (set xs)"
      using pick_loop_returns [OF drawn(1), of "[pick]" "?k - 1"] drawn(2) k pl by auto
    then show ?thesis using drawn_less [OF drawn(1) n0] unbiased_mod_less [OF pick n0] by auto
  qed
  have leaves: "length (old ! unat p) = 516 \<and> old ! unat p \<noteq> replicate 516 0 \<and>
      verify_challenge a (individual_challenge peerId (previousFrame prior) (beforeCommitment prior) p) (FDifficulty frame) (old ! unat p)"
    if "p \<in> set picks" for p
  proof -
    have "unat p < length old" using lt that len by (auto simp: word_less_nat_alt unat_of_nat)
    moreover have "of_nat (unat p) = p" by simp
    ultimately show ?thesis using h by metis
  qed
  have ch: "check_multi c a frame proofs peerId prior (of_nat (length outputs)) nf = Some (Inr (Some True))"
    by (rule check_multi_honest [where lf = "\<lambda>p. old ! unat p"])
      (use pick pl dr k l leaves h hash in \<open>simp_all add: uc\<close>)
  have tv: "tree_verified (Some prior) (of_nat (length outputs)) True"
    using h by (auto simp: tree_verified_def)
  have no: "\<not> out_of_order n (Some prior) (FFrameNumber nf)"
    using h order by (auto simp: out_of_order_def linorder_not_le linorder_not_less)
  have j: "judge_proofs a n proofs frame addr (check_multi c a frame proofs peerId) True (Some prior)
      (Root tree, of_nat (length outputs), FFrameNumber nf, True) =
      Some (Inr (mint_of proofs addr True (Some prior) (Root tree) (of_nat (length outputs)) (FFrameNumber nf) True True))"
    unfolding judge_proofs_Inr using no tv l k ch h by auto
  have "process_proofs a n proofs frame addr (UnpackAndVerifyMultiOutput c m) (check_multi c a frame proofs peerId) True =
      Some (Inr (mint_of proofs addr True (Some prior) (Root tree) (of_nat (length outputs)) (FFrameNumber nf) True True))"
    unfolding process_proofs_Inr using h u j by (auto simp: prior_commitment_def)
  then show ?thesis using l k by simp
qed

lemma honest_mint:
  assumes laws: "merkle_laws m (sha3_Sum256 c)"
    and valid: "MintCoinRequest_Validate c (Some t) = Inr ()"
    and key: "sig_key (MintSignature t) = Inr key" "peer_id c key = Inr peerId" "altAddress c key = Inr addr"
    and hashes: "poseidon_HashBytes c key = Inr h" "h < 256 ^ 32"
    and honest: "honest_prover c m a frame nf peerId addr prior old prev outputs tree"
    and order: "n - 1 \<le> FFrameNumber nf" "0 < n" "unat n < 2 ^ 64 - 737280" "Tries a \<noteq> []"
    and pack: "PackOutputIntoMultiPayloadAndProof c m outputs (int (length outputs)) nf (Some prev) = Some (Inr (tree, Proofs t))"
    and hash: "hash = sha3_Sum256 c (Output nf @ Root prev)"
    and pick: "BytesToUnbiasedMod hash (of_nat (length outputs)) = Some pick"
    and drawn: "drawn c (of_nat (length outputs)) hash xs" "num_siblings (of_nat (length outputs)) \<le> card (insert pick (set xs))"
  shows "\<exists>pm proof k. preProcessMint c m a n t frame = Some (Inr pm) \<and> validForReward pm \<and>
     handleMint c a n t frame pm parMap = Some (Inr [DeletedProof (priorProof prior), OutProof proof, OutCoin k]) \<and>
     Commitment proof = Root tree @ be_put_uint64 (FFrameNumber nf) @ Root prev \<and>
     Owner k = implicit_owner addr \<and> ProofOwner proof = implicit_owner addr"
proof -
  define pm where "pm = mint_of (Proofs t) addr True (Some prior) (Root tree) (of_nat (length outputs)) (FFrameNumber nf) True True"
  have pp: "process_proofs a n (Proofs t) frame addr (UnpackAndVerifyMultiOutput c m) (check_multi c a frame (Proofs t) peerId) True =
      Some (Inr pm)" and l: "3 < length (Proofs t)"
    using honest_process [OF laws honest order(1) pack hash pick drawn] by (simp_all add: pm_def)
  obtain alt where alt: "poseidon_HashBytes c peerId = Inr alt" "fill_bytes 32 alt = Inr addr"
    using key by (auto simp: altAddress_def peer_id_def bindE_eq_Inr)
  have 1: "preProcessMint c m a n t frame = Some (Inr pm)"
    using valid key hashes alt l pp
    by (auto simp: preProcessMint_def fill_bytes_def [of 32 h] PROOF_FRAME_COMBINE_CUTOFF_def)
  have v: "validForReward pm" "\<not> isPre2 pm" "\<not> penalty pm" "deletedProof pm = Some (priorProof prior)"
    "newCommitment pm = Root tree" "newFrameNumber pm = FFrameNumber nf" "priorCommitment pm = Root prev"
    using l honest by (simp_all add: pm_def mint_of_def honest_prover_def prior_commitment_def)
  obtain bs where bs: "reward (last_ring (tl (Tries a)) addr) n parMap (parallelism pm) = Inr bs"
    by (rule reward_exact [OF order(3)])
  have "handleMint c a n t frame pm parMap = Some (mint_outputs a n (str_bytes ''mint'' @ concat (Proofs t)) addr pm
      (last_ring (tl (Tries a)) addr) parMap)"
    using key alt v order l by (auto simp: handleMint_def PROOF_FRAME_CUTOFF_def)
  then show ?thesis using 1 v bs by (auto simp: mint_outputs_def Let_def zero_proof_def)
qed

text \<open>
  C5: a prover that follows the protocol is rewarded. When its request is valid and packs new
  outputs in the combined format, its stored proof commits to its previous outputs, and the hashes
  give enough distinct indices, \<open>preProcessMint\<close> returns, finds the proof valid for a reward, and
  \<open>handleMint\<close> deletes the stored proof, stores the new commitment and creates a coin for the
  prover.
\<close>

theorem honest_prover_rewarded:
  assumes laws: "merkle_laws m (sha3_Sum256 c)"
    and valid: "MintCoinRequest_Validate c (Some t) = Inr ()"
    and key: "sig_key (MintSignature t) = Inr key" "peer_id c key = Inr peerId" "altAddress c key = Inr addr"
    and hashes: "poseidon_HashBytes c key = Inr h" "h < 256 ^ 32"
    and honest: "honest_prover c m a frame nf peerId addr prior old prev outputs tree"
    and order: "n - 1 \<le> FFrameNumber nf" "0 < n" "unat n < 2 ^ 64 - 737280" "Tries a \<noteq> []"
    and pack: "PackOutputIntoMultiPayloadAndProof c m outputs (int (length outputs)) nf (Some prev) = Some (Inr (tree, Proofs t))"
    and hash: "hash = sha3_Sum256 c (Output nf @ Root prev)"
    and pick: "BytesToUnbiasedMod hash (of_nat (length outputs)) = Some pick"
    and drawn: "drawn c (of_nat (length outputs)) hash xs" "num_siblings (of_nat (length outputs)) \<le> card (insert pick (set xs))"
  shows "\<exists>pm proof k. preProcessMint c m a n t frame = Some (Inr pm) \<and> validForReward pm \<and>
     handleMint c a n t frame pm parMap = Some (Inr [DeletedProof (priorProof prior), OutProof proof, OutCoin k]) \<and>
     Commitment proof = Root tree @ be_put_uint64 (FFrameNumber nf) @ Root prev \<and>
     Owner k = implicit_owner addr \<and> ProofOwner proof = implicit_owner addr"
  by (rule honest_mint [OF assms])

section \<open>Requests that stop the node\<close>

text \<open>
  A proof for one prover has no siblings: the number of further outputs is \<open>-1\<close>, and reading the
  first output indexes past the proofs. A proof for zero provers asks for 63 further indices below
  0, and the loop that draws them does not end.
\<close>

lemma one_prover_panics: "check_multi c a frame proofs peerId prior 1 nf = Some (Inl Panic)"
  by (simp add: check_multi_def Let_def BytesToUnbiasedMod_def num_siblings_def BitLen.simps)

lemma zero_provers_diverge:
  assumes "64 \<le> length proofs"
  shows "check_multi c a frame proofs peerId prior 0 nf = None"
  using assms pick_loop_diverges [of 0 63 "[0]"]
  by (simp add: check_multi_def Let_def BytesToUnbiasedMod_def num_siblings_0)

section \<open>Samples\<close>

definition sample_outputs :: "bytes list" where
  "sample_outputs = [1 # replicate 515 0, 2 # replicate 515 0]"

definition sample_root :: bytes where
  "sample_root = be_of_nat 32 3"

definition sample_proof :: pre_coin_proof where
  "sample_proof = zero_proof\<lparr>Commitment := sample_root @ be_put_uint64 4,
     Proof := replicate 36 7 @ be_put_uint32 2\<rparr>"

definition sample_frame_at :: "u64 \<Rightarrow> clock_frame" where
  "sample_frame_at n = sample_frame\<lparr>FFrameNumber := n\<rparr>"

definition prover_app :: token_application where
  "prover_app = sample_app\<lparr>Tries := [None], proofs_of := (\<lambda>_. Some (Inr ([4], [sample_proof]))),
     frame_at := (\<lambda>_ n. Inr (sample_frame_at n)), verify_challenge := (\<lambda>_ _ _. True)\<rparr>"

definition sample_prior :: prior_proof where
  "sample_prior = \<lparr>priorProof = sample_proof, commitment = sample_root, previousFrame = sample_frame_at 4,
     previousParallelism = 2, beforeCommitment = []\<rparr>"

lemma sample_scan: "scan_proofs prover_app flt None [sample_proof] = Inr (Inr (Some sample_prior))"
  by (simp add: sample_proof_def zero_proof_def sample_root_def prover_app_def sample_prior_def be_get_put)

lemma sum_list_outputs: "sum_list (map unat (concat sample_outputs)) = 3"
  by (simp add: sample_outputs_def map_replicate sum_list_replicate)

lemma sample_key_addresses:
  "sig_key (newED448Signature sample_key s) = Inr sample_key" "peer_id sample_crypto sample_key = Inr sample_key"
  "altAddress sample_crypto sample_key = Inr (be_of_nat 32 57)" "poseidon_HashBytes sample_crypto sample_key = Inr 57"
  by (simp_all add: sig_key_def newED448Signature_def sample_crypto_def sample_key_def peer_id_def altAddress_def
      UnmarshalEd448PublicKey_def IDFromPublicKey_def map_replicate sum_list_replicate fill_bytes_def)

definition mint_with :: "bytes list \<Rightarrow> mint_coin_request" where
  "mint_with proofs = \<lparr>Proofs = proofs, MintSignature = newED448Signature sample_key (replicate 114 1)\<rparr>"

lemma mint_with_valid: "proofs \<noteq> [] \<Longrightarrow> MintCoinRequest_Validate sample_crypto (Some (mint_with proofs)) = Inr ()"
  by (simp add: Validate_iff signed_ok_def MintCoinRequest_signatureMessage_def mint_with_def newED448Signature_def
      sample_crypto_def sample_key_def)

lemma sample_leaves:
  assumes "i < length sample_outputs"
  shows "length (sample_outputs ! i) = 516 \<and> sample_outputs ! i \<noteq> replicate 516 0"
proof -
  have "hd (sample_outputs ! i) \<noteq> 0" "length (sample_outputs ! i) = 516"
    using assms by (auto simp: sample_outputs_def less_Suc_eq)
  then show ?thesis by auto
qed

lemma sample_honest:
  obtains tree prev proofs where
    "MintCoinRequest_Validate sample_crypto (Some (mint_with proofs)) = Inr ()"
    "honest_prover sample_crypto sample_merkle prover_app sample_frame sample_frame sample_key (be_of_nat 32 57) sample_prior
       sample_outputs prev [[3], [4]] tree"
    "PackOutputIntoMultiPayloadAndProof sample_crypto sample_merkle [[3], [4]] (int (length [[3 :: 8 word], [4]])) sample_frame
       (Some prev) = Some (Inr (tree, Proofs (mint_with proofs)))"
    "BytesToUnbiasedMod (sha3_Sum256 sample_crypto (Output sample_frame @ Root prev)) (of_nat (length [[3 :: 8 word], [4]])) = Some 0"
proof -
  let ?h = "sha3_Sum256 sample_crypto"
  obtain tree where t: "mt_New sample_merkle ?h [[3], [4]] = Inr tree" by (rule sample_trees)
  obtain prev where p: "mt_New sample_merkle ?h sample_outputs = Inr prev" "Root prev = ?h (concat sample_outputs)"
    unfolding sample_outputs_def by (rule sample_trees [of ?h "1 # replicate 515 0" "2 # replicate 515 0"]) simp
  have r: "Root prev = sample_root"
    using p(2) sum_list_outputs by (simp add: sample_crypto_def sample_root_def)
  have b: "BytesToUnbiasedMod (?h (Output sample_frame @ Root prev)) (of_nat (length [[3 :: 8 word], [4]])) = Some 0"
  proof -
    have "sum_list (map unat (Root prev)) < 256"
      using be_of_nat_leading [of 3 1 31] by (simp add: r sample_root_def map_replicate sum_list_replicate)
    then show ?thesis
      using unbiased_mod_first [of 2 "?h (Root prev)"] sample_hash_word [of "Root prev"] by (simp add: sample_frame_def)
  qed
  have d: "drawn sample_crypto (of_nat (length [[3 :: 8 word], [4]])) (?h (Output sample_frame @ Root prev)) []"
    "num_siblings (of_nat (length [[3 :: 8 word], [4]])) \<le> card (insert (0 :: u64) (set []))"
    by (simp_all add: num_siblings_2)
  obtain proofs where pk: "PackOutputIntoMultiPayloadAndProof sample_crypto sample_merkle [[3], [4]]
       (int (length [[3 :: 8 word], [4]])) sample_frame (Some prev) = Some (Inr (tree, proofs))" "0 < length proofs"
    using pack_then_unpack_multi [OF sample_merkle_laws t p(1) _ _ _ refl refl b d] by (force simp: sample_outputs_def)
  have h: "honest_prover sample_crypto sample_merkle prover_app sample_frame sample_frame sample_key (be_of_nat 32 57) sample_prior
       sample_outputs prev [[3], [4]] tree"
  proof -
    have "length sample_outputs = 2" by (simp add: sample_outputs_def)
    moreover have "proofs_of prover_app (be_of_nat 32 57) = Some (Inr ([4], [sample_proof]))"
      "frame_at prover_app f k = Inr (sample_frame_at k)" "verify_challenge prover_app x y z" for f k x y z
      by (simp_all add: prover_app_def)
    moreover have "commitment sample_prior = sample_root" "previousParallelism sample_prior = 2"
      "FFrameNumber (previousFrame sample_prior) < FFrameNumber sample_frame"
      "sample_frame_at (FFrameNumber sample_frame) = sample_frame"
      by (simp_all add: sample_prior_def sample_frame_at_def sample_frame_def)
    ultimately show ?thesis
      using t p(1) r sample_leaves unfolding honest_prover_def by (simp add: sample_scan del: scan_proofs.simps)
  qed
  show ?thesis
    by (rule that [of proofs prev tree]) (use h b pk mint_with_valid [of proofs] in \<open>simp_all add: mint_with_def\<close>)
qed

lemma honest_prover_rewarded_witness:
  "\<exists>proofs pm proof k. preProcessMint sample_crypto sample_merkle prover_app 5 (mint_with proofs) sample_frame = Some (Inr pm) \<and>
     validForReward pm \<and>
     handleMint sample_crypto prover_app 5 (mint_with proofs) sample_frame pm (\<lambda>_. 0) =
       Some (Inr [DeletedProof sample_proof, OutProof proof, OutCoin k]) \<and> Owner k = implicit_owner (be_of_nat 32 57)"
proof (rule sample_honest)
  fix tree prev proofs
  assume h: "MintCoinRequest_Validate sample_crypto (Some (mint_with proofs)) = Inr ()"
    "honest_prover sample_crypto sample_merkle prover_app sample_frame sample_frame sample_key (be_of_nat 32 57) sample_prior
       sample_outputs prev [[3], [4]] tree"
    "PackOutputIntoMultiPayloadAndProof sample_crypto sample_merkle [[3], [4]] (int (length [[3 :: 8 word], [4]])) sample_frame
       (Some prev) = Some (Inr (tree, Proofs (mint_with proofs)))"
    "BytesToUnbiasedMod (sha3_Sum256 sample_crypto (Output sample_frame @ Root prev)) (of_nat (length [[3 :: 8 word], [4]])) = Some 0"
  have "sig_key (MintSignature (mint_with proofs)) = Inr sample_key" by (simp add: mint_with_def sample_key_addresses)
  from honest_prover_rewarded [OF sample_merkle_laws h(1) this sample_key_addresses(2-4) _ h(2) _ _ _ _ h(3) refl h(4), of 5 "[]" "\<lambda>_. 0"]
  show ?thesis by (force simp: num_siblings_2 prover_app_def sample_frame_def sample_prior_def)
qed

lemma minted_coins_are_backed_witness:
  "\<exists>proofs k par. reward_coin sample_crypto sample_merkle prover_app 5 sample_frame (\<lambda>_. 0) (mint_with proofs) sample_key
     (be_of_nat 32 57) par k"
proof (rule sample_honest)
  fix tree prev proofs
  assume h: "MintCoinRequest_Validate sample_crypto (Some (mint_with proofs)) = Inr ()"
    "honest_prover sample_crypto sample_merkle prover_app sample_frame sample_frame sample_key (be_of_nat 32 57) sample_prior
       sample_outputs prev [[3], [4]] tree"
    "PackOutputIntoMultiPayloadAndProof sample_crypto sample_merkle [[3], [4]] (int (length [[3 :: 8 word], [4]])) sample_frame
       (Some prev) = Some (Inr (tree, Proofs (mint_with proofs)))"
    "BytesToUnbiasedMod (sha3_Sum256 sample_crypto (Output sample_frame @ Root prev)) (of_nat (length [[3 :: 8 word], [4]])) = Some 0"
  have k: "sig_key (MintSignature (mint_with proofs)) = Inr sample_key" by (simp add: mint_with_def sample_key_addresses)
  from honest_mint [OF sample_merkle_laws h(1) this sample_key_addresses(2-4) _ h(2) _ _ _ _ h(3) refl h(4), of 5 "[]" "\<lambda>_. 0"]
  obtain pm pf co where pm: "preProcessMint sample_crypto sample_merkle prover_app 5 (mint_with proofs) sample_frame = Some (Inr pm)"
    "handleMint sample_crypto prover_app 5 (mint_with proofs) sample_frame pm (\<lambda>_. 0) =
       Some (Inr [DeletedProof sample_proof, OutProof pf, OutCoin co])"
    by (force simp: num_siblings_2 prover_app_def sample_frame_def sample_prior_def)
  from minted_coins_are_backed [OF this] k sample_key_addresses(2,3) show ?thesis
    by (auto simp: mint_pays_def beacon_coin_def prover_app_def sample_app_def sample_key_def split: if_splits)
qed

end
