(* ===== verification/TokenApp.thy ===== *)
theory TokenApp
  imports MintSafety MinHeap Bloom
begin

text \<open>
  The token application on the requests of a frame (\<open>token_application.go\<close>): reading the requests
  and outputs of a frame, and \<open>ApplyTransitions\<close>. The source keeps five arrays indexed by request
  (\<open>set\<close>, \<open>fails\<close>, \<open>outputsSet\<close>, \<open>successes\<close>, \<open>processedMap\<close>), each entry nil or about the request
  at that index; a \<open>request_slot\<close> has one field for each. The goroutines of a phase write only their
  own slot and are run in the order of the slots; a phase in which one does not end does not end.
\<close>

section \<open>Frames\<close>

record execution_output =
  ExecAddress :: bytes
  ExecOutput :: bytes
  ExecProof :: bytes

record frame_codec =
  unmarshal_output :: "bytes \<Rightarrow> execution_output result"
  unmarshal_TokenOutputs :: "bytes \<Rightarrow> token_output list result"
  unmarshal_TokenRequests :: "bytes \<Rightarrow> token_request list result"

definition IntrinsicExecutionOutputType :: string where
  "IntrinsicExecutionOutputType = ''types.quilibrium.com/quilibrium.node.application.pb.IntrinsicExecutionOutput''"

definition read_inclusion ::
    "frame_codec \<Rightarrow> bytes \<times> token_output list option \<Rightarrow> inclusion_commitment \<Rightarrow> (bytes \<times> token_output list option) result" where
  "read_inclusion fc acc inclusion =
     (if TypeUrl inclusion = IntrinsicExecutionOutputType then
        bindE (unmarshal_output fc (Data inclusion)) (\<lambda>out.
        bindE (unmarshal_TokenOutputs fc (ExecOutput out)) (\<lambda>tokenOutputs.
        Inr (ExecProof out, Some tokenOutputs)))
      else Inr acc)"

definition GetOutputsFromClockFrame ::
    "frame_codec \<Rightarrow> clock_frame \<Rightarrow> (token_request list \<times> token_output list option) result" where
  "GetOutputsFromClockFrame fc frame =
     bindE (foldE (\<lambda>acc proofs. foldE (read_inclusion fc) acc (InclusionCommitments proofs)) ([], None)
       (AggregateProofs frame)) (\<lambda>(associatedProof, tokenOutputs).
     bindE (if FFrameNumber frame \<noteq> 0 then unmarshal_TokenRequests fc associatedProof else Inr []) (\<lambda>requests.
     Inr (requests, tokenOutputs)))"

text \<open>\<open>stores\<close> carries the coin store, the clock store and the frame prover of the arguments.\<close>

definition MaterializeApplicationFromFrame ::
    "frame_codec \<Rightarrow> bytes \<Rightarrow> clock_frame \<Rightarrow> rolling_trie list \<Rightarrow> token_application \<Rightarrow> token_application result" where
  "MaterializeApplicationFromFrame fc beacon frame ts stores =
     bindE (GetOutputsFromClockFrame fc frame) (\<lambda>(_, tokenOutputs).
     Inr (stores\<lparr>Beacon := beacon, TokenOutputs := tokenOutputs, Tries := ts, AppDifficulty := FDifficulty frame\<rparr>))"

definition MaterializeStateFromApplication :: "token_application \<Rightarrow> token_output list option" where
  "MaterializeStateFromApplication a = TokenOutputs a"

section \<open>Slots\<close>

record request_slot =
  transition :: token_request
  inSet :: bool
  fails :: bool
  outputsSet :: "token_output list option"
  successes :: bool
  processedMap :: "processed_mint option"

definition new_slot :: "token_request \<Rightarrow> request_slot" where
  "new_slot t = \<lparr>transition = t, inSet = False, fails = False, outputsSet = None, successes = False, processedMap = None\<rparr>"

text \<open>
  The outcome of a call for a slot: its error is recorded in the slot (\<open>if err != nil { fails[i] = transition }\<close>),
  a panic is not caught.
\<close>

definition catchE :: "'a result \<Rightarrow> 'b \<Rightarrow> ('a \<Rightarrow> 'b result) \<Rightarrow> 'b result" where
  "catchE r failed f = (case r of
       Inl Panic \<Rightarrow> Inl Panic
     | Inl _ \<Rightarrow> Inr failed
     | Inr x \<Rightarrow> f x)"

lemma catchE_Inr:
  "catchE r failed f = Inr y \<longleftrightarrow> (\<exists>e. e \<noteq> Panic \<and> r = Inl e \<and> y = failed) \<or> (\<exists>x. r = Inr x \<and> f x = Inr y)"
  by (auto simp: catchE_def split: sum.splits go_err.splits)

lemma catchE_simps [simp]: "catchE (Inr x) failed f = f x" "catchE (Inl Panic) failed f = Inl Panic"
  by (simp_all add: catchE_def)

abbreviation record_err :: "'a result \<Rightarrow> 'b \<Rightarrow> ('a \<Rightarrow> 'b) \<Rightarrow> 'b result" where
  "record_err r failed ok \<equiv> catchE r failed (\<lambda>x. Inr (ok x))"

text \<open>Mint requests are validated first.\<close>

definition validate_slot :: "crypto_ops \<Rightarrow> request_slot \<Rightarrow> request_slot result" where
  "validate_slot c s = (case Request (transition s) of
       Mint t \<Rightarrow> record_err (MintCoinRequest_Validate c (Some t)) (s\<lparr>fails := True\<rparr>) (\<lambda>_. s)
     | _ \<Rightarrow> Inr s)"

text \<open>
  The ring of an address, for the first pass over the mint requests: an address that was seen has
  none, and an address in a ring becomes seen. \<open>a.Tries[1:]\<close> panics without tries.
\<close>

definition unseen_ring :: "token_application \<Rightarrow> bytes set \<Rightarrow> bytes \<Rightarrow> int" where
  "unseen_ring a seen addr = (if addr \<in> seen then -1 else last_ring (tl (Tries a)) addr)"

definition ring_test ::
    "crypto_ops \<Rightarrow> token_application \<Rightarrow> bytes set \<Rightarrow> mint_coin_request \<Rightarrow> (bytes set \<times> bool) result" where
  "ring_test c a seen t =
     bindE (sig_key (MintSignature t)) (\<lambda>key.
     catchE (altAddress c key) (seen, False) (\<lambda>addr.
         if addr \<notin> seen \<and> Tries a = [] then Inl Panic
         else let seen' = (if unseen_ring a seen addr = -1 then seen else insert addr seen) in
           record_err (RingAndParallelism c t (unseen_ring a seen)) (seen', False) (\<lambda>_. (seen', True))))"

text \<open>A mint request with one proof is admitted from the beacon, once for each recipient.\<close>

definition beacon_test ::
    "crypto_ops \<Rightarrow> token_application \<Rightarrow> bytes set \<Rightarrow> mint_coin_request \<Rightarrow> (bytes set \<times> bool) result" where
  "beacon_test c a seen t =
     bindE (sig_key (MintSignature t)) (\<lambda>key.
     catchE (poseidon_HashBytes c key) (seen, False) (\<lambda>addr.
         bindE (nthE (Tries a) 0) (\<lambda>trie.
         bindE (fill_bytes 32 addr) (\<lambda>addrBytes.
         if Contains trie addrBytes \<and> key = Beacon a then
           bindE (guardE (length (Proofs t ! 0) \<ge> 32) Panic) (\<lambda>_.
           let to = drop 32 (Proofs t ! 0) in
           if to \<in> seen then Inr (seen, False) else Inr (insert to seen, True))
         else Inr (seen, False)))))"

definition admit_mint ::
    "crypto_ops \<Rightarrow> token_application \<Rightarrow> u64 \<Rightarrow> bytes set \<Rightarrow> mint_coin_request \<Rightarrow> (bytes set \<times> bool option) result" where
  "admit_mint c a currentFrameNumber seen t =
     (if length (Proofs t) = 1 then
        bindE (beacon_test c a seen t) (\<lambda>(seen', ok). Inr (seen', Some ok))
      else if length (Proofs t) \<ge> 3 \<and> currentFrameNumber > PROOF_FRAME_CUTOFF then
        bindE (be_uint64 (Proofs t ! 2)) (\<lambda>frameNumber.
        if frameNumber < currentFrameNumber - 1 then Inr (seen, Some False)
        else bindE (ring_test c a seen t) (\<lambda>(seen', ok). Inr (seen', Some ok)))
      else Inr (seen, None))"

definition admit_slot ::
    "crypto_ops \<Rightarrow> token_application \<Rightarrow> u64 \<Rightarrow> bytes set \<Rightarrow> request_slot \<Rightarrow> (bytes set \<times> request_slot) result" where
  "admit_slot c a currentFrameNumber seen s =
     (if fails s then Inr (seen, s)
      else case Request (transition s) of
        Mint t \<Rightarrow> bindE (admit_mint c a currentFrameNumber seen t) (\<lambda>(seen', v). Inr (seen', case v of
            None \<Rightarrow> s
          | Some True \<Rightarrow> s\<lparr>inSet := True\<rparr>
          | Some False \<Rightarrow> s\<lparr>fails := True\<rparr>))
      | _ \<Rightarrow> Inr (seen, s\<lparr>inSet := True\<rparr>))"

fun admit_slots ::
    "crypto_ops \<Rightarrow> token_application \<Rightarrow> u64 \<Rightarrow> bytes set \<Rightarrow> request_slot list \<Rightarrow> request_slot list result" where
  "admit_slots c a n seen [] = Inr []"
| "admit_slots c a n seen (s # ss) =
     bindE (admit_slot c a n seen s) (\<lambda>(seen', s').
     bindE (admit_slots c a n seen' ss) (\<lambda>ss'. Inr (s' # ss')))"

text \<open>
  The requests other than mints. A failed announcement is appended to \<open>failedTransitions\<close>, which is
  overwritten at the end: its slot is left as it is.
\<close>

definition fail_slot :: "request_slot \<Rightarrow> request_slot" where
  "fail_slot s = (case Request (transition s) of AnnounceR _ \<Rightarrow> s | _ \<Rightarrow> s\<lparr>fails := True\<rparr>)"

definition cons_slot :: "request_slot \<Rightarrow> handler_state \<times> request_slot list result \<Rightarrow> handler_state \<times> request_slot list result" where
  "cons_slot s r = (case r of (st, Inl e) \<Rightarrow> (st, Inl e) | (st, Inr ss) \<Rightarrow> (st, Inr (s # ss)))"

lemma cons_slot_Inr: "cons_slot s r = (st, Inr ss') \<longleftrightarrow> (\<exists>ss. r = (st, Inr ss) \<and> ss' = s # ss)"
  by (auto simp: cons_slot_def split: prod.splits sum.splits)

fun handle_slots ::
    "crypto_ops \<Rightarrow> token_application \<Rightarrow> u64 \<Rightarrow> bool \<Rightarrow> handler_state \<Rightarrow> request_slot list \<Rightarrow>
     handler_state \<times> request_slot list result" where
  "handle_slots c a n skipFailures st [] = (st, Inr [])"
| "handle_slots c a n skipFailures st (s # ss) =
     (case (if inSet s then handle c a n st (Request (transition s)) else None) of
        None \<Rightarrow> cons_slot s (handle_slots c a n skipFailures st ss)
      | Some (st', Inl e) \<Rightarrow>
          if e = Panic \<or> \<not> skipFailures then (st', Inl e)
          else cons_slot (fail_slot s) (handle_slots c a n skipFailures st' ss)
      | Some (st', Inr success) \<Rightarrow>
          cons_slot (s\<lparr>outputsSet := Some success, successes := True\<rparr>)
            (handle_slots c a n skipFailures st' ss))"

fun mapL :: "('a \<Rightarrow> 'b result option) \<Rightarrow> 'a list \<Rightarrow> 'b list result option" where
  "mapL f [] = Some (Inr [])"
| "mapL f (x # xs) = bindL (f x) (\<lambda>y. bindL (mapL f xs) (\<lambda>ys. Some (Inr (y # ys))))"

definition preprocess_slot ::
    "crypto_ops \<Rightarrow> merkle_ops \<Rightarrow> token_application \<Rightarrow> u64 \<Rightarrow> clock_frame \<Rightarrow> request_slot \<Rightarrow> request_slot result option" where
  "preprocess_slot c m a n frame s = (case (inSet s, Request (transition s)) of
       (True, Mint t) \<Rightarrow>
         map_option (\<lambda>r. record_err r (s\<lparr>fails := True\<rparr>) (\<lambda>p. s\<lparr>processedMap := Some p\<rparr>)) (preProcessMint c m a n t frame)
     | _ \<Rightarrow> Some (Inr s))"

text \<open>The parallelism that the valid proofs of each ring share, the ring being the first that holds the prover.\<close>

definition first_ring :: "rolling_trie list \<Rightarrow> bytes \<Rightarrow> int" where
  "first_ring ts addr = (case List.find (\<lambda>(i, t). Contains t addr) (enumerate 0 ts) of None \<Rightarrow> -1 | Some (i, _) \<Rightarrow> int i)"

definition tally_slot ::
    "crypto_ops \<Rightarrow> token_application \<Rightarrow> u64 \<Rightarrow> (int \<Rightarrow> u64) \<Rightarrow> request_slot \<Rightarrow> ((int \<Rightarrow> u64) \<times> request_slot) result" where
  "tally_slot c a n parallelismMap s = (case (inSet s \<and> \<not> fails s, Request (transition s)) of
       (True, Mint t) \<Rightarrow>
         if length (Proofs t) \<ge> 3 \<and> n > PROOF_FRAME_CUTOFF then
           bindE (derefE (processedMap s)) (\<lambda>p.
           if validForReward p then
             if Tries a = [] then Inl Panic
             else record_err (RingAndParallelism c t (first_ring (tl (Tries a)))) (parallelismMap, s\<lparr>fails := True\<rparr>)
               (\<lambda>(ring, par). (parallelismMap(ring := parallelismMap ring + ucast par), s))
           else Inr (parallelismMap, s))
         else Inr (parallelismMap, s)
     | _ \<Rightarrow> Inr (parallelismMap, s))"

fun tally_slots ::
    "crypto_ops \<Rightarrow> token_application \<Rightarrow> u64 \<Rightarrow> (int \<Rightarrow> u64) \<Rightarrow> request_slot list \<Rightarrow>
     ((int \<Rightarrow> u64) \<times> request_slot list) result" where
  "tally_slots c a n pmap [] = Inr (pmap, [])"
| "tally_slots c a n pmap (s # ss) =
     bindE (tally_slot c a n pmap s) (\<lambda>(pmap', s').
     bindE (tally_slots c a n pmap' ss) (\<lambda>(pmap'', ss'). Inr (pmap'', s' # ss')))"

definition mint_slot ::
    "crypto_ops \<Rightarrow> token_application \<Rightarrow> u64 \<Rightarrow> clock_frame \<Rightarrow> (int \<Rightarrow> u64) \<Rightarrow> request_slot \<Rightarrow> request_slot result option" where
  "mint_slot c a n frame parallelismMap s = (case (inSet s \<and> \<not> fails s, Request (transition s)) of
       (True, Mint t) \<Rightarrow>
         bindL (Some (derefE (processedMap s))) (\<lambda>p.
         map_option (\<lambda>r. record_err r (s\<lparr>fails := True\<rparr>) (\<lambda>success. s\<lparr>outputsSet := Some success, successes := True\<rparr>))
           (handleMint c a n t frame p parallelismMap))
     | _ \<Rightarrow> Some (Inr s))"

section \<open>Applying the requests\<close>

definition TOKEN_ADDRESS :: bytes where
  "TOKEN_ADDRESS =
     [0x11, 0x55, 0x85, 0x84, 0xaf, 0x70, 0x17, 0xa9, 0xbf, 0xd1, 0xff, 0x18, 0x64, 0x30, 0x2d, 0x64,
      0x3f, 0xbe, 0x58, 0xc6, 0x2d, 0xcf, 0x90, 0xcb, 0xcd, 0x8f, 0xde, 0x74, 0xa2, 0x67, 0x94, 0xd9]"

text \<open>
  The order in which the requests are taken: as they are, or as the heap of mint priorities lists
  them. The heap reads the priority of every item once there are two.
\<close>

definition request_order :: "bool \<Rightarrow> token_request list \<Rightarrow> token_request list result" where
  "request_order skipFailures requests =
     (if skipFailures then
        bindE (if length requests \<ge> 2 then mapE Priority requests else Inr []) (\<lambda>_.
        Inr (All (foldl (Push (\<lambda>t. case Priority t of Inr p \<Rightarrow> p | Inl _ \<Rightarrow> 0)) NewMinHeap requests)))
      else Inr requests)"

definition mint_slots ::
    "crypto_ops \<Rightarrow> merkle_ops \<Rightarrow> token_application \<Rightarrow> u64 \<Rightarrow> clock_frame \<Rightarrow> request_slot list \<Rightarrow>
     request_slot list result option" where
  "mint_slots c m a n frame ss =
     bindL (mapL (preprocess_slot c m a n frame) ss) (\<lambda>ss2.
     bindL (Some (tally_slots c a n (\<lambda>_. 0) ss2)) (\<lambda>(parallelismMap, ss3).
     mapL (mint_slot c a n frame parallelismMap) ss3))"

definition finish ::
    "token_application \<Rightarrow> bool \<Rightarrow> request_slot list \<Rightarrow>
     (token_application \<times> token_request list \<times> token_request list) result" where
  "finish a skipFailures ss =
     (let finalFails = map transition (filter fails ss);
          finalSuccesses = map transition (filter successes ss);
          outs = concat (map (\<lambda>s. case outputsSet s of None \<Rightarrow> [] | Some os \<Rightarrow> os) ss)
      in if finalFails \<noteq> [] \<and> \<not> skipFailures then Inl ErrInvalidStateTransition
         else Inr (a\<lparr>TokenOutputs := Some outs\<rparr>, finalSuccesses, finalFails))"

text \<open>
  The first component is the state of the handlers at the end, with the scores given to peers; the
  second is the result, \<open>None\<close> when a loop does not end.
\<close>

definition ApplyTransitions ::
    "crypto_ops \<Rightarrow> merkle_ops \<Rightarrow> token_application \<Rightarrow> u64 \<Rightarrow> token_request list \<Rightarrow> bool \<Rightarrow>
     handler_state \<times> (token_application \<times> token_request list \<times> token_request list) result option" where
  "ApplyTransitions c m a currentFrameNumber transitions skipFailures =
     (let st0 = \<lparr>lockMap = {}, peerScores = []\<rparr> in
      case bindE (GetBloomFilter c TOKEN_ADDRESS 256 3) (\<lambda>flt.
           bindE (invalidE (frame_at a flt (currentFrameNumber - 1))) (\<lambda>frame.
           bindE (request_order skipFailures transitions) (\<lambda>requests.
           bindE (mapE (validate_slot c) (map new_slot requests)) (\<lambda>ss0.
           bindE (admit_slots c a currentFrameNumber {} ss0) (\<lambda>ss1. Inr (frame, ss1)))))) of
        Inl e \<Rightarrow> (st0, Some (Inl e))
      | Inr (frame, ss1) \<Rightarrow>
          (case handle_slots c a currentFrameNumber skipFailures st0 ss1 of
             (st, Inl e) \<Rightarrow> (st, Some (Inl e))
           | (st, Inr ss2) \<Rightarrow>
               (st, bindL (mint_slots c m a currentFrameNumber frame ss2) (\<lambda>ss3. Some (finish a skipFailures ss3)))))"

end
