(* ===== verification/TokenAppSafety.thy ===== *)
theory TokenAppSafety
  imports TokenApp "HOL-Library.Sublist"
begin

text \<open>
  What \<open>ApplyTransitions\<close> guarantees: every request is a success, a failure or one of the requests the
  code ignores; no value appears but what the mint requests prove; and the requests that one node
  found successful are applied by every other node with the same outputs.
\<close>

section \<open>Fates of the requests\<close>

definition is_mint :: "request_slot \<Rightarrow> bool" where
  "is_mint s = (case Request (transition s) of Mint _ \<Rightarrow> True | _ \<Rightarrow> False)"

text \<open>
  The requests that end up neither as successes nor as failures: empty ones, failed announcements
  when failures are skipped, and mints with no case in the admission.
\<close>

definition ignored :: "u64 \<Rightarrow> bool \<Rightarrow> request \<Rightarrow> bool" where
  "ignored n skipFailures r = (case r of
       RequestUnset \<Rightarrow> True
     | AnnounceR _ \<Rightarrow> skipFailures
     | Mint t \<Rightarrow> length (Proofs t) \<noteq> 1 \<and> (length (Proofs t) < 3 \<or> n = 0)
     | _ \<Rightarrow> False)"

definition admitted :: "u64 \<Rightarrow> bool \<Rightarrow> request_slot \<Rightarrow> bool" where
  "admitted n skipFailures s \<longleftrightarrow> \<not> successes s \<and> outputsSet s = None \<and> processedMap s = None \<and> (inSet s \<longrightarrow> \<not> fails s) \<and>
     (\<not> is_mint s \<longrightarrow> inSet s) \<and> (\<not> inSet s \<and> \<not> fails s \<longrightarrow> ignored n skipFailures (Request (transition s)))"

definition settled :: "u64 \<Rightarrow> bool \<Rightarrow> request_slot \<Rightarrow> bool" where
  "settled n skipFailures s \<longleftrightarrow> (successes s \<longrightarrow> \<not> fails s \<and> inSet s) \<and> (\<not> successes s \<longrightarrow> outputsSet s = None) \<and>
     (\<not> successes s \<and> \<not> fails s \<longrightarrow> ignored n skipFailures (Request (transition s)))"

lemma mapL_all2: "mapL f xs = Some (Inr ys) \<longleftrightarrow> list_all2 (\<lambda>x y. f x = Some (Inr y)) xs ys"
  by (induction xs arbitrary: ys) (auto simp: bindL_eq_Inr list_all2_Cons1)

lemma is_mint_iff: "is_mint s \<longleftrightarrow> (\<exists>t. Request (transition s) = Mint t)"
  by (simp add: is_mint_def split: request.splits)

lemma not_mint_slots:
  assumes "\<not> is_mint s"
  shows "validate_slot c s = Inr s" "admit_slot c a n seen s = Inr (seen, if fails s then s else s\<lparr>inSet := True\<rparr>)"
    "preprocess_slot c m a n frame s = Some (Inr s)" "tally_slot c a n pmap s = Inr (pmap, s)"
    "mint_slot c a n frame pmap s = Some (Inr s)"
  using assms
  by (cases "Request (transition s)";
      simp add: is_mint_def validate_slot_def admit_slot_def preprocess_slot_def tally_slot_def mint_slot_def split: bool.splits)+

lemma validate_slot_new:
  assumes "validate_slot c (new_slot t) = Inr s"
  shows "transition s = t \<and> \<not> inSet s \<and> \<not> successes s \<and> outputsSet s = None \<and> processedMap s = None \<and> (fails s \<longrightarrow> is_mint s)"
proof (cases "is_mint (new_slot t)")
  case True
  then obtain r where "Request t = Mint r" by (auto simp: is_mint_iff new_slot_def)
  with assms show ?thesis by (auto simp: validate_slot_def new_slot_def is_mint_def catchE_Inr)
next
  case False
  from assms not_mint_slots(1) [OF False] show ?thesis by (auto simp: new_slot_def)
qed

lemma admit_mint_None:
  "admit_mint c a n seen t = Inr (seen', None) \<Longrightarrow> length (Proofs t) \<noteq> 1 \<and> (length (Proofs t) < 3 \<or> n = 0)"
  by (auto simp: admit_mint_def bindE_eq_Inr PROOF_FRAME_CUTOFF_def not_less split: if_splits prod.splits)

lemma admit_slot_admitted:
  assumes "admit_slot c a n seen s = Inr (seen', s')"
    and "\<not> inSet s \<and> \<not> successes s \<and> outputsSet s = None \<and> processedMap s = None \<and> (fails s \<longrightarrow> is_mint s)"
  shows "admitted n skipFailures s' \<and> transition s' = transition s"
proof (cases "is_mint s")
  case True
  then obtain t where t: "Request (transition s) = Mint t" by (auto simp: is_mint_iff)
  show ?thesis
  proof (cases "fails s")
    case False
    then obtain v where v: "admit_mint c a n seen t = Inr (seen', v)"
      "s' = (case v of None \<Rightarrow> s | Some True \<Rightarrow> s\<lparr>inSet := True\<rparr> | Some False \<Rightarrow> s\<lparr>fails := True\<rparr>)"
      using assms(1) t by (auto simp: admit_slot_def bindE_eq_Inr)
    show ?thesis
    proof (cases v)
      case None
      then show ?thesis using v t assms(2) admit_mint_None [of c a n seen t seen'] by (auto simp: admitted_def is_mint_def ignored_def)
    next
      case (Some ok)
      then show ?thesis using v t False assms(2) by (cases ok) (auto simp: admitted_def is_mint_def)
    qed
  qed (use t True assms in \<open>auto simp: admit_slot_def admitted_def\<close>)
next
  case False
  then show ?thesis using assms not_mint_slots(2) [OF False] by (auto simp: admitted_def is_mint_def)
qed

lemma admit_slots_admitted:
  assumes "admit_slots c a n seen ss = Inr ss'"
    and "list_all (\<lambda>s. \<not> inSet s \<and> \<not> successes s \<and> outputsSet s = None \<and> processedMap s = None \<and> (fails s \<longrightarrow> is_mint s)) ss"
  shows "list_all (admitted n skipFailures) ss' \<and> map transition ss' = map transition ss"
  using assms
proof (induction ss arbitrary: seen ss')
  case (Cons s ss)
  then show ?case using admit_slot_admitted [of c a n seen s] by (fastforce simp: bindE_eq_Inr)
qed simp

lemma handle_None: "handle c a n st r = None \<longleftrightarrow> (case r of Mint _ \<Rightarrow> True | RequestUnset \<Rightarrow> True | _ \<Rightarrow> False)"
  by (auto simp: handle_def split: request.splits)

text \<open>What the loop over the other requests does to a slot.\<close>

definition handled_slot :: "bool \<Rightarrow> request_slot \<Rightarrow> request_slot \<Rightarrow> bool" where
  "handled_slot skipFailures s s' \<longleftrightarrow> transition s' = transition s \<and> inSet s' = inSet s \<and>
     (s' = s \<and> (inSet s \<longrightarrow> is_mint s \<or> Request (transition s) = RequestUnset \<or>
         skipFailures \<and> (\<exists>t. Request (transition s) = AnnounceR t)) \<or>
      \<not> is_mint s \<and> inSet s \<and> s' = s\<lparr>fails := True\<rparr> \<or>
      \<not> is_mint s \<and> inSet s \<and> (\<exists>outs. s' = s\<lparr>outputsSet := Some outs, successes := True\<rparr>))"

lemma handle_slots_all2:
  assumes "handle_slots c a n skipFailures st ss = (st', Inr ss')"
  shows "list_all2 (handled_slot skipFailures) ss ss'"
  using assms
proof (induction ss arbitrary: st ss')
  case (Cons s ss)
  show ?case
  proof (cases "if inSet s then handle c a n st (Request (transition s)) else None")
    case None
    then have "inSet s \<longrightarrow> is_mint s \<or> Request (transition s) = RequestUnset"
      by (auto simp: handle_None is_mint_def split: if_splits request.splits)
    then show ?thesis using Cons None by (auto simp: cons_slot_Inr handled_slot_def)
  next
    case (Some p)
    obtain st1 res where p: "p = (st1, res)" by (cases p)
    have h: "inSet s" "\<not> is_mint s"
      using Some by (auto simp: is_mint_def handle_def split: if_splits request.splits)
    then have f: "skipFailures \<Longrightarrow> handled_slot skipFailures s (fail_slot s)"
      by (auto simp: handled_slot_def fail_slot_def split: request.splits)
    show ?thesis
      using Cons Some p h f by (auto simp: cons_slot_Inr handled_slot_def split: sum.splits if_splits)
  qed
qed simp

text \<open>What the three passes over the mints do to a slot.\<close>

definition minted_slot ::
    "crypto_ops \<Rightarrow> merkle_ops \<Rightarrow> token_application \<Rightarrow> u64 \<Rightarrow> clock_frame \<Rightarrow> (int \<Rightarrow> u64) \<Rightarrow> request_slot \<Rightarrow> request_slot \<Rightarrow> bool" where
  "minted_slot c m a n frame parMap s s' \<longleftrightarrow>
     (s' = s \<and> \<not> (is_mint s \<and> inSet s)) \<or>
     is_mint s \<and> inSet s \<and> transition s' = transition s \<and> inSet s' \<and> outputsSet s' = outputsSet s \<and> successes s' = successes s \<and> fails s' \<or>
     (\<exists>t pm outs. Request (transition s) = Mint t \<and> inSet s \<and> \<not> fails s \<and> preProcessMint c m a n t frame = Some (Inr pm) \<and>
        handleMint c a n t frame pm parMap = Some (Inr outs) \<and>
        s' = s\<lparr>processedMap := Some pm, outputsSet := Some outs, successes := True\<rparr>)"

lemma preprocess_slot_cases:
  assumes "preprocess_slot c m a n frame s = Some (Inr s')"
  shows "(s' = s \<and> \<not> (is_mint s \<and> inSet s)) \<or>
     (\<exists>t. Request (transition s) = Mint t \<and> inSet s \<and>
       (s' = s\<lparr>fails := True\<rparr> \<or> (\<exists>pm. preProcessMint c m a n t frame = Some (Inr pm) \<and> s' = s\<lparr>processedMap := Some pm\<rparr>)))"
  using assms
  by (auto simp: preprocess_slot_def is_mint_def catchE_Inr split: request.splits bool.splits)

lemma tally_slot_cases:
  assumes "tally_slot c a n pmap s = Inr (pmap', s')"
  shows "s' = s \<or> (s' = s\<lparr>fails := True\<rparr> \<and> is_mint s \<and> inSet s)"
  using assms
  by (auto simp: tally_slot_def is_mint_def bindE_eq_Inr catchE_Inr split: request.splits bool.splits if_splits)

lemma mint_slot_cases:
  assumes "mint_slot c a n frame pmap s = Some (Inr s')"
  shows "(s' = s \<and> \<not> (is_mint s \<and> inSet s \<and> \<not> fails s)) \<or>
     (\<exists>t pm. Request (transition s) = Mint t \<and> inSet s \<and> \<not> fails s \<and> processedMap s = Some pm \<and>
       ((\<exists>e. e \<noteq> Panic \<and> handleMint c a n t frame pm pmap = Some (Inl e) \<and> s' = s\<lparr>fails := True\<rparr>) \<or>
        (\<exists>outs. handleMint c a n t frame pm pmap = Some (Inr outs) \<and> s' = s\<lparr>outputsSet := Some outs, successes := True\<rparr>)))"
  using assms
  by (auto simp: mint_slot_def is_mint_def bindL_eq_Inr derefE_eq_Inr catchE_Inr split: request.splits bool.splits)

lemma tally_slots_all2:
  "tally_slots c a n pmap ss = Inr (pmap', ss') \<Longrightarrow>
     list_all2 (\<lambda>s s'. s' = s \<or> (s' = s\<lparr>fails := True\<rparr> \<and> is_mint s \<and> inSet s)) ss ss'"
  by (induction ss arbitrary: pmap ss') (auto simp: bindE_eq_Inr list_all2_Cons1 dest: tally_slot_cases)

lemma mint_phases_all2:
  assumes p: "list_all2 (\<lambda>x y. preprocess_slot c m a n frame x = Some (Inr y)) ss ss2"
    and t: "tally_slots c a n pmap ss2 = Inr (parMap, ss3)"
    and q: "list_all2 (\<lambda>x y. mint_slot c a n frame parMap x = Some (Inr y)) ss3 ss'"
    and ok: "list_all (\<lambda>s. inSet s \<and> is_mint s \<longrightarrow> \<not> fails s) ss"
  shows "list_all2 (minted_slot c m a n frame parMap) ss ss'"
proof -
  have "minted_slot c m a n frame parMap s s'"
    if "preprocess_slot c m a n frame s = Some (Inr s2)" "s3 = s2 \<or> (s3 = s2\<lparr>fails := True\<rparr> \<and> is_mint s2 \<and> inSet s2)"
      "mint_slot c a n frame parMap s3 = Some (Inr s')" "inSet s \<and> is_mint s \<longrightarrow> \<not> fails s" for s s2 s3 s'
    using preprocess_slot_cases [OF that(1)] that(2) mint_slot_cases [OF that(3)] that(4)
    by (elim disjE exE conjE) (auto simp: minted_slot_def is_mint_def)
  then show ?thesis
    using p tally_slots_all2 [OF t] q ok
  proof (induction ss arbitrary: ss2 ss3 ss')
    case (Cons s ss)
    then show ?case by (auto simp: list_all2_Cons1) blast+
  qed simp
qed

lemma mint_slots_all2:
  assumes "mint_slots c m a n frame ss = Some (Inr ss')" and "list_all (\<lambda>s. inSet s \<and> is_mint s \<longrightarrow> \<not> fails s) ss"
  obtains parMap where "list_all2 (minted_slot c m a n frame parMap) ss ss'"
  using assms by (auto simp: mint_slots_def bindL_eq_Inr mapL_all2 dest: mint_phases_all2)

text \<open>A run that returns, phase by phase.\<close>

definition start_state :: handler_state where
  "start_state = \<lparr>lockMap = {}, peerScores = []\<rparr>"

lemma ApplyTransitions_phases:
  "ApplyTransitions c m a n transitions skipFailures = (st, Some (Inr res)) \<longleftrightarrow>
     (\<exists>flt frame requests ss0 ss1 ss2 ss3. GetBloomFilter c TOKEN_ADDRESS 256 3 = Inr flt \<and> frame_at a flt (n - 1) = Inr frame \<and>
        request_order skipFailures transitions = Inr requests \<and> mapE (validate_slot c) (map new_slot requests) = Inr ss0 \<and>
        admit_slots c a n {} ss0 = Inr ss1 \<and> handle_slots c a n skipFailures start_state ss1 = (st, Inr ss2) \<and>
        mint_slots c m a n frame ss2 = Some (Inr ss3) \<and> finish a skipFailures ss3 = Inr res)"
  by (auto simp: ApplyTransitions_def Let_def start_state_def bindE_eq_Inr bindL_eq_Inr wrapE_eq_Inr split: sum.splits prod.splits)

lemma ApplyTransitions_cases:
  assumes "ApplyTransitions c m a n transitions skipFailures = (st, Some (Inr res))"
  obtains flt frame requests ss0 ss1 ss2 ss3 where
    "GetBloomFilter c TOKEN_ADDRESS 256 3 = Inr flt" "frame_at a flt (n - 1) = Inr frame"
    "request_order skipFailures transitions = Inr requests" "mapE (validate_slot c) (map new_slot requests) = Inr ss0"
    "admit_slots c a n {} ss0 = Inr ss1" "handle_slots c a n skipFailures start_state ss1 = (st, Inr ss2)"
    "mint_slots c m a n frame ss2 = Some (Inr ss3)" "finish a skipFailures ss3 = Inr res"
  using assms unfolding ApplyTransitions_phases by blast

lemma request_order_mset:
  assumes "request_order skipFailures requests = Inr out"
  shows "mset out = mset requests"
proof -
  have "mset (foldl (Push pr) NewMinHeap xs) = mset xs" for pr :: "token_request \<Rightarrow> u64" and xs
    using mh.push_all [of pr NewMinHeap xs] mh.ok_emp [of pr] mh.contents_emp by (simp add: foldl_conv_fold)
  then show ?thesis using assms by (auto simp: request_order_def All_def bindE_eq_Inr split: if_splits)
qed

lemma phases_admitted:
  assumes "mapE (validate_slot c) (map new_slot requests) = Inr ss0" "admit_slots c a n {} ss0 = Inr ss1"
  shows "list_all (admitted n skipFailures) ss1" "map transition ss1 = requests"
proof -
  have v: "list_all2 (\<lambda>x y. validate_slot c (new_slot x) = Inr y) requests ss0"
    using assms(1) by (simp add: mapE_all2 list_all2_map1)
  then have "list_all (\<lambda>s. \<not> inSet s \<and> \<not> successes s \<and> outputsSet s = None \<and> processedMap s = None \<and> (fails s \<longrightarrow> is_mint s)) ss0"
    "map transition ss0 = requests"
    by (induction rule: list_all2_induct) (auto dest: validate_slot_new)
  then show "list_all (admitted n skipFailures) ss1" "map transition ss1 = requests"
    using admit_slots_admitted [OF assms(2)] by auto
qed

lemma phases_settled:
  assumes "mapE (validate_slot c) (map new_slot requests) = Inr ss0" "admit_slots c a n {} ss0 = Inr ss1"
    "handle_slots c a n skipFailures st ss1 = (st', Inr ss2)" "mint_slots c m a n frame ss2 = Some (Inr ss3)"
  shows "list_all (settled n skipFailures) ss3 \<and> map transition ss3 = requests"
proof -
  have ss1: "list_all (admitted n skipFailures) ss1" "map transition ss1 = requests"
    by (rule phases_admitted [OF assms(1,2)])+
  have h: "list_all2 (handled_slot skipFailures) ss1 ss2" by (rule handle_slots_all2 [OF assms(3)])
  let ?P = "\<lambda>s. if is_mint s then admitted n skipFailures s else settled n skipFailures s"
  have ss2: "list_all ?P ss2" "map transition ss2 = requests"
    using h ss1
    by (induction arbitrary: requests rule: list_all2_induct)
      (auto simp: handled_slot_def admitted_def settled_def is_mint_def ignored_def)
  obtain parMap where "list_all2 (minted_slot c m a n frame parMap) ss2 ss3"
    by (rule mint_slots_all2 [OF assms(4)]) (use ss2(1) in \<open>auto simp: list_all_iff admitted_def\<close>)
  then show ?thesis using ss2
    by (induction arbitrary: requests rule: list_all2_induct)
      (auto simp: minted_slot_def admitted_def settled_def is_mint_def split: if_splits)
qed

lemma settled_split:
  assumes "list_all (settled n skipFailures) ss"
  shows "mset ss = mset (filter successes ss) + mset (filter fails ss) + mset (filter (\<lambda>s. \<not> successes s \<and> \<not> fails s) ss) \<and>
     list_all (\<lambda>s. ignored n skipFailures (Request (transition s))) (filter (\<lambda>s. \<not> successes s \<and> \<not> fails s) ss)"
  using assms by (induction ss) (auto simp: settled_def)

text \<open>
  C3: no request is lost unaccounted for. Whatever \<open>ApplyTransitions\<close> returns, the successes, the
  failures and the requests the code ignores are together the requests it was given. Without
  \<open>skipFailures\<close> there are no failures, and the successes are the requests in their order without
  the ignored ones.
\<close>

theorem requests_accounted:
  assumes "ApplyTransitions c m a n transitions skipFailures = (st, Some (Inr (a', succ, failed)))"
  shows "\<exists>rest. mset transitions = mset succ + mset failed + mset rest \<and>
     list_all (\<lambda>t. ignored n skipFailures (Request t)) rest \<and>
     (\<not> skipFailures \<longrightarrow> failed = [] \<and> subseq succ transitions)"
  using assms
proof (rule ApplyTransitions_cases)
  fix frame requests ss0 ss1 ss2 ss3
  assume o: "request_order skipFailures transitions = Inr requests"
    and ss: "mapE (validate_slot c) (map new_slot requests) = Inr ss0" "admit_slots c a n {} ss0 = Inr ss1"
      "handle_slots c a n skipFailures start_state ss1 = (st, Inr ss2)" "mint_slots c m a n frame ss2 = Some (Inr ss3)"
    and f: "finish a skipFailures ss3 = Inr (a', succ, failed)"
  let ?rest = "filter (\<lambda>s. \<not> successes s \<and> \<not> fails s) ss3"
  have out: "succ = map transition (filter successes ss3)" "failed = map transition (filter fails ss3)"
    "\<not> skipFailures \<longrightarrow> failed = []"
    using f by (auto simp: finish_def Let_def split: if_splits)
  have st: "list_all (settled n skipFailures) ss3" "map transition ss3 = requests" using phases_settled [OF ss] by simp_all
  note sp = settled_split [OF st(1)]
  have "mset transitions = mset (map transition ss3)" using request_order_mset [OF o] st(2) by simp
  also have "\<dots> = image_mset transition (mset ss3)" by simp
  also have "\<dots> = mset succ + mset failed + mset (map transition ?rest)"
    unfolding out by (subst conjunct1 [OF sp]) simp
  finally have "mset transitions = mset succ + mset failed + mset (map transition ?rest)" .
  moreover have "list_all (\<lambda>t. ignored n skipFailures (Request t)) (map transition ?rest)"
    using sp by (simp add: list_all_iff)
  moreover have "\<not> skipFailures \<longrightarrow> subseq succ transitions"
    using o st(2) unfolding out by (auto simp: request_order_def subseq_map)
  ultimately show ?thesis using out(3) by blast
qed

section \<open>Outputs\<close>

definition slot_outs :: "request_slot \<Rightarrow> token_output list" where
  "slot_outs s = (case outputsSet s of None \<Rightarrow> [] | Some os \<Rightarrow> os)"

lemma slot_outs_simps [simp]:
  "outputsSet s = None \<Longrightarrow> slot_outs s = []" "outputsSet s = Some os \<Longrightarrow> slot_outs s = os"
  "slot_outs (s\<lparr>fails := b\<rparr>) = slot_outs s" "slot_outs (s\<lparr>outputsSet := Some os, successes := b\<rparr>) = os"
  by (simp_all add: slot_outs_def)

lemma handle_slots_run:
  assumes "handle_slots c a n skipFailures st ss = (st', Inr ss')" "list_all (\<lambda>s. outputsSet s = None) ss"
  shows "concat (map slot_outs ss') =
     snd (run_requests (request_step c a n) st (map (Request \<circ> transition) (filter inSet ss)))"
  using assms
proof (induction ss arbitrary: st ss')
  case (Cons s ss)
  have fs: "slot_outs (fail_slot s) = []" using Cons.prems(2) by (auto simp: fail_slot_def split: request.splits)
  show ?case
  proof (cases "if inSet s then handle c a n st (Request (transition s)) else None")
    case None
    then have "handle_slots c a n skipFailures st ss = (st', Inr (tl ss'))" "ss' = s # tl ss'"
      using Cons.prems(1) by (auto simp: cons_slot_Inr)
    moreover have "inSet s \<longrightarrow> request_step c a n st (Request (transition s)) = (st, Inr [])"
      using None by (auto simp: request_step_def)
    ultimately show ?thesis using Cons.IH [of st "tl ss'"] Cons.prems(2)
      by (cases ss') (auto split: prod.splits)
  next
    case (Some p)
    obtain st1 res where p: "p = (st1, res)" by (cases p)
    have i: "inSet s" "request_step c a n st (Request (transition s)) = (st1, res)"
      using Some p by (auto simp: request_step_def split: if_splits)
    have "handle_slots c a n skipFailures st1 ss = (st', Inr (tl ss'))"
      "ss' \<noteq> []" "slot_outs (hd ss') = (case res of Inl _ \<Rightarrow> [] | Inr os \<Rightarrow> os)"
      using Cons.prems(1) Some p fs by (auto simp: cons_slot_Inr split: sum.splits if_splits)
    then show ?thesis using Cons.IH [of st1 "tl ss'"] Cons.prems(2) i
      by (cases ss') (auto split: prod.splits)
  qed
qed simp

lemma handle_slots_outs:
  assumes "handle_slots c a n skipFailures st ss = (st', Inr ss')" "list_all (\<lambda>s. \<not> successes s) ss"
  shows "list_all (\<lambda>s. successes s \<longrightarrow> (\<exists>st1 st2. handle c a n st1 (Request (transition s)) = Some (st2, Inr (slot_outs s)))) ss'"
  using assms
proof (induction ss arbitrary: st ss')
  case (Cons s ss)
  have fs: "\<not> successes (fail_slot s)" using Cons.prems(2) by (auto simp: fail_slot_def split: request.splits)
  show ?case
  proof (cases "if inSet s then handle c a n st (Request (transition s)) else None")
    case (Some p)
    obtain st1 res where p: "p = (st1, res)" by (cases p)
    then show ?thesis using Cons Some fs by (fastforce simp: cons_slot_Inr split: sum.splits if_splits)
  qed (use Cons in \<open>auto simp: cons_slot_Inr\<close>)
qed simp

lemma finish_outputs:
  "finish a skipFailures ss = Inr (a', succ, failed) \<Longrightarrow>
     TokenOutputs a' = Some (concat (map slot_outs ss)) \<and> succ = map transition (filter successes ss) \<and>
     failed = map transition (filter fails ss)"
  by (auto simp: finish_def Let_def slot_outs_def [abs_def] split: if_splits)

section \<open>Replaying a frame\<close>

text \<open>
  The node that makes a frame applies the requests it has with \<open>skipFailures\<close> and puts the successes
  into the frame; the others apply these without. A request that succeeds with some keys locked
  succeeds with fewer.
\<close>

lemma lock_on_success_fewer:
  assumes "lock_on_success st r = (st1, Inr outs)" "\<And>ks. r = Inr (ks, outs) \<Longrightarrow> r' = Inr (ks, outs)" "lockMap st' \<subseteq> lockMap st"
  shows "\<exists>st1'. lock_on_success st' r' = (st1', Inr outs) \<and> lockMap st1' \<subseteq> lockMap st1"
  using assms by (auto simp: lock_on_success_Inr)

lemma handleTransfer_fewer:
  assumes "handleTransfer c a n st t = (st1, Inr outs)" "lockMap st' \<subseteq> lockMap st"
  shows "\<exists>st1'. handleTransfer c a n st' t = (st1', Inr outs) \<and> lockMap st1' \<subseteq> lockMap st1"
  using assms unfolding handleTransfer_def
  by (elim lock_on_success_fewer) (auto simp: bindE_eq_Inr guardE_eq_Inr)

lemma handleSplit_fewer:
  assumes "handleSplit c a n st t = (st1, Inr outs)" "lockMap st' \<subseteq> lockMap st"
  shows "\<exists>st1'. handleSplit c a n st' t = (st1', Inr outs) \<and> lockMap st1' \<subseteq> lockMap st1"
  using assms unfolding handleSplit_def
  by (elim lock_on_success_fewer) (auto simp: bindE_eq_Inr guardE_eq_Inr)

lemma merge_addresses_fewer:
  assumes "merge_addresses locked coins = Inr addresses" "locked' \<subseteq> locked"
  shows "merge_addresses locked' coins = Inr addresses"
proof -
  let ?f = "\<lambda>locked addresses c. bindE (derefE c) (\<lambda>c.
       bindE (requireE (CoinAddress c \<notin> locked \<and> CoinAddress c \<notin> set addresses)) (\<lambda>_. Inr (addresses @ [CoinAddress c])))"
  have "foldE (?f locked) acc coins = Inr addresses \<Longrightarrow> foldE (?f locked') acc coins = Inr addresses" for acc
    using assms(2) by (induction coins arbitrary: acc) (fastforce simp: bindE_eq_Inr guardE_eq_Inr)+
  then show ?thesis using assms(1) by (simp add: merge_addresses_def)
qed

lemma handleMerge_fewer:
  assumes "handleMerge c a n st t = (st1, Inr outs)" "lockMap st' \<subseteq> lockMap st"
  shows "\<exists>st1'. handleMerge c a n st' t = (st1', Inr outs) \<and> lockMap st1' \<subseteq> lockMap st1"
  using assms merge_addresses_fewer [OF _ assms(2)] unfolding handleMerge_def
  by (elim lock_on_success_fewer) (auto simp: bindE_eq_Inr)

lemma announce_locks_fewer:
  assumes "foldE (\<lambda>_ p. bindE (sig_key p) (\<lambda>key. requireE (key \<notin> locked))) () ps = Inr ()" "locked' \<subseteq> locked"
  shows "foldE (\<lambda>_ p. bindE (sig_key p) (\<lambda>key. requireE (key \<notin> locked'))) () ps = Inr ()"
  using assms by (induction ps) (fastforce simp: bindE_eq_Inr guardE_eq_Inr)+

lemma handleAnnounce_fewer:
  assumes "handleAnnounce c n st t = (st1, Inr outs)" "lockMap st' \<subseteq> lockMap st"
  shows "\<exists>st1'. handleAnnounce c n st' t = (st1', Inr outs) \<and> lockMap st1' \<subseteq> lockMap st1"
  using assms announce_locks_fewer [OF _ assms(2)] unfolding handleAnnounce_def
  by (elim lock_on_success_fewer) (auto simp: bindE_eq_Inr)

lemma join_announce_fewer:
  assumes "join_announce c n st t = (st1, Inr outs)" "lockMap st' \<subseteq> lockMap st"
  shows "\<exists>st1'. join_announce c n st' t = (st1', Inr outs) \<and> lockMap st1' \<subseteq> lockMap st1"
proof (cases "Announce t")
  case (Some an)
  then have "handleAnnounce c n st an = (st1, Inr outs)"
    using assms(1) by (cases "handleAnnounce c n st an") (auto simp: join_announce_def wrapE_eq_Inr)
  from handleAnnounce_fewer [OF this assms(2)] show ?thesis using Some by (auto simp: join_announce_def)
qed (use assms in \<open>auto simp: join_announce_def\<close>)

lemma handleJoin_fewer:
  assumes "handleDataAnnounceProverJoin c a n st t = (st1, Inr outs)" "lockMap st' \<subseteq> lockMap st"
  shows "\<exists>st1'. handleDataAnnounceProverJoin c a n st' t = (st1', Inr outs) \<and> lockMap st1' \<subseteq> lockMap st1"
proof -
  obtain key address st2 os where
    k: "\<not> n < PROOF_FRAME_CUTOFF" "AnnounceProverJoin_Validate c (Some t) = Inr ()" "sig_key (PublicKeySignatureEd448 t) = Inr key"
      "key \<notin> lockMap st" "getAddressFromSignature c (PublicKeySignatureEd448 t) = Inr address" "\<not> FrameNumber t > n"
    and j: "join_announce c n st t = (st2, Inr os)" "st1 = st2\<lparr>lockMap := insert key (lockMap st2)\<rparr>" "\<not> in_tries a address"
      "outs = os @ [OutJoin t]"
    using assms(1) unfolding handleDataAnnounceProverJoin_def
    by (auto simp: bindE_eq_Inr wrapE_eq_Inr guardE_eq_Inr split: sum.splits prod.splits if_splits)
  from join_announce_fewer [OF j(1) assms(2)] obtain st2' where "join_announce c n st' t = (st2', Inr os)" "lockMap st2' \<subseteq> lockMap st2"
    by blast
  moreover have "key \<notin> lockMap st'" using k(4) assms(2) by blast
  ultimately show ?thesis using k j unfolding handleDataAnnounceProverJoin_def by auto
qed

lemma prover_change_fewer:
  assumes "prover_change a st (prover_checks c v n st t) out = (st1, Inr outs)" "lockMap st' \<subseteq> lockMap st"
  shows "\<exists>st1'. prover_change a st' (prover_checks c v n st' t) out = (st1', Inr outs) \<and> lockMap st1' \<subseteq> lockMap st1"
proof -
  obtain key address where k: "prover_checks c v n st t = Inr (key, address)"
    and r: "st1 = st\<lparr>lockMap := insert key (lockMap st)\<rparr>" "in_tries a address" "outs = [out]"
    using assms(1) by (auto simp: prover_change_def split: sum.splits if_splits)
  from k assms(2) have "prover_checks c v n st' t = Inr (key, address)"
    by (auto simp: prover_checks_def bindE_eq_Inr guardE_eq_Inr)
  then show ?thesis using r assms(2) by (auto simp: prover_change_def)
qed

lemma handle_fewer:
  assumes "handle c a n st r = Some (st1, Inr outs)" "lockMap st' \<subseteq> lockMap st"
  shows "\<exists>st1'. handle c a n st' r = Some (st1', Inr outs) \<and> lockMap st1' \<subseteq> lockMap st1"
  using assms
  by (cases r)
    (auto simp: handle_def handleDataAnnounceProverLeave_def handleDataAnnounceProverPause_def handleDataAnnounceProverResume_def
      dest: handleTransfer_fewer handleSplit_fewer handleMerge_fewer handleAnnounce_fewer handleJoin_fewer prover_change_fewer)

text \<open>The elements of a list that a list of marks keeps.\<close>

definition sel :: "bool list \<Rightarrow> 'a list \<Rightarrow> 'a list" where
  "sel keep xs = map snd (filter fst (zip keep xs))"

lemma sel_simps [simp]:
  "sel [] xs = []" "sel keep [] = []" "sel (b # keep) (x # xs) = (if b then [x] else []) @ sel keep xs"
  by (simp_all add: sel_def)

lemma sel_map: "sel keep (map f xs) = map f (sel keep xs)"
  by (induction keep xs rule: list_induct2') simp_all

lemma sel_filter: "sel (map P xs) xs = filter P xs"
  by (induction xs) simp_all

lemma list_all2_sel: "list_all2 R xs ys \<Longrightarrow> list_all2 R (sel keep xs) (sel keep ys)"
proof (induction arbitrary: keep rule: list_all2_induct)
  case (Cons x xs y ys)
  then show ?case by (cases keep) simp_all
qed simp

lemma ring_test_grows: "ring_test c a seen t = Inr (seen1, ok) \<Longrightarrow> seen \<subseteq> seen1"
  by (auto simp: ring_test_def Let_def bindE_eq_Inr catchE_Inr split: if_splits)

lemma beacon_test_grows: "beacon_test c a seen t = Inr (seen1, ok) \<Longrightarrow> seen \<subseteq> seen1"
  by (auto simp: beacon_test_def Let_def bindE_eq_Inr catchE_Inr split: if_splits)

lemma admit_mint_grows: "admit_mint c a n seen t = Inr (seen1, v) \<Longrightarrow> seen \<subseteq> seen1"
  by (auto simp: admit_mint_def bindE_eq_Inr dest: ring_test_grows beacon_test_grows split: if_splits)

lemma admit_slot_grows: "admit_slot c a n seen s = Inr (seen1, s1) \<Longrightarrow> seen \<subseteq> seen1"
  by (cases "Request (transition s)") (auto simp: admit_slot_def bindE_eq_Inr dest: admit_mint_grows split: if_splits)

lemma RingAndParallelism_cong:
  assumes "sig_key (MintSignature t) = Inr key" "altAddress c key = Inr addr" "f addr = g addr"
  shows "RingAndParallelism c t f = RingAndParallelism c t g"
proof -
  obtain sg pk where "MintSignature t = Some sg" "PublicKey sg = Some pk" "key = KeyValue pk"
    using assms(1) by (auto simp: sig_key_def bindE_eq_Inr derefE_eq_Inr)
  then show ?thesis using assms(2,3) by (simp add: RingAndParallelism_def)
qed

lemma ring_test_fewer:
  assumes "ring_test c a seen t = Inr (seen1, True)" "seen' \<subseteq> seen"
  shows "\<exists>seen1'. ring_test c a seen' t = Inr (seen1', True) \<and> seen1' \<subseteq> seen1"
proof -
  obtain key addr rp where k: "sig_key (MintSignature t) = Inr key" "altAddress c key = Inr addr" "\<not> (addr \<notin> seen \<and> Tries a = [])"
    and r: "RingAndParallelism c t (unseen_ring a seen) = Inr rp"
      "seen1 = (if unseen_ring a seen addr = -1 then seen else insert addr seen)"
    using assms(1) by (auto simp: ring_test_def Let_def bindE_eq_Inr catchE_Inr split: if_splits)
  have u: "unseen_ring a seen addr \<noteq> -1"
    using r(1) k(1,2) by (auto simp: RingAndParallelism_def sig_key_def bindE_eq_Inr derefE_eq_Inr wrapE_eq_Inr Let_def)
  then have a: "addr \<notin> seen" by (auto simp: unseen_ring_def)
  then have a': "addr \<notin> seen'" using assms(2) by blast
  have e: "unseen_ring a seen' addr = unseen_ring a seen addr" using a a' by (simp add: unseen_ring_def)
  have "RingAndParallelism c t (unseen_ring a seen') = Inr rp"
    using r(1) RingAndParallelism_cong [OF k(1,2), of "unseen_ring a seen'" "unseen_ring a seen"] e by simp
  then have "ring_test c a seen' t = Inr (insert addr seen', True)"
    using k a a' u e by (simp add: ring_test_def Let_def)
  then show ?thesis using assms(2) r(2) u by auto
qed

lemma beacon_test_fewer:
  assumes "beacon_test c a seen t = Inr (seen1, True)" "seen' \<subseteq> seen"
  shows "\<exists>seen1'. beacon_test c a seen' t = Inr (seen1', True) \<and> seen1' \<subseteq> seen1"
proof -
  let ?to = "drop 32 (Proofs t ! 0)"
  obtain key addr trie addrBytes where k: "sig_key (MintSignature t) = Inr key" "poseidon_HashBytes c key = Inr addr"
    "nthE (Tries a) 0 = Inr trie" "fill_bytes 32 addr = Inr addrBytes" "Contains trie addrBytes \<and> key = Beacon a"
    "32 \<le> length (Proofs t ! 0)" and s: "?to \<notin> seen" "seen1 = insert ?to seen"
    using assms(1) by (auto simp: beacon_test_def Let_def bindE_eq_Inr guardE_eq_Inr catchE_Inr split: if_splits)
  then have "?to \<notin> seen'" using assms(2) by blast
  then have "beacon_test c a seen' t = Inr (insert ?to seen', True)" using k by (simp add: beacon_test_def Let_def)
  then show ?thesis using s assms(2) by auto
qed

lemma admit_mint_fewer:
  assumes "admit_mint c a n seen t = Inr (seen1, Some True)" "seen' \<subseteq> seen"
  shows "\<exists>seen1'. admit_mint c a n seen' t = Inr (seen1', Some True) \<and> seen1' \<subseteq> seen1"
  using assms
  by (auto simp: admit_mint_def bindE_eq_Inr dest: ring_test_fewer [OF _ assms(2)] beacon_test_fewer [OF _ assms(2)] split: if_splits)
    (metis ring_test_fewer [OF _ assms(2)] beacon_test_fewer [OF _ assms(2)])+

lemma admit_slot_fewer:
  assumes "admit_slot c a n seen s = Inr (seen1, s1)" "inSet s1" "\<not> inSet s" "seen' \<subseteq> seen"
  shows "\<exists>seen1'. admit_slot c a n seen' s = Inr (seen1', s1) \<and> seen1' \<subseteq> seen1"
proof (cases "is_mint s")
  case True
  then obtain t where t: "Request (transition s) = Mint t" by (auto simp: is_mint_iff)
  have f: "\<not> fails s" using assms(1-3) by (auto simp: admit_slot_def)
  obtain v where v: "admit_mint c a n seen t = Inr (seen1, v)"
    "s1 = (case v of None \<Rightarrow> s | Some True \<Rightarrow> s\<lparr>inSet := True\<rparr> | Some False \<Rightarrow> s\<lparr>fails := True\<rparr>)"
    using assms(1) t f by (auto simp: admit_slot_def bindE_eq_Inr)
  then have "v = Some True" using assms(2,3) by (auto split: option.splits bool.splits)
  then show ?thesis using admit_mint_fewer [of c a n seen t seen1 seen'] v t f assms(4) by (auto simp: admit_slot_def)
next
  case False
  then show ?thesis using assms not_mint_slots(2) [OF False] by auto
qed

lemma admit_slots_sel:
  assumes "admit_slots c a n seen ss = Inr ss1" "list_all2 (\<lambda>k s. k \<longrightarrow> inSet s) keep ss1" "list_all (\<lambda>s. \<not> inSet s) ss"
    "seen' \<subseteq> seen"
  shows "admit_slots c a n seen' (sel keep ss) = Inr (sel keep ss1)"
  using assms
proof (induction ss arbitrary: seen seen' ss1 keep)
  case (Cons s ss)
  obtain seen2 s2 ss2 where s2: "admit_slot c a n seen s = Inr (seen2, s2)" "admit_slots c a n seen2 ss = Inr ss2" "ss1 = s2 # ss2"
    using Cons.prems(1) by (auto simp: bindE_eq_Inr)
  obtain k ks where k: "keep = k # ks" "k \<longrightarrow> inSet s2" "list_all2 (\<lambda>k s. k \<longrightarrow> inSet s) ks ss2"
    using Cons.prems(2) s2(3) by (auto simp: list_all2_Cons2)
  note IH = Cons.IH [OF s2(2) k(3)]
  show ?case
  proof (cases k)
    case True
    obtain seen2' where "admit_slot c a n seen' s = Inr (seen2', s2)" "seen2' \<subseteq> seen2"
      using admit_slot_fewer [OF s2(1) _ _ Cons.prems(4)] True k(2) Cons.prems(3) by auto
    then show ?thesis using IH [of seen2'] Cons.prems(3) k s2 True by simp
  next
    case False
    then show ?thesis using IH [of seen'] admit_slot_grows [OF s2(1)] Cons.prems(3,4) k s2 by auto
  qed
qed simp

lemma handle_grows: "handle c a n st r = Some (st1, res) \<Longrightarrow> lockMap st \<subseteq> lockMap st1"
  using request_step_grows [of c a n st r st1 res] by (simp add: request_step_def)

lemma handle_slots_sel:
  assumes "handle_slots c a n skipFailures st ss = (st1, Inr ss1)" "list_all2 (\<lambda>k s. k \<longrightarrow> successes s \<or> is_mint s) keep ss1"
    "list_all (\<lambda>s. \<not> successes s) ss" "lockMap st' \<subseteq> lockMap st"
  shows "\<exists>st1'. handle_slots c a n False st' (sel keep ss) = (st1', Inr (sel keep ss1))"
  using assms
proof (induction ss arbitrary: st st' ss1 keep)
  case (Cons s ss)
  show ?case
  proof (cases "if inSet s then handle c a n st (Request (transition s)) else None")
    case None
    then have n': "(if inSet s then handle c a n st' (Request (transition s)) else None) = None"
      by (auto simp: handle_None split: if_splits)
    obtain ss2 k ks where s2: "handle_slots c a n skipFailures st ss = (st1, Inr ss2)" "ss1 = s # ss2" "keep = k # ks"
      "list_all2 (\<lambda>k s. k \<longrightarrow> successes s \<or> is_mint s) ks ss2"
      using Cons.prems(1,2) None by (auto simp: cons_slot_Inr list_all2_Cons2)
    from Cons.IH [OF s2(1,4) _ Cons.prems(4)] Cons.prems(3) obtain st1' where
      "handle_slots c a n False st' (sel ks ss) = (st1', Inr (sel ks ss2))" by auto
    then show ?thesis using s2 n' by (auto simp: cons_slot_Inr)
  next
    case (Some p)
    obtain st2 res where p: "p = (st2, res)" by (cases p)
    have h: "inSet s" "handle c a n st (Request (transition s)) = Some (st2, res)" "\<not> is_mint s"
      using Some p by (auto simp: is_mint_def handle_def split: if_splits request.splits)
    obtain ss2 s2 k ks where s2: "handle_slots c a n skipFailures st2 ss = (st1, Inr ss2)" "ss1 = s2 # ss2" "keep = k # ks"
      "k \<longrightarrow> successes s2 \<or> is_mint s2" "list_all2 (\<lambda>k s. k \<longrightarrow> successes s \<or> is_mint s) ks ss2"
      and s2': "s2 = (case res of Inl _ \<Rightarrow> fail_slot s | Inr outs \<Rightarrow> s\<lparr>outputsSet := Some outs, successes := True\<rparr>)"
      using Cons.prems(1,2) Some p by (auto simp: cons_slot_Inr list_all2_Cons2 split: sum.splits if_splits)
    note IH = Cons.IH [OF s2(1,5)]
    show ?thesis
    proof (cases k)
      case True
      then obtain outs where r: "res = Inr outs" "s2 = s\<lparr>outputsSet := Some outs, successes := True\<rparr>"
        using s2(4) s2' h(3) Cons.prems(3) by (cases res) (auto simp: fail_slot_def is_mint_def split: request.splits)
      from handle_fewer [OF h(2) [unfolded r(1)] Cons.prems(4)] obtain st2' where
        h': "handle c a n st' (Request (transition s)) = Some (st2', Inr outs)" "lockMap st2' \<subseteq> lockMap st2" by blast
      from IH [OF _ h'(2)] Cons.prems(3) obtain st1' where
        "handle_slots c a n False st2' (sel ks ss) = (st1', Inr (sel ks ss2))" by auto
      then show ?thesis using s2 h h' r True by (auto simp: cons_slot_Inr)
    next
      case False
      have "lockMap st' \<subseteq> lockMap st2" using handle_grows [OF h(2)] Cons.prems(4) by blast
      from IH [OF _ this] Cons.prems(3) show ?thesis using s2 False by auto
    qed
  qed
qed simp

text \<open>The slots whose parallelism counts for their ring; none of them fails later.\<close>

definition contributes :: "u64 \<Rightarrow> request_slot \<Rightarrow> bool" where
  "contributes n s \<longleftrightarrow> inSet s \<and> \<not> fails s \<and> (\<exists>t p. Request (transition s) = Mint t \<and> 3 \<le> length (Proofs t) \<and> 0 < n \<and>
     processedMap s = Some p \<and> validForReward p)"

lemma tally_slot_idle: "tally_slot c a n pmap s = Inr (pmap', s') \<Longrightarrow> \<not> contributes n s' \<Longrightarrow> pmap' = pmap"
  by (cases "Request (transition s)")
    (auto simp: tally_slot_def contributes_def bindE_eq_Inr catchE_Inr derefE_eq_Inr PROOF_FRAME_CUTOFF_def
      split: bool.splits if_splits)

lemma tally_slots_sel:
  assumes "tally_slots c a n pmap ss = Inr (pmap1, ss1)" "list_all2 (\<lambda>k s. contributes n s \<longrightarrow> k) keep ss1"
  shows "tally_slots c a n pmap (sel keep ss) = Inr (pmap1, sel keep ss1)"
  using assms
proof (induction ss arbitrary: pmap ss1 keep)
  case (Cons s ss)
  obtain pmap2 s2 ss2 where s2: "tally_slot c a n pmap s = Inr (pmap2, s2)" "tally_slots c a n pmap2 ss = Inr (pmap1, ss2)"
    "ss1 = s2 # ss2"
    using Cons.prems(1) by (auto simp: bindE_eq_Inr)
  obtain k ks where k: "keep = k # ks" "contributes n s2 \<longrightarrow> k" "list_all2 (\<lambda>k s. contributes n s \<longrightarrow> k) ks ss2"
    using Cons.prems(2) s2(3) by (auto simp: list_all2_Cons2)
  show ?case using Cons.IH [OF s2(2) k(3)] s2 k tally_slot_idle [OF s2(1)] by (cases k) auto
qed (auto simp: list_all2_Nil2)

lemma handleMint_valid:
  assumes "preProcessMint c m a n t frame = Some (Inr pm)" "validForReward pm" "0 < n" "3 \<le> length (Proofs t)"
    "handleMint c a n t frame pm pmap = Some (Inl e)"
  shows "e = Panic"
  using assms(1)
proof (rule preProcessMint_cases)
  fix key peerId addr
  assume k: "sig_key (MintSignature t) = Inr key" "peer_id c key = Inr peerId" "altAddress c key = Inr addr"
    and p2: "isPre2 pm \<longrightarrow> length (Proofs t) = 1 \<and> key = Beacon a \<and>
       (\<exists>ad. bindE (poseidon_HashBytes c key) (fill_bytes 32) = Inr ad \<and> Tries a \<noteq> [] \<and> Contains (Tries a ! 0) ad)"
  obtain alt where alt: "poseidon_HashBytes c peerId = Inr alt" "fill_bytes 32 alt = Inr addr"
    using k(2,3) by (auto simp: altAddress_def peer_id_def bindE_eq_Inr)
  have np: "\<not> isPre2 pm" "Proofs t \<noteq> []" using p2 assms(4) by auto
  have "reward ring n pmap par = Inl e \<Longrightarrow> e = Panic" for ring par
    by (auto simp: reward_def bindE_eq_Inl derefE_def fill_bytes_def Let_def split: option.splits if_splits)
  then show ?thesis using assms k alt np
    by (auto simp: handleMint_def mint_outputs_def Let_def PROOF_FRAME_CUTOFF_def bindE_eq_Inl split: if_splits)
qed

lemma contributes_succeeds:
  assumes "contributes n s" "mint_slot c a n frame pmap s = Some (Inr s')"
    "\<And>t p. Request (transition s) = Mint t \<Longrightarrow> processedMap s = Some p \<Longrightarrow> preProcessMint c m a n t frame = Some (Inr p)"
  shows "successes s'"
proof -
  obtain t p where t: "Request (transition s) = Mint t" "3 \<le> length (Proofs t)" "0 < n" "processedMap s = Some p" "validForReward p"
    "inSet s" "\<not> fails s"
    using assms(1) by (auto simp: contributes_def)
  have "handleMint c a n t frame p pmap = Some (Inl e) \<Longrightarrow> e = Panic" for e
    using handleMint_valid [OF assms(3) [OF t(1,4)] t(5,3,2)] by blast
  then show ?thesis using mint_slot_cases [OF assms(2)] t by (auto simp: is_mint_def)
qed

lemma mint_slots_sel:
  assumes "mint_slots c m a n frame ss = Some (Inr ss')" "list_all (\<lambda>s. processedMap s = None) ss"
  shows "mint_slots c m a n frame (sel (map successes ss') ss) = Some (Inr (filter successes ss'))"
proof -
  let ?keep = "map successes ss'"
  obtain ss2 ss3 pmap where p: "list_all2 (\<lambda>x y. preprocess_slot c m a n frame x = Some (Inr y)) ss ss2"
    and t: "tally_slots c a n (\<lambda>_. 0) ss2 = Inr (pmap, ss3)"
    and q: "list_all2 (\<lambda>x y. mint_slot c a n frame pmap x = Some (Inr y)) ss3 ss'"
    using assms(1) by (auto simp: mint_slots_def bindL_eq_Inr mapL_all2)
  let ?ok = "\<lambda>s. \<forall>t p. Request (transition s) = Mint t \<longrightarrow> processedMap s = Some p \<longrightarrow> preProcessMint c m a n t frame = Some (Inr p)"
  have "list_all ?ok ss2" using p assms(2)
    by (induction rule: list_all2_induct) (auto dest!: preprocess_slot_cases)
  with tally_slots_all2 [OF t] have ok: "list_all ?ok ss3"
    by (induction rule: list_all2_induct) auto
  have "list_all2 (\<lambda>s s'. contributes n s \<longrightarrow> successes s') ss3 ss'"
    using q ok by (induction rule: list_all2_induct) (auto dest: contributes_succeeds)
  then have con: "list_all2 (\<lambda>k s. contributes n s \<longrightarrow> k) ?keep ss3"
    by (simp add: list_all2_map1 list_all2_conv_all_nth)
  have "mapL (preprocess_slot c m a n frame) (sel ?keep ss) = Some (Inr (sel ?keep ss2))"
    unfolding mapL_all2 by (rule list_all2_sel [OF p])
  moreover have "tally_slots c a n (\<lambda>_. 0) (sel ?keep ss2) = Inr (pmap, sel ?keep ss3)" by (rule tally_slots_sel [OF t con])
  moreover have "mapL (mint_slot c a n frame pmap) (sel ?keep ss3) = Some (Inr (filter successes ss'))"
    using list_all2_sel [OF q, of ?keep] unfolding mapL_all2 sel_filter .
  ultimately show ?thesis by (simp add: mint_slots_def)
qed

lemma filter_outs: "list_all (settled n skipFailures) ss \<Longrightarrow> concat (map slot_outs (filter successes ss)) = concat (map slot_outs ss)"
  by (induction ss) (auto simp: settled_def)

lemma finish_successes:
  assumes "finish a skipFailures ss = Inr (a', succ, failed)" "list_all (settled n skipFailures) ss"
  shows "finish a False (filter successes ss) = Inr (a', succ, [])"
proof -
  have "filter fails (filter successes ss) = []" using assms(2) by (induction ss) (auto simp: settled_def)
  moreover have "a' = a\<lparr>TokenOutputs := Some (concat (map slot_outs ss))\<rparr>" "succ = map transition (filter successes ss)"
    using assms(1) by (auto simp: finish_def Let_def slot_outs_def [abs_def] split: if_splits)
  ultimately show ?thesis using filter_outs [OF assms(2)] by (simp add: finish_def Let_def slot_outs_def [abs_def])
qed

text \<open>
  C1: the requests that \<open>ApplyTransitions\<close> finds successful, whatever failures it skipped, are applied
  without a failure by a node with the same stores and tries, with the same outputs and the same
  successes. A frame made from the successes is accepted and changes the state alike everywhere.
\<close>

theorem successes_replay:
  assumes "ApplyTransitions c m a n transitions skipFailures = (st, Some (Inr (a', succ, failed)))"
  shows "snd (ApplyTransitions c m a n succ False) = Some (Inr (a', succ, []))"
  using assms
proof (rule ApplyTransitions_cases)
  fix flt frame requests ss0 ss1 ss2 ss3
  assume pre: "GetBloomFilter c TOKEN_ADDRESS 256 3 = Inr flt" "frame_at a flt (n - 1) = Inr frame"
    and ss: "mapE (validate_slot c) (map new_slot requests) = Inr ss0" "admit_slots c a n {} ss0 = Inr ss1"
      "handle_slots c a n skipFailures start_state ss1 = (st, Inr ss2)" "mint_slots c m a n frame ss2 = Some (Inr ss3)"
    and f: "finish a skipFailures ss3 = Inr (a', succ, failed)"
  let ?keep = "map successes ss3"
  have st: "list_all (settled n skipFailures) ss3" "map transition ss3 = requests" using phases_settled [OF ss] by simp_all
  have s0: "mapE (validate_slot c) (map new_slot succ) = Inr (sel ?keep ss0)"
  proof -
    have "succ = sel ?keep requests" using finish_outputs [OF f] by (simp add: st(2) [symmetric] sel_map sel_filter)
    then show ?thesis using ss(1) list_all2_sel by (simp add: mapE_all2 list_all2_map1)
  qed
  have ad: "list_all (admitted n skipFailures) ss1" by (rule phases_admitted [OF ss(1,2)])
  have h: "list_all2 (handled_slot skipFailures) ss1 ss2" by (rule handle_slots_all2 [OF ss(3)])
  have ad2: "list_all (\<lambda>s. processedMap s = None \<and> (is_mint s \<longrightarrow> admitted n skipFailures s)) ss2"
    using h ad by (induction rule: list_all2_induct) (auto simp: handled_slot_def is_mint_def admitted_def)
  obtain parMap where mi: "list_all2 (minted_slot c m a n frame parMap) ss2 ss3"
    by (rule mint_slots_all2 [OF ss(4)]) (use ad2 in \<open>auto simp: list_all_iff admitted_def\<close>)
  have "list_all2 (\<lambda>s s3. successes s3 \<longrightarrow> successes s \<or> is_mint s) ss2 ss3"
    by (rule list_all2_mono [OF mi]) (auto simp: minted_slot_def is_mint_def)
  then have k2: "list_all2 (\<lambda>k s. k \<longrightarrow> successes s \<or> is_mint s) ?keep ss2"
    by (simp add: list_all2_map1 list_all2_conv_all_nth)
  have "map inSet ss2 = map inSet ss1" using h by (induction rule: list_all2_induct) (auto simp: handled_slot_def)
  moreover have "map inSet ss3 = map inSet ss2" using mi by (induction rule: list_all2_induct) (auto simp: minted_slot_def)
  moreover have "list_all2 (\<longrightarrow>) ?keep (map inSet ss3)" using st(1) by (induction ss3) (auto simp: settled_def)
  ultimately have k1: "list_all2 (\<lambda>k s. k \<longrightarrow> inSet s) ?keep ss1" by (simp add: list.rel_map)
  have "list_all (\<lambda>s. \<not> inSet s) ss0"
    using ss(1) by (auto simp: mapE_all2 list_all2_map1 list_all2_conv_all_nth list_all_length dest: validate_slot_new)
  from admit_slots_sel [OF ss(2) k1 this] have a1: "admit_slots c a n {} (sel ?keep ss0) = Inr (sel ?keep ss1)" by simp
  have "list_all (\<lambda>s. \<not> successes s) ss1" by (rule list.pred_mono_strong [OF ad]) (simp add: admitted_def)
  from handle_slots_sel [OF ss(3) k2 this] obtain st1 where
    h1: "handle_slots c a n False start_state (sel ?keep ss1) = (st1, Inr (sel ?keep ss2))" by blast
  have "list_all (\<lambda>s. processedMap s = None) ss2" by (rule list.pred_mono_strong [OF ad2]) simp
  note m1 = mint_slots_sel [OF ss(4) this] and f1 = finish_successes [OF f st(1)]
  have "ApplyTransitions c m a n succ False = (st1, Some (Inr (a', succ, [])))"
    unfolding ApplyTransitions_phases using pre s0 a1 h1 m1 f1 by (auto simp: request_order_def)
  then show ?thesis by simp
qed

section \<open>Value\<close>

text \<open>
  The parallelism recorded for each ring: what the successful mint requests with a valid proof
  share. The ring is the first that holds the prover; the sum wraps around.
\<close>

definition mint_share ::
    "crypto_ops \<Rightarrow> merkle_ops \<Rightarrow> token_application \<Rightarrow> u64 \<Rightarrow> clock_frame \<Rightarrow> int \<Rightarrow> token_request \<Rightarrow> u64" where
  "mint_share c m a n frame ring t = (case Request t of
       Mint r \<Rightarrow>
         (case preProcessMint c m a n r frame of
            Some (Inr pm) \<Rightarrow>
              if validForReward pm then
                (case RingAndParallelism c r (first_ring (tl (Tries a))) of
                   Inr (ring', par) \<Rightarrow> if ring' = ring then ucast par else 0
                 | Inl _ \<Rightarrow> 0)
              else 0
          | _ \<Rightarrow> 0)
     | _ \<Rightarrow> 0)"

definition ring_tally ::
    "crypto_ops \<Rightarrow> merkle_ops \<Rightarrow> token_application \<Rightarrow> u64 \<Rightarrow> clock_frame \<Rightarrow> token_request list \<Rightarrow> int \<Rightarrow> u64" where
  "ring_tally c m a n frame ts ring = sum_list (map (mint_share c m a n frame ring) ts)"

definition slot_share :: "crypto_ops \<Rightarrow> token_application \<Rightarrow> u64 \<Rightarrow> int \<Rightarrow> request_slot \<Rightarrow> u64" where
  "slot_share c a n ring s = (case Request (transition s) of
       Mint r \<Rightarrow>
         if contributes n s then
           (case RingAndParallelism c r (first_ring (tl (Tries a))) of
              Inr (ring', par) \<Rightarrow> if ring' = ring then ucast par else 0
            | Inl _ \<Rightarrow> 0)
         else 0
     | _ \<Rightarrow> 0)"

lemma tally_slot_value:
  assumes "tally_slot c a n pmap s = Inr (pmap', s')"
  shows "pmap' ring = pmap ring + slot_share c a n ring s'"
proof (cases "contributes n s'")
  case True
  then obtain t p where t: "Request (transition s') = Mint t" "inSet s'" "\<not> fails s'" "3 \<le> length (Proofs t)" "0 < n"
    "processedMap s' = Some p" "validForReward p" by (auto simp: contributes_def)
  then have "s' = s" using tally_slot_cases [OF assms] by auto
  then show ?thesis using assms t True
    by (auto simp: tally_slot_def slot_share_def PROOF_FRAME_CUTOFF_def catchE_Inr split: if_splits)
qed (use tally_slot_idle [OF assms] in \<open>simp add: slot_share_def split: request.splits\<close>)

lemma tally_slots_value:
  "tally_slots c a n pmap ss = Inr (pmap', ss') \<Longrightarrow> pmap' ring = pmap ring + sum_list (map (slot_share c a n ring) ss')"
proof (induction ss arbitrary: pmap ss')
  case (Cons s ss)
  then obtain pmap1 s1 ss1 where "tally_slot c a n pmap s = Inr (pmap1, s1)" "tally_slots c a n pmap1 ss = Inr (pmap', ss1)"
    "ss' = s1 # ss1" by (auto simp: bindE_eq_Inr)
  with Cons.IH [of pmap1 ss1] tally_slot_value [of c a n pmap s pmap1 s1 ring] show ?case by simp
qed simp

lemma preProcessMint_valid:
  assumes "preProcessMint c m a n t frame = Some (Inr pm)" "validForReward pm"
  shows "\<not> isPre2 pm \<and> 3 < length (Proofs t)"
  using assms(1)
proof (rule preProcessMint_cases)
  fix key peerId addr
  assume 1: "\<not> isPre2 pm \<longrightarrow> process_proofs a n (Proofs t) frame addr (UnpackAndVerifyMultiOutput c m)
       (check_multi c a frame (Proofs t) peerId) True = Some (Inr pm)" "isPre2 pm \<longrightarrow> \<not> validForReward pm"
  then have "process_proofs a n (Proofs t) frame addr (UnpackAndVerifyMultiOutput c m)
       (check_multi c a frame (Proofs t) peerId) True = Some (Inr pm)" using assms(2) by blast
  then show ?thesis by (rule process_proofs_valid [OF _ assms(2)]) (use 1 assms(2) in blast)
qed

lemma slot_share_success:
  assumes "mint_slot c a n frame pmap s = Some (Inr s')" "successes s'" "is_mint s \<longrightarrow> \<not> successes s"
    "\<And>t p. Request (transition s) = Mint t \<Longrightarrow> processedMap s = Some p \<Longrightarrow> preProcessMint c m a n t frame = Some (Inr p)"
  shows "slot_share c a n ring s = mint_share c m a n frame ring (transition s')"
proof (cases "is_mint s")
  case False
  then have "s' = s" using assms(1) not_mint_slots(5) [of s] by simp
  then show ?thesis using False by (auto simp: slot_share_def mint_share_def is_mint_def split: request.splits)
next
  case True
  then obtain t pm outs where t: "Request (transition s) = Mint t" "inSet s" "\<not> fails s" "processedMap s = Some pm"
    "handleMint c a n t frame pm pmap = Some (Inr outs)" "s' = s\<lparr>outputsSet := Some outs, successes := True\<rparr>"
    using mint_slot_cases [OF assms(1)] assms(2,3) by (auto simp: is_mint_iff)
  have pre: "preProcessMint c m a n t frame = Some (Inr pm)" by (rule assms(4) [OF t(1,4)])
  have "validForReward pm \<Longrightarrow> 3 \<le> length (Proofs t) \<and> 0 < n"
    using preProcessMint_valid [OF pre] t(5) by (auto simp: handleMint_def bindL_eq_Inr PROOF_FRAME_CUTOFF_def split: if_splits)
  then have "contributes n s \<longleftrightarrow> validForReward pm" using t by (auto simp: contributes_def)
  then show ?thesis using t pre by (simp add: slot_share_def mint_share_def)
qed

lemma mint_slots_tally:
  assumes "mint_slots c m a n frame ss = Some (Inr ss')" "list_all successes ss'"
    "list_all (\<lambda>s. processedMap s = None \<and> (is_mint s \<longrightarrow> admitted n skipFailures s)) ss"
  shows "list_all2 (minted_slot c m a n frame (ring_tally c m a n frame (map transition ss'))) ss ss'"
proof -
  obtain ss2 ss3 pmap where p: "list_all2 (\<lambda>x y. preprocess_slot c m a n frame x = Some (Inr y)) ss ss2"
    and t: "tally_slots c a n (\<lambda>_. 0) ss2 = Inr (pmap, ss3)"
    and q: "list_all2 (\<lambda>x y. mint_slot c a n frame pmap x = Some (Inr y)) ss3 ss'"
    using assms(1) by (auto simp: mint_slots_def bindL_eq_Inr mapL_all2)
  let ?ok = "\<lambda>s. (is_mint s \<longrightarrow> \<not> successes s) \<and>
    (\<forall>t p. Request (transition s) = Mint t \<longrightarrow> processedMap s = Some p \<longrightarrow> preProcessMint c m a n t frame = Some (Inr p))"
  have "list_all ?ok ss2" using p assms(3)
    by (induction rule: list_all2_induct) (auto simp: admitted_def is_mint_def dest!: preprocess_slot_cases)
  with tally_slots_all2 [OF t] have ok: "list_all ?ok ss3"
    by (induction rule: list_all2_induct) (auto simp: is_mint_def)
  have "map (slot_share c a n ring) ss3 = map (mint_share c m a n frame ring) (map transition ss')" for ring
    using q ok assms(2) by (induction rule: list_all2_induct) (auto intro: slot_share_success)
  then have "pmap = ring_tally c m a n frame (map transition ss')"
    using tally_slots_value [OF t] by (auto simp: ring_tally_def fun_eq_iff)
  moreover have "list_all2 (minted_slot c m a n frame pmap) ss ss'"
    by (rule mint_phases_all2 [OF p t q]) (use assms(3) in \<open>auto simp: list_all_iff admitted_def\<close>)
  ultimately show ?thesis by simp
qed

text \<open>What a successful request may do to the value in circulation.\<close>

definition conserved ::
    "crypto_ops \<Rightarrow> merkle_ops \<Rightarrow> token_application \<Rightarrow> u64 \<Rightarrow> clock_frame \<Rightarrow> (int \<Rightarrow> u64) \<Rightarrow> token_request \<Rightarrow> token_output list \<Rightarrow>
     bool" where
  "conserved c m a n frame parMap t outs = (case Request t of
       Mint r \<Rightarrow> concat (map spent outs) = [] \<and>
         (\<exists>pm. preProcessMint c m a n r frame = Some (Inr pm) \<and> mint_pays c m a n frame parMap r pm (coins_of outs))
     | _ \<Rightarrow> sum_list (map created outs) = sum_list (map (worth a) (concat (map spent outs))))"

lemma minted_slot_conserved:
  assumes "minted_slot c m a n frame parMap s s'" "successes s'" "is_mint s \<longrightarrow> \<not> successes s" "unat n < 2 ^ 64 - 737280"
    "successes s \<Longrightarrow> \<exists>st1 st2. handle c a n st1 (Request (transition s)) = Some (st2, Inr (slot_outs s))"
  shows "conserved c m a n frame parMap (transition s') (slot_outs s')"
proof (cases "is_mint s")
  case True
  then obtain t pm outs where t: "Request (transition s) = Mint t" "preProcessMint c m a n t frame = Some (Inr pm)"
    "handleMint c a n t frame pm parMap = Some (Inr outs)" "s' = s\<lparr>processedMap := Some pm, outputsSet := Some outs, successes := True\<rparr>"
    using assms(1-3) by (auto simp: minted_slot_def)
  have "slot_outs s' = outs" "transition s' = transition s" using t(4) by (simp_all add: slot_outs_def)
  then show ?thesis
    using t(1,2) mint_backed [OF t(2,3) assms(4)] handleMint_spends_nothing [OF t(3)] by (auto simp: conserved_def)
next
  case False
  then have s: "s' = s" using assms(1) by (auto simp: minted_slot_def is_mint_def)
  then obtain st1 st2 where "handle c a n st1 (Request (transition s)) = Some (st2, Inr (slot_outs s))"
    using assms(2,5) by blast
  then have "request_step c a n st1 (Request (transition s)) = (st2, Inr (slot_outs s))" by (simp add: request_step_def)
  from th.balanced [OF this] show ?thesis using s False by (auto simp: conserved_def is_mint_def split: request.splits)
qed

text \<open>What holds of the slots after the loop over the requests other than mints.\<close>

definition slot_ok :: "crypto_ops \<Rightarrow> token_application \<Rightarrow> u64 \<Rightarrow> bool \<Rightarrow> request_slot \<Rightarrow> bool" where
  "slot_ok c a n skipFailures s \<longleftrightarrow> processedMap s = None \<and> (is_mint s \<longrightarrow> admitted n skipFailures s) \<and>
     (successes s \<longrightarrow> (\<exists>st1 st2. handle c a n st1 (Request (transition s)) = Some (st2, Inr (slot_outs s))))"

lemma handled_slots_ok:
  assumes "mapE (validate_slot c) (map new_slot requests) = Inr ss0" "admit_slots c a n {} ss0 = Inr ss1"
    "handle_slots c a n skipFailures start_state ss1 = (st, Inr ss2)"
  shows "list_all (slot_ok c a n skipFailures) ss2"
proof -
  have ad: "list_all (admitted n skipFailures) ss1" by (rule phases_admitted(1) [OF assms(1,2)])
  then have "list_all (\<lambda>s. \<not> successes s) ss1" by (rule list.pred_mono_strong) (simp add: admitted_def)
  note o = handle_slots_outs [OF assms(3) this]
  have "list_all (\<lambda>s. processedMap s = None \<and> (is_mint s \<longrightarrow> admitted n skipFailures s)) ss2"
    using handle_slots_all2 [OF assms(3)] ad
    by (induction rule: list_all2_induct) (auto simp: handled_slot_def is_mint_def admitted_def)
  with o show ?thesis by (simp add: list_all_iff slot_ok_def)
qed

lemma list_all_sel:
  assumes "list_all P ss"
  shows "list_all P (sel keep ss)"
  using assms
proof (induction ss arbitrary: keep)
  case (Cons s ss)
  then show ?case by (cases keep) simp_all
qed (cases keep; simp)

lemma mint_slots_conserved:
  assumes "mint_slots c m a n frame ss = Some (Inr ss')" "list_all (slot_ok c a n skipFailures) ss" "unat n < 2 ^ 64 - 737280"
  shows "list_all (\<lambda>s. conserved c m a n frame (ring_tally c m a n frame (map transition (filter successes ss')))
     (transition s) (slot_outs s)) (filter successes ss')"
proof -
  let ?ss = "sel (map successes ss') ss" and ?ss' = "filter successes ss'"
  have "list_all (\<lambda>s. processedMap s = None) ss" by (rule list.pred_mono_strong [OF assms(2)]) (simp add: slot_ok_def)
  note m = mint_slots_sel [OF assms(1) this]
  have ok: "list_all (slot_ok c a n skipFailures) ?ss" by (rule list_all_sel [OF assms(2)])
  have "list_all2 (minted_slot c m a n frame (ring_tally c m a n frame (map transition ?ss'))) ?ss ?ss'"
    by (rule mint_slots_tally [OF m]) (use ok in \<open>auto simp: list_all_iff slot_ok_def\<close>)
  then show ?thesis
    using ok
    by (auto simp: list_all2_conv_all_nth list_all_length slot_ok_def admitted_def intro!: minted_slot_conserved [OF _ _ _ assms(3)]
      dest: nth_mem)
qed

lemma outputs_spent_once:
  assumes "mapE (validate_slot c) (map new_slot requests) = Inr ss0" "admit_slots c a n {} ss0 = Inr ss1"
    "handle_slots c a n skipFailures start_state ss1 = (st, Inr ss2)" "mint_slots c m a n frame ss2 = Some (Inr ss3)"
  shows "distinct (concat (map spent (concat (map slot_outs ss3))))"
proof -
  have ad: "list_all (admitted n skipFailures) ss1" by (rule phases_admitted(1) [OF assms(1,2)])
  have ok: "list_all (slot_ok c a n skipFailures) ss2" by (rule handled_slots_ok [OF assms(1-3)])
  obtain parMap where "list_all2 (minted_slot c m a n frame parMap) ss2 ss3"
    by (rule mint_slots_all2 [OF assms(4)]) (use ok in \<open>auto simp: list_all_iff slot_ok_def admitted_def\<close>)
  then have "concat (map spent (concat (map slot_outs ss3))) = concat (map spent (concat (map slot_outs ss2)))"
    using ok
  proof (induction rule: list_all2_induct)
    case (Cons s ss s' ss')
    have "concat (map spent (slot_outs s')) = concat (map spent (slot_outs s))"
      using Cons.hyps(1) Cons.prems handleMint_spends_nothing
      by (fastforce simp: minted_slot_def slot_ok_def admitted_def is_mint_def slot_outs_def)
    then show ?case using Cons by simp
  qed simp
  moreover have "list_all (\<lambda>s. outputsSet s = None) ss1" by (rule list.pred_mono_strong [OF ad]) (simp add: admitted_def)
  from handle_slots_run [OF assms(3) this] obtain stn where
    "run_requests (request_step c a n) start_state (map (Request \<circ> transition) (filter inSet ss1)) = (stn, concat (map slot_outs ss2))"
    by (metis prod.collapse)
  from th.run_spends_once [OF this] have "distinct (concat (map spent (concat (map slot_outs ss2))))" by blast
  ultimately show ?thesis by simp
qed

text \<open>
  C2: the requests of a frame create no value but what its mint requests prove. The outputs are
  those of the successful requests, in order, and spend every coin at most once. The coins that a
  request other than a mint creates are worth the coins it spends. A mint request spends nothing,
  and the coins it creates are the one that its proofs, checked against the frame before, entitle it
  to: the coin a beacon's proof names, or its share of the ring's reward, where the parallelism
  recorded for the ring is the sum over the successful mint requests of the frame. The frame number
  is below \<open>2 ^ 64 - 737280\<close>.
\<close>

theorem value_conserved:
  assumes "ApplyTransitions c m a n transitions skipFailures = (st, Some (Inr (a', succ, failed)))" "unat n < 2 ^ 64 - 737280"
  shows "\<exists>flt frame outss. GetBloomFilter c TOKEN_ADDRESS 256 3 = Inr flt \<and> frame_at a flt (n - 1) = Inr frame \<and>
     TokenOutputs a' = Some (concat outss) \<and> distinct (concat (map spent (concat outss))) \<and>
     list_all2 (conserved c m a n frame (ring_tally c m a n frame succ)) succ outss"
  using assms(1)
proof (rule ApplyTransitions_cases)
  fix flt frame requests ss0 ss1 ss2 ss3
  assume pre: "GetBloomFilter c TOKEN_ADDRESS 256 3 = Inr flt" "frame_at a flt (n - 1) = Inr frame"
    and ss: "mapE (validate_slot c) (map new_slot requests) = Inr ss0" "admit_slots c a n {} ss0 = Inr ss1"
      "handle_slots c a n skipFailures start_state ss1 = (st, Inr ss2)" "mint_slots c m a n frame ss2 = Some (Inr ss3)"
    and f: "finish a skipFailures ss3 = Inr (a', succ, failed)"
  let ?outss = "map slot_outs (filter successes ss3)"
  have st: "list_all (settled n skipFailures) ss3" using phases_settled [OF ss] by simp
  have ok: "list_all (slot_ok c a n skipFailures) ss2" by (rule handled_slots_ok [OF ss(1-3)])
  have "list_all2 (conserved c m a n frame (ring_tally c m a n frame succ)) (map transition (filter successes ss3)) ?outss"
    using mint_slots_conserved [OF ss(4) ok assms(2)] finish_outputs [OF f]
    by (simp add: list_all2_map1 list_all2_map2 list_all2_same list_all_iff)
  then show ?thesis
    using pre finish_outputs [OF f] filter_outs [OF st] outputs_spent_once [OF ss]
    by (intro exI [of _ flt] exI [of _ frame] exI [of _ ?outss]) simp
qed

section \<open>Samples\<close>

text \<open>The same split twice: the second finds its coin locked.\<close>

definition frame_app :: token_application where
  "frame_app = sample_app\<lparr>frame_at := (\<lambda>_ _. Inr sample_frame)\<rparr>"

definition split_request :: token_request where
  "split_request = TokenRequest_of 0 (Split sample_split)"

definition split_outs :: "token_output list" where
  "split_outs = [OutCoin (owned_coin 4), OutCoin (owned_coin 5), DeletedCoin \<lparr>CoinAddress = replicate 32 1\<rparr>]"

lemma frame_app_split:
  "handle sample_crypto frame_app 1 st (Split sample_split) = Some
     (if replicate 32 1 \<in> lockMap st then (st, Inl ErrInvalidStateTransition)
      else (st\<lparr>lockMap := insert (replicate 32 1) (lockMap st)\<rparr>, Inr split_outs))"
proof -
  have "coin_at frame_app (replicate 32 1) = Inr (owned_coin 9)" by (simp add: frame_app_def sample_split_fields)
  then show ?thesis
    by (simp add: handle_def handleSplit_def sample_split_valid sample_owner sample_split_fields lock_on_success_def split_coins_eq
        sample_amount guardE_def split_outs_def)
      (simp add: owned_coin_def fill_bytes_def)
qed

lemma sample_order: "request_order True [split_request, split_request] = Inr [split_request, split_request]"
proof -
  obtain out where o: "request_order True [split_request, split_request] = Inr out"
    by (auto simp: request_order_def Priority_def split_request_def TokenRequest_of_def)
  from request_order_mset [OF this] have "mset out = {#split_request, split_request#}" by simp
  then have "out = [split_request, split_request]"
    by (cases out; cases "tl out") (auto simp: add_mset_eq_single add_eq_conv_ex)
  then show ?thesis using o by simp
qed

lemma sample_apply:
  "ApplyTransitions sample_crypto m frame_app 1 [split_request, split_request] True =
     (\<lparr>lockMap = {replicate 32 1}, peerScores = []\<rparr>,
      Some (Inr (frame_app\<lparr>TokenOutputs := Some split_outs\<rparr>, [split_request], [split_request])))"
proof -
  obtain flt where b: "GetBloomFilter sample_crypto TOKEN_ADDRESS 256 3 = Inr flt"
    using GetBloomFilter_value(1) [of 8 sample_crypto TOKEN_ADDRESS 3] by auto
  have r: "Request split_request = Split sample_split" by (simp add: split_request_def TokenRequest_of_def)
  have nm: "\<not> is_mint s" if "transition s = split_request" for s using that r by (simp add: is_mint_def)
  have fr: "frame_at frame_app x y = Inr sample_frame" for x y by (simp add: frame_app_def)
  show ?thesis
    unfolding ApplyTransitions_phases
    by (rule exI [of _ flt], rule exI [of _ sample_frame])
      (simp add: b fr sample_order new_slot_def r nm not_mint_slots frame_app_split start_state_def cons_slot_def fail_slot_def
        mint_slots_def finish_def)
qed

theorem requests_accounted_witness:
  "\<exists>rest. mset [split_request, split_request] = mset [split_request] + mset [split_request] + mset rest \<and>
     list_all (\<lambda>t. ignored 1 True (Request t)) rest"
  using requests_accounted [OF sample_apply [of sample_merkle]] by simp

theorem value_conserved_witness:
  "(\<exists>st. ApplyTransitions sample_crypto sample_merkle frame_app 1 [split_request, split_request] True =
      (st, Some (Inr (frame_app\<lparr>TokenOutputs := Some split_outs\<rparr>, [split_request], [split_request])))) \<and>
   sum_list (map created split_outs) = sum_list (map (worth frame_app) (concat (map spent split_outs)))"
proof -
  obtain frame outss where o: "Some split_outs = Some (concat outss)"
    "list_all2 (conserved sample_crypto sample_merkle frame_app 1 frame
       (ring_tally sample_crypto sample_merkle frame_app 1 frame [split_request])) [split_request] outss"
    using value_conserved [OF sample_apply [of sample_merkle]] by auto
  then have "outss = [split_outs]" by (auto simp: list_all2_Cons1)
  with o(2) have "sum_list (map created split_outs) = sum_list (map (worth frame_app) (concat (map spent split_outs)))"
    by (simp add: conserved_def split_request_def TokenRequest_of_def)
  then show ?thesis using sample_apply [of sample_merkle] by simp
qed

theorem successes_replay_witness:
  "snd (ApplyTransitions sample_crypto sample_merkle frame_app 1 [split_request] False) =
     Some (Inr (frame_app\<lparr>TokenOutputs := Some split_outs\<rparr>, [split_request], []))"
  using successes_replay [OF sample_apply [of sample_merkle]] .

end
