(* ===== verification/VectorTree.thy ===== *)
theory VectorTree
  imports Interfaces
begin

unbundle bit_operations_syntax

text \<open>
  The vector commitment tree (\<open>crypto/proof_tree.go\<close>): a radix tree over 6-bit nibbles of the keys
  with compressed prefixes, whose nodes cache their commitments and the size, number of leaves and
  depth below them. The hash and the polynomial commitments are arguments (\<open>vc_ops\<close>). A nil
  value, commitment, size or child is \<open>None\<close>; \<open>None\<close> as the result of an insertion is a loop that does
  not end.
\<close>

section \<open>Nodes\<close>

record vc_ops =
  sha512_Sum512 :: "bytes \<Rightarrow> bytes"
  CommitRaw :: "bytes \<Rightarrow> bytes"
  ProveRaw :: "bytes \<Rightarrow> nat \<Rightarrow> bytes"
  VerifyRaw :: "bytes \<Rightarrow> bytes \<Rightarrow> nat \<Rightarrow> bytes \<Rightarrow> bool"

definition BranchNodes :: nat where "BranchNodes = 64"
definition BranchBits :: nat where "BranchBits = 6"

text \<open>
  The size of a leaf is the one it was inserted with, and is taken not to be nil: with a nil size
  the code panics in \<open>recalcMetadata\<close>. The size of a branch is nil until its metadata are computed.
\<close>

datatype vc_node =
    VLeaf (leafKey: bytes) (leafValue: "bytes option") (leafHashTarget: bytes) (leafCommitment: "bytes option") (leafSize: nat)
  | VBranch (branchPrefix: "nat list") (branchChildren: "vc_node option list") (branchCommitment: "bytes option")
      (branchSize: "nat option") (branchLeafCount: nat) (branchLongest: nat)

definition child :: "vc_node option list \<Rightarrow> nat \<Rightarrow> vc_node option" where
  "child ch i = (if i < length ch then ch ! i else None)"

definition no_children :: "vc_node option list" where
  "no_children = replicate BranchNodes None"

section \<open>Nibbles\<close>

definition getNextNibble :: "bytes \<Rightarrow> nat \<Rightarrow> nat" where
  "getNextNibble key pos =
     (let startByte = pos div 8 in
      if startByte \<ge> length key then 0
      else
        let startBit = pos mod 8;
            bitsFromCurrentByte = 8 - startBit;
            result = unat (key ! startByte) AND mask bitsFromCurrentByte
        in if bitsFromCurrentByte \<ge> BranchBits then drop_bit (bitsFromCurrentByte - BranchBits) result AND mask BranchBits
           else
             let shifted = push_bit (BranchBits - bitsFromCurrentByte) result;
                 joined = (if startByte + 1 < length key
                   then shifted OR drop_bit (8 - (BranchBits - bitsFromCurrentByte)) (unat (key ! (startByte + 1)))
                   else shifted)
             in joined AND mask BranchBits)"

partial_function (option) getNibblesUntilDiverge :: "bytes \<Rightarrow> bytes \<Rightarrow> nat \<Rightarrow> nat list \<Rightarrow> (nat list \<times> nat) option" where
  "getNibblesUntilDiverge key1 key2 depth nibbles =
     (if getNextNibble key1 depth \<noteq> getNextNibble key2 depth then Some (nibbles, depth)
      else getNibblesUntilDiverge key1 key2 (depth + BranchBits) (nibbles @ [getNextNibble key1 depth]))"

text \<open>The first position at which a key leaves a prefix.\<close>

fun mismatch :: "bytes \<Rightarrow> nat \<Rightarrow> nat list \<Rightarrow> nat option" where
  "mismatch key depth [] = None"
| "mismatch key depth (x # xs) =
     (if getNextNibble key depth \<noteq> x then Some 0 else map_option Suc (mismatch key (depth + BranchBits) xs))"

section \<open>Metadata\<close>

primrec meta_leaves :: "vc_node \<Rightarrow> nat" where
  "meta_leaves (VLeaf k v h c s) = 1"
| "meta_leaves (VBranch pre ch c sz lc lb) = lc"

primrec meta_depth :: "vc_node \<Rightarrow> nat" where
  "meta_depth (VLeaf k v h c s) = 0"
| "meta_depth (VBranch pre ch c sz lc lb) = lb"

primrec node_size :: "vc_node \<Rightarrow> nat option" where
  "node_size (VLeaf k v h c s) = Some s"
| "node_size (VBranch pre ch c sz lc lb) = sz"

definition present :: "'a option list \<Rightarrow> 'a list" where
  "present xs = concat (map (\<lambda>x. case x of None \<Rightarrow> [] | Some y \<Rightarrow> [y]) xs)"

primrec recalcMetadata :: "vc_node \<Rightarrow> vc_node" where
  "recalcMetadata (VLeaf k v h c s) = VLeaf k v h c s"
| "recalcMetadata (VBranch pre ch c sz lc lb) =
     (let ch' = map (map_option recalcMetadata) ch in
      VBranch pre ch' c
        (Some (sum_list (map (\<lambda>n. case node_size n of None \<Rightarrow> 0 | Some s \<Rightarrow> s) (present ch'))))
        (sum_list (map meta_leaves (present ch')))
        (fold max (map meta_depth (present ch')) 0 + 1))"

section \<open>Insertion, lookup, deletion\<close>

lemma size_child: "child ch i = Some n \<Longrightarrow> size n < size (VBranch pre ch c sz lc lb)"
proof -
  assume "child ch i = Some n"
  then have "Some n \<in> set ch" by (auto simp: child_def split: if_splits) (metis nth_mem)
  then have "size_option size (Some n) \<le> size_list (size_option size) ch" by (rule size_list_estimation') simp
  then show ?thesis by simp
qed

definition node_measure :: "vc_node option \<Rightarrow> nat" where
  "node_measure n = (case n of None \<Rightarrow> 0 | Some x \<Rightarrow> Suc (size x))"

lemma child_measure: "node_measure (child ch i) < node_measure (Some (VBranch pre ch c sz lc lb))"
  using size_child [of ch i] by (auto simp: node_measure_def split: option.splits)

function insert_node :: "bytes \<Rightarrow> bytes option \<Rightarrow> bytes \<Rightarrow> nat \<Rightarrow> vc_node option \<Rightarrow> nat \<Rightarrow> vc_node option" where
  "insert_node key val ht sz None depth = Some (VLeaf key val ht None sz)"
| "insert_node key val ht sz (Some (VLeaf k v h c s)) depth =
     (if k = key then Some (VLeaf k val ht None sz)
      else Option.bind (getNibblesUntilDiverge k key depth []) (\<lambda>(sharedNibbles, divergeDepth).
        Some (VBranch sharedNibbles
          (no_children[getNextNibble k divergeDepth := Some (VLeaf k v h c s),
             getNextNibble key divergeDepth := Some (VLeaf key val ht None sz)]) None None 0 0)))"
| "insert_node key val ht sz (Some (VBranch pre ch c s lc lb)) depth =
     (case mismatch key depth pre of
        Some i \<Rightarrow>
          Some (recalcMetadata (VBranch (take i pre)
            (no_children[pre ! i := Some (VBranch (drop (i + 1) pre) ch c s lc lb),
               getNextNibble key (depth + i * BranchBits) := Some (VLeaf key val ht None sz)]) None None 0 0))
      | None \<Rightarrow>
          let finalNibble = getNextNibble key (depth + length pre * BranchBits) in
          Option.bind (insert_node key val ht sz (child ch finalNibble) (depth + length pre * BranchBits + BranchBits)) (\<lambda>n.
            Some (recalcMetadata (VBranch pre (ch[finalNibble := Some n]) None s lc lb))))"
  by pat_completeness auto
termination
  by (relation "measure (\<lambda>(key, val, ht, sz, n, depth). node_measure n)") (auto simp: child_measure)

definition tree_Insert ::
    "vc_node option \<Rightarrow> bytes \<Rightarrow> bytes option \<Rightarrow> bytes \<Rightarrow> nat \<Rightarrow> vc_node option result option" where
  "tree_Insert root key val ht sz =
     (if key = [] then Some (Inl (ErrMsg ''empty key not allowed''))
      else map_option (\<lambda>n. Inr (Some n)) (insert_node key val ht sz root 0))"

function get_node :: "bytes \<Rightarrow> vc_node option \<Rightarrow> nat \<Rightarrow> vc_node option" where
  "get_node key None depth = None"
| "get_node key (Some (VLeaf k v h c s)) depth = (if k = key then Some (VLeaf k v h c s) else None)"
| "get_node key (Some (VBranch pre ch c s lc lb)) depth =
     (if mismatch key depth pre \<noteq> None then None
      else get_node key (child ch (getNextNibble key (depth + length pre * BranchBits)))
        (depth + length pre * BranchBits + BranchBits))"
  by pat_completeness auto
termination
  by (relation "measure (\<lambda>(key, n, depth). node_measure n)") (auto simp: child_measure)

text \<open>A nil value reads as not found.\<close>

definition tree_Get :: "vc_node option \<Rightarrow> bytes \<Rightarrow> bytes result" where
  "tree_Get root key =
     (if key = [] then Inl (ErrMsg ''empty key not allowed'')
      else case Option.bind (get_node key root 0) leafValue of
        None \<Rightarrow> Inl (ErrMsg ''key not found'')
      | Some v \<Rightarrow> Inr v)"

text \<open>
  A branch that loses a child: without children it is gone; with one child that is a branch it is
  merged into the child, and a leaf takes its place.
\<close>

definition occupied :: "vc_node option list \<Rightarrow> (nat \<times> vc_node) list" where
  "occupied ch = [(i, n). (i, Some n) \<leftarrow> enumerate 0 ch]"

definition collapse :: "nat list \<Rightarrow> vc_node option list \<Rightarrow> nat option \<Rightarrow> nat \<Rightarrow> nat \<Rightarrow> vc_node option" where
  "collapse pre ch sz lc lb =
     (case occupied ch of
        [] \<Rightarrow> None
      | [(i, VBranch pre' ch' c' sz' lc' lb')] \<Rightarrow> Some (recalcMetadata (VBranch (pre @ [i] @ pre') ch' None sz' lc' lb'))
      | [(i, n)] \<Rightarrow> Some n
      | _ \<Rightarrow> Some (recalcMetadata (VBranch pre ch None sz lc lb)))"

function remove_node :: "bytes \<Rightarrow> vc_node option \<Rightarrow> nat \<Rightarrow> vc_node option" where
  "remove_node key None depth = None"
| "remove_node key (Some (VLeaf k v h c s)) depth = (if k = key then None else Some (VLeaf k v h c s))"
| "remove_node key (Some (VBranch pre ch c s lc lb)) depth =
     (if mismatch key depth pre \<noteq> None then Some (VBranch pre ch c s lc lb)
      else
        let finalNibble = getNextNibble key (depth + length pre * BranchBits);
            n = remove_node key (child ch finalNibble) (depth + length pre * BranchBits + BranchBits)
        in collapse pre (ch[finalNibble := n]) s lc lb)"
  by pat_completeness auto
termination
  by (relation "measure (\<lambda>(key, n, depth). node_measure n)") (auto simp: child_measure)

definition tree_Delete :: "vc_node option \<Rightarrow> bytes \<Rightarrow> vc_node option result" where
  "tree_Delete root key =
     (if key = [] then Inl (ErrMsg ''empty key not allowed'') else Inr (remove_node key root 0))"

definition tree_GetMetadata :: "vc_node option \<Rightarrow> nat \<times> nat" where
  "tree_GetMetadata root = (case root of None \<Rightarrow> (0, 0) | Some n \<Rightarrow> (meta_leaves n, meta_depth n))"

text \<open>\<open>GetSize\<close> of a tree without root calls a method on a nil interface.\<close>

definition tree_GetSize :: "vc_node option \<Rightarrow> nat option result" where
  "tree_GetSize root = bindE (derefE root) (\<lambda>n. Inr (node_size n))"

section \<open>Commitments\<close>

definition prefix_bytes :: "nat list \<Rightarrow> bytes" where
  "prefix_bytes pre = concat (map (\<lambda>p. be_put_uint32 (of_nat p)) pre)"

definition child_hash :: "vc_ops \<Rightarrow> bytes \<Rightarrow> vc_node \<Rightarrow> bytes" where
  "child_hash ops out n = (case n of
       VBranch pre ch c sz lc lb \<Rightarrow> sha512_Sum512 ops (1 # prefix_bytes pre @ out)
     | VLeaf k v h c s \<Rightarrow> out)"

definition leaf_hash :: "vc_ops \<Rightarrow> bytes \<Rightarrow> bytes option \<Rightarrow> bytes \<Rightarrow> bytes" where
  "leaf_hash ops key val ht =
     sha512_Sum512 ops (0 # key @ (if ht \<noteq> [] then ht else case val of None \<Rightarrow> [] | Some v \<Rightarrow> v))"

definition child_data :: "vc_ops \<Rightarrow> (bytes \<times> vc_node) option list \<Rightarrow> bytes" where
  "child_data ops res = concat (map (\<lambda>x. case x of None \<Rightarrow> replicate 64 0 | Some (out, n) \<Rightarrow> child_hash ops out n) res)"

text \<open>\<open>Commit\<close> returns the commitment and the node with its caches filled.\<close>

primrec commit_node :: "vc_ops \<Rightarrow> bool \<Rightarrow> vc_node \<Rightarrow> bytes \<times> vc_node" where
  "commit_node ops recalculate (VLeaf k v h c s) =
     (let out = (if c = None \<or> recalculate then leaf_hash ops k v h else the c) in (out, VLeaf k v h (Some out) s))"
| "commit_node ops recalculate (VBranch pre ch c sz lc lb) =
     (let res = map (map_option (commit_node ops recalculate)) ch in
      if c = None \<or> recalculate then
        let out = CommitRaw ops (child_data ops res) in (out, VBranch pre (map (map_option snd) res) (Some out) sz lc lb)
      else (the c, VBranch pre ch c sz lc lb))"

definition tree_Commit :: "vc_ops \<Rightarrow> bool \<Rightarrow> vc_node option \<Rightarrow> bytes \<times> vc_node option" where
  "tree_Commit ops recalculate root = (case root of
       None \<Rightarrow> (replicate 64 0, None)
     | Some n \<Rightarrow> map_prod id Some (commit_node ops recalculate n))"

definition branch_Prove :: "vc_ops \<Rightarrow> nat \<Rightarrow> vc_node option list \<Rightarrow> bytes \<times> vc_node option list" where
  "branch_Prove ops index ch =
     (let res = map (map_option (commit_node ops False)) ch in
      (ProveRaw ops (child_data ops res) index, map (map_option snd) res))"

definition branch_Verify ::
    "vc_ops \<Rightarrow> nat \<Rightarrow> bytes \<Rightarrow> vc_node option list \<Rightarrow> bytes option \<Rightarrow> bool \<times> vc_node option list \<times> bytes" where
  "branch_Verify ops index proof ch c = (case c of
       None \<Rightarrow>
         (let res = map (map_option (commit_node ops False)) ch;
              data = child_data ops res;
              out = CommitRaw ops data
          in (VerifyRaw ops (take 64 (drop (64 * index) data)) out index proof, map (map_option snd) res, out))
     | Some out \<Rightarrow>
         (let res = map_option (commit_node ops False) (child ch index)
          in (VerifyRaw ops (child_data ops [res]) out index proof, ch[index := map_option snd res], out)))"

lemma size_commit: "size (snd (commit_node ops r n)) = size n"
proof (induction n)
  case (VBranch pre ch c sz lc lb)
  have "size_option size (map_option (snd \<circ> commit_node ops r) x) = size_option size x" if "x \<in> set ch" for x
    using VBranch that by (cases x) auto
  then have "size_list (size_option size) (map (map_option (snd \<circ> commit_node ops r)) ch) = size_list (size_option size) ch"
    by (induction ch) auto
  then show ?case by (simp add: Let_def option.map_comp comp_def)
qed (simp add: Let_def)

lemma prove_measure:
  assumes "branch_Prove ops i ch = (proof, ch')"
  shows "node_measure (child ch' j) < node_measure (Some (VBranch pre ch c sz lc lb))"
proof -
  have "child ch' j = map_option (snd \<circ> commit_node ops False) (child ch j)"
    using assms by (auto simp: branch_Prove_def child_def Let_def option.map_comp)
  then have "node_measure (child ch' j) = node_measure (child ch j)"
    by (auto simp: node_measure_def size_commit split: option.splits)
  then show ?thesis using child_measure [of ch j pre c sz lc lb] by simp
qed

function prove_node :: "vc_ops \<Rightarrow> bytes \<Rightarrow> vc_node option \<Rightarrow> nat \<Rightarrow> bytes option list \<times> vc_node option" where
  "prove_node ops key None depth = ([], None)"
| "prove_node ops key (Some (VLeaf k v h c s)) depth = (if k = key then [v] else [], Some (VLeaf k v h c s))"
| "prove_node ops key (Some (VBranch pre ch c s lc lb)) depth =
     (if mismatch key depth pre \<noteq> None then ([], Some (VBranch pre ch c s lc lb))
      else
        let finalNibble = getNextNibble key (depth + length pre * BranchBits);
            (proof, ch') = branch_Prove ops finalNibble ch;
            (proofs, n) = prove_node ops key (child ch' finalNibble) (depth + length pre * BranchBits + BranchBits)
        in (Some proof # proofs, Some (VBranch pre (ch'[finalNibble := n]) c s lc lb)))"
  by pat_completeness auto

termination
  by (relation "measure (\<lambda>(ops, key, n, depth). node_measure n)") (auto simp: prove_measure [OF sym])

definition tree_Prove :: "vc_ops \<Rightarrow> vc_node option \<Rightarrow> bytes \<Rightarrow> bytes option list \<times> vc_node option" where
  "tree_Prove ops root key = (if key = [] then ([], root) else prove_node ops key root 0)"

text \<open>Verification reads the tree along the key and the proofs along the way; the last proof is the value.\<close>

definition as_bytes :: "bytes option \<Rightarrow> bytes" where
  "as_bytes v = (case v of None \<Rightarrow> [] | Some b \<Rightarrow> b)"

fun verify_node :: "vc_ops \<Rightarrow> bytes \<Rightarrow> vc_node option \<Rightarrow> bytes option list \<Rightarrow> nat \<Rightarrow> bool \<times> vc_node option" where
  "verify_node ops key None proofs depth = (False, None)"
| "verify_node ops key (Some n) [] depth = (False, Some n)"
| "verify_node ops key (Some (VLeaf k v h c s)) (p # ps) depth =
     (k = key \<and> as_bytes v = as_bytes p, Some (VLeaf k v h c s))"
| "verify_node ops key (Some (VBranch pre ch c s lc lb)) (p # ps) depth =
     (if mismatch key depth pre \<noteq> None then (False, Some (VBranch pre ch c s lc lb))
      else
        let finalNibble = getNextNibble key (depth + length pre * BranchBits);
            (ok, ch', c') = branch_Verify ops finalNibble (as_bytes p) ch c
        in if \<not> ok then (False, Some (VBranch pre ch' (Some c') s lc lb))
           else
             let (ok', n) = verify_node ops key (child ch' finalNibble) ps (depth + length pre * BranchBits + BranchBits)
             in (ok', Some (VBranch pre (ch'[finalNibble := n]) (Some c') s lc lb)))"

definition tree_Verify :: "vc_ops \<Rightarrow> vc_node option \<Rightarrow> bytes \<Rightarrow> bytes option list \<Rightarrow> bool \<times> vc_node option" where
  "tree_Verify ops root key proofs = (if key = [] then (False, root) else verify_node ops key root proofs 0)"

section \<open>Leaves and comparison\<close>

text \<open>\<open>tree_compare.go\<close>.\<close>

primrec GetAllLeaves :: "vc_node \<Rightarrow> vc_node list" where
  "GetAllLeaves (VLeaf k v h c s) = [VLeaf k v h c s]"
| "GetAllLeaves (VBranch pre ch c sz lc lb) =
     concat (map (\<lambda>x. case x of None \<Rightarrow> [] | Some ls \<Rightarrow> ls) (map (map_option GetAllLeaves) ch))"

definition tree_leaves :: "vc_node option \<Rightarrow> vc_node list" where
  "tree_leaves root = (case root of None \<Rightarrow> [] | Some n \<Rightarrow> GetAllLeaves n)"

record leaf_difference =
  diffKey :: bytes
  OnlyInTree1 :: bool
  OnlyInTree2 :: bool
  Value1 :: "bytes option"
  Value2 :: "bytes option"

text \<open>The Go maps from keys to leaves: the last leaf with a key wins.\<close>

definition leaf_map :: "vc_node list \<Rightarrow> bytes \<Rightarrow> vc_node option" where
  "leaf_map ls = map_of (rev (map (\<lambda>l. (leafKey l, l)) ls))"

definition CompareLeaves :: "vc_node option \<Rightarrow> vc_node option \<Rightarrow> leaf_difference list" where
  "CompareLeaves tree1 tree2 =
     (let leaves1 = tree_leaves tree1; leaves2 = tree_leaves tree2 in
      concat (map (\<lambda>leaf1. case leaf_map leaves2 (leafKey leaf1) of
          Some leaf2 \<Rightarrow>
            if as_bytes (leafValue leaf1) \<noteq> as_bytes (leafValue leaf2)
            then [\<lparr>diffKey = leafKey leaf1, OnlyInTree1 = False, OnlyInTree2 = False, Value1 = leafValue leaf1,
                   Value2 = leafValue leaf2\<rparr>]
            else []
        | None \<Rightarrow>
            [\<lparr>diffKey = leafKey leaf1, OnlyInTree1 = True, OnlyInTree2 = False, Value1 = leafValue leaf1, Value2 = None\<rparr>])
        leaves1) @
      concat (map (\<lambda>leaf2. case leaf_map leaves1 (leafKey leaf2) of
          Some _ \<Rightarrow> []
        | None \<Rightarrow>
            [\<lparr>diffKey = leafKey leaf2, OnlyInTree1 = False, OnlyInTree2 = True, Value1 = None, Value2 = leafValue leaf2\<rparr>])
        leaves2))"

primrec getHeight :: "vc_node \<Rightarrow> nat" where
  "getHeight (VLeaf k v h c s) = 0"
| "getHeight (VBranch pre ch c sz lc lb) =
     fold max (map (\<lambda>x. case x of None \<Rightarrow> 0 | Some n \<Rightarrow> n) (map (map_option getHeight) ch)) 0 + 1 + length pre"

definition getMaxHeight :: "vc_node option \<Rightarrow> vc_node option \<Rightarrow> nat" where
  "getMaxHeight node1 node2 =
     (let h = (\<lambda>n. case n of None \<Rightarrow> 0 | Some x \<Rightarrow> getHeight x) in max (h node1) (h node2))"

text \<open>The field \<open>Path\<close> is never set.\<close>

record comparison_result =
  Path :: "nat list"
  Height :: nat
  Commit1 :: bytes
  Commit2 :: bytes
  Matches :: bool

text \<open>The caches that \<open>Commit\<close> fills along the way are not threaded here; they do not change the results.\<close>

function compareLevelCommits :: "vc_ops \<Rightarrow> nat \<Rightarrow> vc_node option \<Rightarrow> vc_node option \<Rightarrow> nat \<Rightarrow> comparison_result list" where
  "compareLevelCommits ops targetHeight node1 node2 currentHeight =
     (if node1 = None \<and> node2 = None then []
      else if currentHeight = targetHeight then
        let commit = (\<lambda>n. case n of None \<Rightarrow> [] | Some x \<Rightarrow> fst (commit_node ops False x)) in
        [\<lparr>Path = [], Height = targetHeight, Commit1 = commit node1, Commit2 = commit node2, Matches = (commit node1 = commit node2)\<rparr>]
      else case (node1, node2) of
        (Some (VBranch pre1 ch1 c1 s1 lc1 lb1), Some (VBranch pre2 ch2 c2 s2 lc2 lb2)) \<Rightarrow>
          if currentHeight + length pre1 < targetHeight then
            concat (map (\<lambda>i. compareLevelCommits ops targetHeight (child ch1 i) (child ch2 i) (currentHeight + length pre1 + 1))
              [0..<BranchNodes])
          else []
      | _ \<Rightarrow> [])"
  by pat_completeness auto
termination
  by (relation "measure (\<lambda>(ops, targetHeight, n1, n2, h). node_measure n1)") (auto simp: child_measure)

declare compareLevelCommits.simps [simp del]

definition CompareTreesAtHeight :: "vc_ops \<Rightarrow> vc_node option \<Rightarrow> vc_node option \<Rightarrow> comparison_result list list" where
  "CompareTreesAtHeight ops tree1 tree2 =
     map (\<lambda>height. compareLevelCommits ops height tree1 tree2 0) [0..<Suc (getMaxHeight tree1 tree2)]"

text \<open>What a reader of the channel receives until it is closed.\<close>

definition TraverseAndCompare :: "vc_ops \<Rightarrow> vc_node option \<Rightarrow> vc_node option \<Rightarrow> comparison_result list" where
  "TraverseAndCompare ops tree1 tree2 =
     concat (map (\<lambda>height. compareLevelCommits ops height tree1 tree2 0) [0..<Suc (getMaxHeight tree1 tree2)])"

end
