(* ===== verification/VectorTreeMap.thy ===== *)
theory VectorTreeMap
  imports VectorTree
begin

unbundle bit_operations_syntax

text \<open>
  The vector commitment tree is a map: on keys of one length insertion ends and updates the map,
  deletion removes from it, and the shape of the tree is determined by the map, so the commitment
  is as well.
\<close>

section \<open>Nibbles\<close>

text \<open>Bit \<open>i\<close> of a key, counted from the left; zero past the end.\<close>

definition key_bit :: "bytes \<Rightarrow> nat \<Rightarrow> bool" where
  "key_bit key i \<longleftrightarrow> i div 8 < length key \<and> bit (key ! (i div 8)) (7 - i mod 8)"

lemma nibble_bit:
  assumes "t < 6"
  shows "bit (getNextNibble key pos) t \<longleftrightarrow> key_bit key (pos + 5 - t)"
proof -
  define q r where "q = pos div 8" and "r = pos mod 8"
  have pos: "pos = 8 * q + r" "r < 8" by (simp_all add: q_def r_def)
  have d: "(pos + 5 - t) div 8 = (if r + 5 - t < 8 then q else q + 1)"
    "(pos + 5 - t) mod 8 = (if r + 5 - t < 8 then r + 5 - t else r + 5 - t - 8)"
    using pos assms by (auto simp: div_nat_eqI mod_nat_eqI)
  show ?thesis
    unfolding getNextNibble_def key_bit_def Let_def BranchBits_def d q_def [symmetric] r_def [symmetric]
    using assms pos(2)
    by (auto simp: bit_simps not_le) (drule bit_imp_le_length, simp)
qed

lemma nibble_less: "getNextNibble key pos < 64"
proof -
  have "x AND mask 6 < 64" for x :: nat by (simp flip: take_bit_eq_mask) (rule order.strict_trans2 [OF take_bit_nat_less_exp], simp)
  then show ?thesis by (simp add: getNextNibble_def Let_def BranchBits_def)
qed

definition nib :: "bytes \<Rightarrow> nat \<Rightarrow> nat" where
  "nib key j = getNextNibble key (j * BranchBits)"

lemma nib_less: "nib key j < 64"
  by (simp add: nib_def nibble_less)

lemma nib_simps:
  "getNextNibble key (j * BranchBits) = nib key j" "getNextNibble key (j * BranchBits + i * BranchBits) = nib key (j + i)"
  by (simp_all add: nib_def distrib_right)

lemma nibs_determine_key:
  assumes "length a = length b" "\<And>j. nib a j = nib b j"
  shows "a = b"
proof (rule nth_equalityI [OF assms(1)])
  fix i assume i: "i < length a"
  show "a ! i = b ! i"
  proof (rule bit_word_eqI)
    fix t assume t: "t < LENGTH(8)"
    define p where "p = 8 * i + 7 - t"
    define u where "u = 7 - t"
    have u: "t = 7 - u" "u < 8" "p = u + 8 * i" using t by (simp_all add: p_def u_def)
    have p: "p div 8 = i" "7 - p mod 8 = t" unfolding u(3) using u(1,2) by simp_all
    have m: "p = p div 6 * 6 + 5 - (5 - p mod 6)" by simp
    have "key_bit k p \<longleftrightarrow> bit (nib k (p div 6)) (5 - p mod 6)" for k
      using nibble_bit [of "5 - p mod 6" k "p div 6 * 6"] m by (simp add: nib_def BranchBits_def)
    then have "key_bit a p = key_bit b p" by (simp add: assms(2))
    then show "bit (a ! i) t = bit (b ! i) t" using i assms(1) by (simp add: key_bit_def p)
  qed
qed

lemma nibs_diverge:
  assumes "length a = length b" "a \<noteq> b" "\<And>j. j < d \<Longrightarrow> nib a j = nib b j"
  obtains e where "d \<le> e" "nib a e \<noteq> nib b e" "\<And>j. j < e \<Longrightarrow> nib a j = nib b j"
proof -
  have ex: "\<exists>e. nib a e \<noteq> nib b e" using nibs_determine_key [OF assms(1)] assms(2) by blast
  define e where "e = (LEAST e. nib a e \<noteq> nib b e)"
  have "nib a e \<noteq> nib b e" "\<And>j. j < e \<Longrightarrow> nib a j = nib b j"
    using LeastI_ex [OF ex] not_less_Least unfolding e_def by blast+
  moreover have "d \<le> e" using assms(3) calculation(1) by (meson not_less)
  ultimately show ?thesis by (rule that [rotated])
qed

lemma getNibblesUntilDiverge_returns:
  assumes "nib a e \<noteq> nib b e" "\<And>j. j < e \<Longrightarrow> nib a j = nib b j" "d \<le> e"
  shows "getNibblesUntilDiverge a b (d * BranchBits) acc = Some (acc @ map (nib b) [d..<e], e * BranchBits)"
  using assms(3)
proof (induction "e - d" arbitrary: d acc)
  case 0
  then have "d = e" by simp
  then show ?case using assms(1) by (subst getNibblesUntilDiverge.simps) (simp add: nib_simps)
next
  case (Suc x)
  then have d: "d < e" by simp
  have "getNibblesUntilDiverge a b (Suc d * BranchBits) (acc @ [nib b d]) =
      Some ((acc @ [nib b d]) @ map (nib b) [Suc d..<e], e * BranchBits)"
    using Suc.hyps(1) [of "Suc d"] Suc.hyps(2) d by simp
  moreover have "[d..<e] = d # [Suc d..<e]" using d by (rule upt_conv_Cons)
  ultimately show ?case using assms(2) [OF d] by (subst getNibblesUntilDiverge.simps) (simp add: nib_simps add.commute)
qed

text \<open>
  Keys that differ only in trailing zero bytes have the same nibbles: looking for the point where
  they part does not end.
\<close>

lemma nibble_zero_pad: "getNextNibble (key @ replicate z 0) pos = getNextNibble key pos"
proof (rule bit_eqI)
  fix t
  show "bit (getNextNibble (key @ replicate z 0) pos) t = bit (getNextNibble key pos) t"
  proof (cases "t < 6")
    case True
    then show ?thesis by (auto simp: nibble_bit key_bit_def nth_append)
  next
    case False
    have "\<not> bit (getNextNibble k pos) t" for k
    proof -
      have "getNextNibble k pos < 2 ^ t"
        by (rule less_le_trans [OF nibble_less]) (use False in \<open>simp add: power_increasing [of 6 t "2 :: nat", simplified]\<close>)
      then show ?thesis by (simp add: bit_nat_iff bit_iff_odd)
    qed
    then show ?thesis by simp
  qed
qed

lemma getNibblesUntilDiverge_differs:
  "getNibblesUntilDiverge a b depth acc = Some r \<Longrightarrow> getNextNibble a (snd r) \<noteq> getNextNibble b (snd r)"
  by (rule getNibblesUntilDiverge.raw_induct
      [where P = "\<lambda>a b depth acc r. getNextNibble a (snd r) \<noteq> getNextNibble b (snd r)", rotated])
    (auto split: if_splits)

lemma getNibblesUntilDiverge_hangs: "getNibblesUntilDiverge key (key @ replicate z 0) depth acc = None"
  using getNibblesUntilDiverge_differs [of key "key @ replicate z 0" depth acc]
  by (cases "getNibblesUntilDiverge key (key @ replicate z 0) depth acc") (auto simp: nibble_zero_pad)

section \<open>The invariant\<close>

text \<open>
  A node below the nibbles \<open>p\<close>: its keys have length \<open>L\<close> and start with \<open>p\<close>; every branch has two children at least,
  so that its prefix is as long as it can be.
\<close>

definition nibs :: "bytes \<Rightarrow> nat \<Rightarrow> nat list" where
  "nibs key n = map (nib key) [0..<n]"

lemma length_nibs [simp]: "length (nibs key n) = n"
  by (simp add: nibs_def)

lemma nibs_nth: "j < n \<Longrightarrow> nibs key n ! j = nib key j"
  by (simp add: nibs_def)

lemma nibs_eq_append:
  "nibs key (length p + length q) = p @ q \<longleftrightarrow> nibs key (length p) = p \<and> (\<forall>i < length q. nib key (length p + i) = q ! i)"
proof -
  let ?r = "map (\<lambda>i. nib key (length p + i)) [0..<length q]"
  have "nibs key (length p + length q) = nibs key (length p) @ ?r"
    by (rule nth_equalityI) (auto simp: nibs_def nth_append)
  moreover have "?r = q \<longleftrightarrow> (\<forall>i < length q. nib key (length p + i) = q ! i)" using list_eq_iff_nth_eq [of ?r q] by simp
  ultimately show ?thesis by simp
qed

lemma nibs_prefix: "nibs key m = p @ q \<Longrightarrow> nibs key (length p) = p"
  using length_nibs [of key m] nibs_eq_append [of key p q] by simp

lemma nibs_snoc: "nibs key (Suc (length p)) = p @ [x] \<longleftrightarrow> nibs key (length p) = p \<and> nib key (length p) = x"
  by (simp add: nibs_def)

inductive vc_inv :: "nat \<Rightarrow> nat list \<Rightarrow> vc_node \<Rightarrow> bool" where
  Leaf: "length k = L \<Longrightarrow> nibs k (length p) = p \<Longrightarrow> vc_inv L p (VLeaf k v h c s)"
| Branch: "length ch = 64 \<Longrightarrow> (\<And>i n. child ch i = Some n \<Longrightarrow> vc_inv L (p @ pre @ [i]) n) \<Longrightarrow>
    i < j \<Longrightarrow> child ch i \<noteq> None \<Longrightarrow> child ch j \<noteq> None \<Longrightarrow> vc_inv L p (VBranch pre ch c sz lc lb)"

inductive_simps vc_inv_simps: "vc_inv L p (VLeaf k v h c s)" "vc_inv L p (VBranch pre ch c sz lc lb)"

definition tree_inv :: "nat \<Rightarrow> vc_node option \<Rightarrow> bool" where
  "tree_inv L t = (case t of None \<Rightarrow> True | Some n \<Rightarrow> vc_inv L [] n)"

lemma mismatch_None:
  "mismatch key (d * BranchBits) pre = None \<longleftrightarrow> (\<forall>i < length pre. nib key (d + i) = pre ! i)"
proof (induction pre arbitrary: d)
  case (Cons x xs)
  have "mismatch key (d * BranchBits + BranchBits) xs = mismatch key (Suc d * BranchBits) xs" by (simp add: add.commute)
  then show ?case using Cons.IH [of "Suc d"] by (auto simp: nib_simps All_less_Suc2)
qed simp

lemma mismatch_Some:
  assumes "mismatch key (d * BranchBits) pre = Some i"
  shows "i < length pre \<and> nib key (d + i) \<noteq> pre ! i \<and> (\<forall>j < i. nib key (d + j) = pre ! j)"
  using assms
proof (induction pre arbitrary: d i)
  case (Cons x xs)
  have e: "mismatch key (d * BranchBits + BranchBits) xs = mismatch key (Suc d * BranchBits) xs" by (simp add: add.commute)
  show ?case
  proof (cases "nib key d = x")
    case True
    then obtain i' where "i = Suc i'" "mismatch key (Suc d * BranchBits) xs = Some i'"
      using Cons.prems e by (auto simp: nib_simps)
    then show ?thesis using Cons.IH [of "Suc d" i'] True by (auto simp: All_less_Suc2)
  qed (use Cons.prems in \<open>auto simp: nib_simps\<close>)
qed simp

text \<open>Lookups, as a map; deletions and insertions below are stated over it.\<close>

definition node_at :: "nat list \<Rightarrow> vc_node option \<Rightarrow> bytes \<Rightarrow> vc_node option" where
  "node_at p n key = get_node key n (length p * BranchBits)"

lemma node_at_simps [simp]:
  "node_at p None key = None"
  "node_at p (Some (VLeaf k v h c s)) key = (if k = key then Some (VLeaf k v h c s) else None)"
  by (simp_all add: node_at_def)

lemma node_at_branch:
  "node_at p (Some (VBranch pre ch c sz lc lb)) key =
     (if \<forall>i < length pre. nib key (length p + i) = pre ! i
      then node_at (p @ pre @ [nib key (length p + length pre)]) (child ch (nib key (length p + length pre))) key else None)"
proof -
  have "length p * BranchBits + length pre * BranchBits + BranchBits = length (p @ pre @ [x]) * BranchBits" for x :: nat
    by (simp add: algebra_simps)
  then show ?thesis unfolding node_at_def by (auto simp: mismatch_None nib_simps add.commute)
qed

lemma node_at_leaf:
  assumes "vc_inv L p n" "node_at p (Some n) key = Some x"
  shows "\<exists>v h c s. x = VLeaf key v h c s \<and> length key = L \<and> nibs key (length p) = p"
  using assms
proof (induction arbitrary: x)
  case (Leaf k L p v h c s)
  then show ?case by (auto split: if_splits)
next
  case (Branch ch L p pre i j c sz lc lb)
  let ?i = "nib key (length p + length pre)"
  obtain n where n: "child ch ?i = Some n" "node_at (p @ pre @ [?i]) (Some n) key = Some x"
    using Branch.prems by (cases "child ch ?i") (auto simp: node_at_branch split: if_splits)
  from Branch.IH [OF n] show ?case by (auto dest: nibs_prefix)
qed

lemma inv_has_key: "vc_inv L p n \<Longrightarrow> \<exists>key x. node_at p (Some n) key = Some x"
proof (induction rule: vc_inv.induct)
  case (Leaf k L p v h c s)
  then show ?case by (intro exI [of _ k]) simp
next
  case (Branch ch L p pre i j c sz lc lb)
  then obtain n where n: "child ch i = Some n" by blast
  from Branch.IH [OF n] obtain key x where k: "node_at (p @ pre @ [i]) (Some n) key = Some x" by blast
  from node_at_leaf [OF Branch.hyps(2) [OF n] k] have "nibs key (length (p @ pre) + length [i]) = (p @ pre) @ [i]" by auto
  then have "nibs key (length (p @ pre)) = p @ pre" "nib key (length p + length pre) = i"
    unfolding nibs_eq_append by simp_all
  then have "node_at p (Some (VBranch pre ch c sz lc lb)) key = Some x"
    using k n by (simp add: node_at_branch nibs_eq_append)
  then show ?case by blast
qed

lemma prefix_less_64: "vc_inv L p (VBranch pre ch c sz lc lb) \<Longrightarrow> i < length pre \<Longrightarrow> pre ! i < 64"
  using inv_has_key [of L p "VBranch pre ch c sz lc lb"] nib_less by (auto simp: node_at_branch split: if_splits) metis

text \<open>Caches and metadata play no part in the invariant or the contents.\<close>

primrec strip :: "vc_node \<Rightarrow> vc_node" where
  "strip (VLeaf k v h c s) = VLeaf k v h None s"
| "strip (VBranch pre ch c sz lc lb) = VBranch pre (map (map_option strip) ch) None None 0 0"

lemma strip_recalc: "strip (recalcMetadata n) = strip n"
proof (induction n)
  case (VBranch pre ch c sz lc lb)
  then show ?case by (auto simp: Let_def option.map_comp comp_def intro: option.map_cong)
qed simp

declare recalcMetadata.simps(2) [simp del]

lemma child_map: "child (map (map_option f) ch) i = map_option f (child ch i)"
  by (simp add: child_def)

lemma child_update: "child (ch[j := x]) i = (if i = j \<and> j < length ch then x else child ch i)"
  by (auto simp: child_def)

lemma child_none [simp]: "child no_children i = None"
  by (simp add: child_def no_children_def)

lemma length_no_children [simp]: "length no_children = 64"
  by (simp add: no_children_def BranchNodes_def)

lemma vc_inv_strip: "vc_inv L p n \<longleftrightarrow> vc_inv L p (strip n)"
proof (induction n arbitrary: p)
  case (VBranch pre ch c sz lc lb)
  have IH: "vc_inv L q n \<longleftrightarrow> vc_inv L q (strip n)" if "child ch i = Some n" for q n i
    using VBranch.IH [of "Some n" n] that by (auto simp: child_def split: if_splits) (metis nth_mem)+
  show ?case by (auto simp: vc_inv_simps child_map IH)
qed (simp add: vc_inv_simps)

lemma get_node_strip: "get_node key (map_option strip n) d = map_option strip (get_node key n d)"
  by (induction key n d rule: get_node.induct) (auto simp: child_map)

definition entry_at :: "nat list \<Rightarrow> vc_node option \<Rightarrow> bytes \<Rightarrow> (bytes option \<times> bytes \<times> nat) option" where
  "entry_at p n key = map_option (\<lambda>x. (leafValue x, leafHashTarget x, leafSize x)) (node_at p n key)"

lemma entry_at_strip: "vc_inv L p n \<Longrightarrow> entry_at p (Some (strip n)) = entry_at p (Some n)"
proof
  fix key
  assume i: "vc_inv L p n"
  have "node_at p (Some (strip n)) key = map_option strip (node_at p (Some n) key)"
    using get_node_strip [of key "Some n"] by (simp add: node_at_def)
  then show "entry_at p (Some (strip n)) key = entry_at p (Some n) key"
    using node_at_leaf [OF i, of key] by (cases "node_at p (Some n) key") (auto simp: entry_at_def)
qed

lemma recalc_keeps:
  assumes "vc_inv L p n"
  shows "vc_inv L p (recalcMetadata n)" "entry_at p (Some (recalcMetadata n)) = entry_at p (Some n)"
proof -
  show i: "vc_inv L p (recalcMetadata n)" using assms vc_inv_strip strip_recalc by metis
  show "entry_at p (Some (recalcMetadata n)) = entry_at p (Some n)"
    using entry_at_strip [OF i] entry_at_strip [OF assms] strip_recalc by metis
qed

lemma entry_at_simps [simp]:
  "entry_at p None key = None"
  "entry_at p (Some (VLeaf k v h c s)) key = (if k = key then Some (v, h, s) else None)"
  by (simp_all add: entry_at_def)

lemma entry_at_branch:
  "entry_at p (Some (VBranch pre ch c sz lc lb)) key =
     (if \<forall>i < length pre. nib key (length p + i) = pre ! i
      then entry_at (p @ pre @ [nib key (length p + length pre)]) (child ch (nib key (length p + length pre))) key else None)"
  by (auto simp: entry_at_def node_at_branch)

lemma entry_at_path:
  assumes "vc_inv L p n" "entry_at p (Some n) key \<noteq> None"
  shows "nibs key (length p) = p" "length key = L"
  using node_at_leaf [OF assms(1), of key] assms(2) by (auto simp: entry_at_def)

section \<open>Insertion\<close>

lemma nibs_extend:
  assumes "nibs k (length p) = p" "length p \<le> e"
  shows "nibs k e = p @ map (nib k) [length p..<e]"
proof -
  have "[0..<e] = [0..<length p] @ [length p..<e]" using assms(2) by (metis le_add_diff_inverse upt_add_eq_append zero_le)
  then have "nibs k e = nibs k (length p) @ map (nib k) [length p..<e]" by (simp add: nibs_def)
  then show ?thesis using assms(1) by simp
qed

lemma nibs_cong: "(\<And>j. j < e \<Longrightarrow> nib a j = nib b j) \<Longrightarrow> nibs a e = nibs b e"
  by (simp add: nibs_def)

text \<open>Two leaves that part at nibble \<open>e\<close>.\<close>

lemma fork_ok:
  assumes "nib k' e \<noteq> nib k e" "nibs k' (length p + length pre) = p @ pre" "nibs k (length p + length pre) = p @ pre"
    "e = length p + length pre" "length k' = L" "length k = L"
    and ch: "ch = no_children[nib k' e := Some (VLeaf k' v' h' c' s'), nib k e := Some (VLeaf k v h c s)]"
  shows "vc_inv L p (VBranch pre ch cm sz lc lb) \<and>
     entry_at p (Some (VBranch pre ch cm sz lc lb)) = [k' \<mapsto> (v', h', s'), k \<mapsto> (v, h, s)]"
proof
  have c: "child ch i = (if i = nib k e then Some (VLeaf k v h c s) else if i = nib k' e then Some (VLeaf k' v' h' c' s') else None)" for i
    using nib_less by (simp add: ch child_update)
  have n: "nibs k (Suc e) = p @ pre @ [nib k e]" "nibs k' (Suc e) = p @ pre @ [nib k' e]"
    using nibs_snoc [of k "p @ pre"] nibs_snoc [of k' "p @ pre"] assms(2-4) by simp_all
  obtain i j where "i < j" "child ch i \<noteq> None" "child ch j \<noteq> None"
    using assms(1) c by (metis linorder_neqE_nat option.distinct(1))
  then show "vc_inv L p (VBranch pre ch cm sz lc lb)"
    by (rule vc_inv.Branch [rotated 2]) (use n assms c in \<open>auto simp: vc_inv_simps ch split: if_splits\<close>)
  have m: "\<forall>i < length pre. nib k (length p + i) = pre ! i" "\<forall>i < length pre. nib k' (length p + i) = pre ! i"
    using assms(2,3) unfolding nibs_eq_append by simp_all
  show "entry_at p (Some (VBranch pre ch cm sz lc lb)) = [k' \<mapsto> (v', h', s'), k \<mapsto> (v, h, s)]"
    using m assms(1,4) by (auto simp: fun_eq_iff entry_at_branch c)
qed

lemma insert_leaf:
  assumes "length k' = L" "nibs k' (length p) = p" "length k = L" "nibs k (length p) = p"
  shows "\<exists>n'. insert_node k v h s (Some (VLeaf k' v' h' c' s')) (length p * BranchBits) = Some n' \<and> vc_inv L p n' \<and>
     entry_at p (Some n') = (entry_at p (Some (VLeaf k' v' h' c' s')))(k \<mapsto> (v, h, s))"
proof (cases "k' = k")
  case True
  then show ?thesis using assms by (auto simp: vc_inv_simps fun_eq_iff)
next
  case False
  have "\<And>j. j < length p \<Longrightarrow> nib k' j = nib k j" using assms(2,4) by (metis nibs_nth)
  then obtain e where e: "length p \<le> e" "nib k' e \<noteq> nib k e" "\<And>j. j < e \<Longrightarrow> nib k' j = nib k j"
    using nibs_diverge [of k' k "length p"] False assms(1,3) by metis
  let ?pre = "map (nib k) [length p..<e]"
  have g: "getNibblesUntilDiverge k' k (length p * BranchBits) [] = Some (?pre, e * BranchBits)"
    using getNibblesUntilDiverge_returns [OF e(2,3,1), of "[]"] by simp
  have "nibs k (length p + length ?pre) = p @ ?pre" using nibs_extend [OF assms(4) e(1)] e(1) by simp
  moreover from this have "nibs k' (length p + length ?pre) = p @ ?pre"
    using nibs_cong [of e k' k, OF e(3)] e(1) by simp
  ultimately have "vc_inv L p (VBranch ?pre (no_children[nib k' e := Some (VLeaf k' v' h' c' s'), nib k e := Some (VLeaf k v h None s)])
       None None 0 0) \<and>
     entry_at p (Some (VBranch ?pre (no_children[nib k' e := Some (VLeaf k' v' h' c' s'), nib k e := Some (VLeaf k v h None s)])
       None None 0 0)) = [k' \<mapsto> (v', h', s'), k \<mapsto> (v, h, s)]"
    using e assms by (intro fork_ok [OF _ _ _ _ _ _ refl]) simp_all
  then show ?thesis using False g by (auto simp: nib_simps fun_eq_iff)
qed

lemma all_less_split:
  assumes "i < n"
  shows "(\<forall>j < n. P j) \<longleftrightarrow> (\<forall>j < i. P j) \<and> P i \<and> (\<forall>j < n - Suc i. P (Suc (i + j)))"
proof
  assume r: "(\<forall>j < i. P j) \<and> P i \<and> (\<forall>j < n - Suc i. P (Suc (i + j)))"
  show "\<forall>j < n. P j"
  proof (intro allI impI)
    fix j assume j: "j < n"
    show "P j"
    proof (cases j i rule: linorder_cases)
      case greater
      then obtain d where "j = Suc (i + d)" using less_imp_Suc_add by blast
      then show ?thesis using r j by simp
    qed (use r in auto)
  qed
qed (use assms in auto)

lemma insert_mismatch:
  assumes inv: "vc_inv L p (VBranch pre ch c sz lc lb)" and k: "length k = L" "nibs k (length p) = p"
    and i: "i < length pre" "nib k (length p + i) \<noteq> pre ! i" "\<forall>j < i. nib k (length p + j) = pre ! j"
    and ch': "ch' = no_children[pre ! i := Some (VBranch (drop (i + 1) pre) ch c sz lc lb),
       nib k (length p + i) := Some (VLeaf k v h None s)]"
  shows "vc_inv L p (VBranch (take i pre) ch' None None 0 0) \<and>
     entry_at p (Some (VBranch (take i pre) ch' None None 0 0)) = (entry_at p (Some (VBranch pre ch c sz lc lb)))(k \<mapsto> (v, h, s))"
proof
  let ?old = "VBranch (drop (i + 1) pre) ch c sz lc lb" and ?e = "length p + i"
  have lt: "pre ! i < 64" using prefix_less_64 [OF inv i(1)] .
  have cc: "child ch' j = (if j = nib k ?e then Some (VLeaf k v h None s) else if j = pre ! i then Some ?old else None)" for j
    using nib_less lt by (simp add: ch' child_update)
  have pre: "take i pre @ pre ! i # drop (i + 1) pre = pre" using id_take_nth_drop [OF i(1)] by simp
  have old: "vc_inv L (p @ take i pre @ [pre ! i]) ?old"
    using inv pre unfolding vc_inv_simps by (metis append.assoc append_Cons append_Nil)
  have kk: "nibs k (Suc ?e) = p @ take i pre @ [nib k ?e]"
  proof -
    have "nibs k (length p + length (take i pre)) = p @ take i pre" unfolding nibs_eq_append using k(2) i(1,3) by simp
    then show ?thesis using nibs_snoc [of k "p @ take i pre"] i(1) by simp
  qed
  obtain a b where "a < b" "child ch' a \<noteq> None" "child ch' b \<noteq> None"
    using i(2) cc by (metis linorder_neqE_nat option.distinct(1))
  then show "vc_inv L p (VBranch (take i pre) ch' None None 0 0)"
    by (rule vc_inv.Branch [rotated 2]) (use kk k old cc i(1) in \<open>auto simp: vc_inv_simps(1) ch' split: if_splits\<close>)
  note split = all_less_split [OF i(1), of "\<lambda>j. nib _ (length p + j) = pre ! j"]
  show "entry_at p (Some (VBranch (take i pre) ch' None None 0 0)) = (entry_at p (Some (VBranch pre ch c sz lc lb)))(k \<mapsto> (v, h, s))"
  proof
    fix key
    have pp: "p @ pre @ [x] = (p @ take i pre @ [pre ! i]) @ drop (i + 1) pre @ [x]" for x
      using arg_cong [OF pre, of "\<lambda>z. p @ z @ [x]"] by simp
    show "entry_at p (Some (VBranch (take i pre) ch' None None 0 0)) key =
        ((entry_at p (Some (VBranch pre ch c sz lc lb)))(k \<mapsto> (v, h, s))) key"
    proof (cases "key = k")
      case True
      then show ?thesis using i by (simp add: entry_at_branch cc)
    next
      case False
      have "entry_at (p @ take i pre @ [pre ! i]) (Some ?old) key =
          (if \<forall>j < length pre - Suc i. nib key (Suc (?e + j)) = pre ! (Suc (i + j)) then
            entry_at (p @ pre @ [nib key (length p + length pre)]) (child ch (nib key (length p + length pre))) key else None)"
      proof -
        let ?q = "p @ take i pre @ [pre ! i]" and ?d = "drop (i + 1) pre"
        have "length ?q + length ?d = length p + length pre" using i(1) by simp
        moreover have "(\<forall>j < length ?d. nib key (length ?q + j) = ?d ! j) \<longleftrightarrow>
            (\<forall>j < length pre - Suc i. nib key (Suc (?e + j)) = pre ! (Suc (i + j)))"
          using i(1) by simp
        ultimately show ?thesis unfolding entry_at_branch [of ?q] pp by presburger
      qed
      then show ?thesis using False i by (auto simp: entry_at_branch [of p] cc split add.assoc)
    qed
  qed
qed

lemma branch_update:
  assumes inv: "vc_inv L p (VBranch pre ch c sz lc lb)" and i: "i = nib k (length p + length pre)"
    and n: "vc_inv L (p @ pre @ [i]) n" and k: "\<forall>j < length pre. nib k (length p + j) = pre ! j"
    and e: "entry_at (p @ pre @ [i]) (Some n) = (entry_at (p @ pre @ [i]) (child ch i))(k \<mapsto> x)"
  shows "vc_inv L p (VBranch pre (ch[i := Some n]) c' sz' lc' lb') \<and>
    entry_at p (Some (VBranch pre (ch[i := Some n]) c' sz' lc' lb')) = (entry_at p (Some (VBranch pre ch c sz lc lb)))(k \<mapsto> x)"
proof
  have len: "length ch = 64" and lt: "i < 64" using inv nib_less i by (auto simp: vc_inv_simps)
  have cc: "child (ch[i := Some n]) j = (if j = i then Some n else child ch j)" for j using len lt by (simp add: child_update)
  obtain a b where "a < b" "child ch a \<noteq> None" "child ch b \<noteq> None" using inv by (auto simp: vc_inv_simps)
  then have "child (ch[i := Some n]) a \<noteq> None" "child (ch[i := Some n]) b \<noteq> None" "a < b" by (simp_all add: cc)
  then show "vc_inv L p (VBranch pre (ch[i := Some n]) c' sz' lc' lb')"
    using inv n len by (intro vc_inv.Branch [of _ _ _ _ a b]) (auto simp: cc vc_inv_simps split: if_splits)
  show "entry_at p (Some (VBranch pre (ch[i := Some n]) c' sz' lc' lb')) = (entry_at p (Some (VBranch pre ch c sz lc lb)))(k \<mapsto> x)"
  proof
    fix key
    have "entry_at (p @ pre @ [j]) (child (ch[i := Some n]) j) key =
        (if key = k \<and> j = i then Some x else entry_at (p @ pre @ [j]) (child ch j) key)" for j
      using fun_cong [OF e, of key] by (auto simp: cc)
    then show "entry_at p (Some (VBranch pre (ch[i := Some n]) c' sz' lc' lb')) key =
        ((entry_at p (Some (VBranch pre ch c sz lc lb)))(k \<mapsto> x)) key"
      using k i by (auto simp: entry_at_branch)
  qed
qed

lemma insert_inv:
  assumes "vc_inv L p n" "length k = L" "nibs k (length p) = p"
  shows "\<exists>n'. insert_node k v h s (Some n) (length p * BranchBits) = Some n' \<and> vc_inv L p n' \<and>
     entry_at p (Some n') = (entry_at p (Some n))(k \<mapsto> (v, h, s))"
  using assms
proof (induction rule: vc_inv.induct)
  case (Leaf k' L p v' h' c' s')
  then show ?case by (intro insert_leaf)
next
  case (Branch ch L p pre a b c sz lc lb)
  let ?B = "VBranch pre ch c sz lc lb" and ?d = "length p * BranchBits"
  have inv: "vc_inv L p ?B" using Branch.hyps by (rule vc_inv.Branch)
  show ?case
  proof (cases "mismatch k ?d pre")
    case (Some i)
    note m = mismatch_Some [OF Some]
    let ?ch = "no_children[pre ! i := Some (VBranch (drop (i + 1) pre) ch c sz lc lb), nib k (length p + i) := Some (VLeaf k v h None s)]"
    have "vc_inv L p (VBranch (take i pre) ?ch None None 0 0) \<and>
        entry_at p (Some (VBranch (take i pre) ?ch None None 0 0)) = (entry_at p (Some ?B))(k \<mapsto> (v, h, s))"
      using m by (intro insert_mismatch [OF inv Branch.prems _ _ _ refl]) simp_all
    then show ?thesis using recalc_keeps Some by (auto simp: nib_simps)
  next
    case None
    let ?i = "nib k (length p + length pre)" and ?q = "p @ pre @ [nib k (length p + length pre)]"
    have k: "\<forall>j < length pre. nib k (length p + j) = pre ! j" using None by (simp add: mismatch_None)
    have nq: "nibs k (length ?q) = ?q"
      using k Branch.prems(2) nibs_eq_append [of k p pre] nibs_snoc [of k "p @ pre"] by simp
    have dq: "?d + length pre * BranchBits + BranchBits = length ?q * BranchBits" by (simp add: algebra_simps)
    have "\<exists>n'. insert_node k v h s (child ch ?i) (length ?q * BranchBits) = Some n' \<and> vc_inv L ?q n' \<and>
        entry_at ?q (Some n') = (entry_at ?q (child ch ?i))(k \<mapsto> (v, h, s))"
    proof (cases "child ch ?i")
      case None
      then show ?thesis using nq Branch.prems(1) by (auto simp: vc_inv_simps fun_eq_iff)
    next
      case (Some n)
      from Branch.IH [OF Some Branch.prems(1) nq] show ?thesis unfolding Some .
    qed
    then obtain n' where n': "insert_node k v h s (child ch ?i) (length ?q * BranchBits) = Some n'" "vc_inv L ?q n'"
      "entry_at ?q (Some n') = (entry_at ?q (child ch ?i))(k \<mapsto> (v, h, s))" by blast
    have "insert_node k v h s (Some ?B) ?d = Some (recalcMetadata (VBranch pre (ch[?i := Some n']) None sz lc lb))"
      using None n'(1) by (simp add: Let_def nib_simps dq del: length_append)
    then show ?thesis using branch_update [OF inv refl n'(2) k n'(3), of None sz lc lb] recalc_keeps by auto
  qed
qed

section \<open>Deletion\<close>

definition opt_inv :: "nat \<Rightarrow> nat list \<Rightarrow> vc_node option \<Rightarrow> bool" where
  "opt_inv L p t = (case t of None \<Rightarrow> True | Some n \<Rightarrow> vc_inv L p n)"

lemma opt_inv_simps [simp]: "opt_inv L p None" "opt_inv L p (Some n) = vc_inv L p n"
  by (simp_all add: opt_inv_def)

lemma set_occupied: "(i, n) \<in> set (occupied ch) \<longleftrightarrow> child ch i = Some n"
  by (auto simp: occupied_def child_def in_set_enumerate_eq split: if_splits)

lemma distinct_occupied: "distinct (map fst (occupied ch))"
proof -
  have "map fst (concat (map (\<lambda>(i, y). case y of None \<Rightarrow> [] | Some n \<Rightarrow> [(i, n)]) (enumerate d ch))) =
      map fst (filter (\<lambda>(i, y). y \<noteq> None) (enumerate d ch))" for d
    by (induction ch arbitrary: d) (auto split: option.splits)
  moreover have "distinct (map fst (filter P (enumerate d ch)))" for P d
    by (rule distinct_map_filter) simp
  ultimately show ?thesis
    by (simp add: occupied_def)
qed

lemma entry_off_path:
  assumes "vc_inv L (p @ pre @ [i]) n" "\<not> ((\<forall>j < length pre. nib key (length p + j) = pre ! j) \<and> nib key (length p + length pre) = i)"
  shows "entry_at (p @ pre @ [i]) (Some n) key = None"
  using entry_at_path(1) [OF assms(1), of key] assms(2) nibs_snoc [of key "p @ pre" i] nibs_eq_append [of key p pre] by auto

lemma merged_inv:
  assumes "vc_inv L (p @ pre @ [i]) (VBranch pre' ch c sz lc lb)"
  shows "vc_inv L p (VBranch (pre @ [i] @ pre') ch c' sz' lc' lb')"
    "entry_at p (Some (VBranch (pre @ [i] @ pre') ch c' sz' lc' lb')) = entry_at (p @ pre @ [i]) (Some (VBranch pre' ch c sz lc lb))"
proof -
  show "vc_inv L p (VBranch (pre @ [i] @ pre') ch c' sz' lc' lb')" using assms by (auto simp: vc_inv_simps)
  show "entry_at p (Some (VBranch (pre @ [i] @ pre') ch c' sz' lc' lb')) = entry_at (p @ pre @ [i]) (Some (VBranch pre' ch c sz lc lb))"
  proof
    fix key
    let ?q = "p @ pre @ [i]" and ?B = "VBranch pre' ch c sz lc lb" and ?m = "pre @ [i] @ pre'"
    let ?on = "(\<forall>j < length pre. nib key (length p + j) = pre ! j) \<and> nib key (length p + length pre) = i"
    have on: "(\<forall>j < length ?m. nib key (length p + j) = ?m ! j) \<longleftrightarrow> ?on \<and> (\<forall>j < length pre'. nib key (length ?q + j) = pre' ! j)"
      using all_less_split [of "length pre" "length ?m" "\<lambda>j. nib key (length p + j) = ?m ! j"]
      by (simp add: nth_append add.assoc)
    have len: "length p + length ?m = length ?q + length pre'" "p @ ?m @ [x] = ?q @ pre' @ [x]" for x by simp_all
    show "entry_at p (Some (VBranch ?m ch c' sz' lc' lb')) key = entry_at ?q (Some ?B) key"
    proof (cases ?on)
      case True
      then show ?thesis using on unfolding entry_at_branch len by presburger
    next
      case False
      then have "\<not> (\<forall>j < length ?m. nib key (length p + j) = ?m ! j)" using on by blast
      then show ?thesis using entry_off_path [OF assms False] unfolding entry_at_branch [of p] by (simp only: if_not_P if_False)
    qed
  qed
qed

lemma single_child:
  assumes "\<And>j. child ch j = (if j = i then Some n else None)" "vc_inv L (p @ pre @ [i]) n"
  shows "entry_at p (Some (VBranch pre ch c sz lc lb)) = entry_at (p @ pre @ [i]) (Some n)"
proof
  fix key
  show "entry_at p (Some (VBranch pre ch c sz lc lb)) key = entry_at (p @ pre @ [i]) (Some n) key"
  proof (cases "(\<forall>j < length pre. nib key (length p + j) = pre ! j) \<and> nib key (length p + length pre) = i")
    case False
    then show ?thesis using entry_off_path [OF assms(2) False] by (auto simp: entry_at_branch assms(1))
  qed (simp add: entry_at_branch assms(1))
qed

lemma collapse_inv:
  assumes len: "length ch = 64" and inv: "\<And>i n. child ch i = Some n \<Longrightarrow> vc_inv L (p @ pre @ [i]) n"
  shows "opt_inv L p (collapse pre ch sz lc lb) \<and>
     entry_at p (collapse pre ch sz lc lb) = entry_at p (Some (VBranch pre ch c' sz' lc' lb'))"
proof (cases "occupied ch")
  case Nil
  have "child ch i = None" for i using set_occupied [of i _ ch] Nil by (cases "child ch i") auto
  then show ?thesis by (auto simp: collapse_def Nil fun_eq_iff entry_at_branch)
next
  case (Cons x xs)
  obtain i n where x: "x = (i, n)" by (cases x)
  have i: "child ch i = Some n" using set_occupied [of i n ch] Cons x by simp
  show ?thesis
  proof (cases xs)
    case Nil
    have "child ch j = (if j = i then Some n else None)" for j
      using set_occupied [of j _ ch] Cons Nil x by (cases "child ch j") auto
    note sc = single_child [of ch, OF this inv [OF i]]
    show ?thesis
    proof (cases n)
      case (VLeaf k v h c s)
      then have "vc_inv L p n" "entry_at p (Some n) = entry_at (p @ pre @ [i]) (Some n)"
        using inv [OF i] by (auto simp: vc_inv_simps fun_eq_iff dest: nibs_prefix)
      then show ?thesis using sc VLeaf by (simp add: collapse_def Cons Nil x)
    next
      case (VBranch pre2 ch2 c2 sz2 lc2 lb2)
      note m = merged_inv [OF inv [OF i, unfolded VBranch], of None sz2 lc2 lb2]
      show ?thesis using m recalc_keeps [OF m(1)] sc VBranch by (simp add: collapse_def Cons Nil x)
    qed
  next
    case (Cons y ys)
    obtain j n' where y: "y = (j, n')" by (cases y)
    have j: "child ch j = Some n'" "i \<noteq> j"
      using set_occupied [of j n' ch] distinct_occupied [of ch] \<open>occupied ch = x # xs\<close> Cons x y by auto
    obtain a b where ab: "a < b" "child ch a \<noteq> None" "child ch b \<noteq> None" using i j by (metis linorder_neqE_nat option.distinct(1))
    have v: "vc_inv L p (VBranch pre ch None sz lc lb)" using len inv ab by (rule vc_inv.Branch)
    have "collapse pre ch sz lc lb = Some (recalcMetadata (VBranch pre ch None sz lc lb))"
      using Cons by (simp add: collapse_def \<open>occupied ch = x # xs\<close> x split: vc_node.splits)
    then show ?thesis using recalc_keeps [OF v] by (auto simp: fun_eq_iff entry_at_branch)
  qed
qed

lemma remove_inv:
  assumes "vc_inv L p n"
  shows "opt_inv L p (remove_node k (Some n) (length p * BranchBits)) \<and>
     entry_at p (remove_node k (Some n) (length p * BranchBits)) = (entry_at p (Some n))(k := None)"
  using assms
proof (induction rule: vc_inv.induct)
  case (Leaf k' L p v' h' c' s')
  then show ?case by (auto simp: vc_inv_simps fun_eq_iff)
next
  case (Branch ch L p pre a b c sz lc lb)
  let ?B = "VBranch pre ch c sz lc lb" and ?d = "length p * BranchBits"
  have inv: "vc_inv L p ?B" using Branch.hyps by (rule vc_inv.Branch)
  show ?case
  proof (cases "mismatch k ?d pre")
    case (Some i)
    then have "entry_at p (Some ?B) k = None" using mismatch_Some [OF Some] by (auto simp: entry_at_branch)
    then show ?thesis using inv Some by (auto simp: fun_eq_iff)
  next
    case None
    let ?i = "nib k (length p + length pre)" and ?q = "p @ pre @ [nib k (length p + length pre)]"
    define r where "r = remove_node k (child ch ?i) (length ?q * BranchBits)"
    have k: "\<forall>j < length pre. nib k (length p + j) = pre ! j" using None by (simp add: mismatch_None)
    have ri: "opt_inv L ?q r \<and> entry_at ?q r = (entry_at ?q (child ch ?i))(k := None)"
      using Branch.IH [of ?i] unfolding r_def by (cases "child ch ?i") (auto simp: fun_eq_iff simp del: length_append)
    have cc: "child (ch[?i := r]) j = (if j = ?i then r else child ch j)" for j
      using Branch.hyps(1) nib_less by (simp add: child_update)
    have dq: "?d + length pre * BranchBits + BranchBits = length ?q * BranchBits" by (simp add: algebra_simps)
    have "remove_node k (Some ?B) ?d = collapse pre (ch[?i := r]) sz lc lb"
      using None unfolding r_def by (simp add: Let_def nib_simps dq del: length_append)
    moreover have "opt_inv L p (collapse pre (ch[?i := r]) sz lc lb) \<and>
        entry_at p (collapse pre (ch[?i := r]) sz lc lb) = entry_at p (Some (VBranch pre (ch[?i := r]) c sz lc lb))"
      using Branch.hyps(1,2) ri by (intro collapse_inv) (auto simp: cc split: if_splits)
    moreover have "entry_at p (Some (VBranch pre (ch[?i := r]) c sz lc lb)) = (entry_at p (Some ?B))(k := None)"
    proof
      fix key
      have "entry_at (p @ pre @ [j]) (child (ch[?i := r]) j) key =
          (if key = k \<and> j = ?i then None else entry_at (p @ pre @ [j]) (child ch j) key)" for j
        using ri by (auto simp: cc)
      then show "entry_at p (Some (VBranch pre (ch[?i := r]) c sz lc lb)) key = ((entry_at p (Some ?B))(k := None)) key"
        using k by (auto simp: entry_at_branch)
    qed
    ultimately show ?thesis by simp
  qed
qed

section \<open>The tree as a map\<close>

text \<open>Insertions and deletions on trees over keys of one length, the key being nonempty.\<close>

definition put_tree :: "vc_node option \<Rightarrow> bytes \<Rightarrow> bytes option \<times> bytes \<times> nat \<Rightarrow> vc_node option" where
  "put_tree t k x = (case x of (v, h, s) \<Rightarrow> case tree_Insert t k v h s of Some (Inr t') \<Rightarrow> t' | _ \<Rightarrow> t)"

definition del_tree :: "vc_node option \<Rightarrow> bytes \<Rightarrow> vc_node option" where
  "del_tree t k = (case tree_Delete t k of Inr t' \<Rightarrow> t' | Inl _ \<Rightarrow> t)"

definition tree_map :: "vc_node option \<Rightarrow> bytes \<Rightarrow> (bytes option \<times> bytes \<times> nat) option" where
  "tree_map t = entry_at [] t"

lemma tree_Insert_returns:
  assumes "opt_inv L [] t" "length k = L" "0 < L"
  obtains n where "tree_Insert t k v h s = Some (Inr (Some n))" "vc_inv L [] n" "tree_map (Some n) = (tree_map t)(k \<mapsto> (v, h, s))"
proof (cases t)
  case None
  then show ?thesis using that [of "VLeaf k v h None s"] assms
    by (auto simp: tree_Insert_def tree_map_def vc_inv_simps nibs_def fun_eq_iff)
next
  case (Some n)
  then show ?thesis using insert_inv [of L "[]" n k v h s] assms that by (auto simp: tree_Insert_def tree_map_def nibs_def)
qed

lemma tree_Delete_returns:
  assumes "opt_inv L [] t" "k \<noteq> []"
  obtains t' where "tree_Delete t k = Inr t'" "opt_inv L [] t'" "tree_map t' = (tree_map t)(k := None)"
proof (cases t)
  case None
  then show ?thesis using that [of None] assms by (auto simp: tree_Delete_def tree_map_def fun_eq_iff)
next
  case (Some n)
  then show ?thesis using remove_inv [of L "[]" n k] assms that by (auto simp: tree_Delete_def tree_map_def)
qed

lemma tree_map_key:
  assumes "opt_inv L [] t" "tree_map t k \<noteq> None"
  shows "length k = L"
  using assms entry_at_path(2) [of L "[]" _ k] by (cases t) (auto simp: tree_map_def)

interpretation vcm: key_map "opt_inv (Suc L) []" "\<lambda>k :: bytes. length k = Suc L" None tree_map put_tree del_tree for L
proof unfold_locales
  fix t :: "vc_node option" and k :: bytes and v :: "bytes option \<times> bytes \<times> nat"
  assume t: "opt_inv (Suc L) [] t" and k: "length k = Suc L"
  obtain va h s where v: "v = (va, h, s)" by (cases v)
  obtain n where "tree_Insert t k va h s = Some (Inr (Some n))" "vc_inv (Suc L) [] n" "tree_map (Some n) = (tree_map t)(k \<mapsto> (va, h, s))"
    using tree_Insert_returns [of "Suc L" t k va h s] t k by blast
  then show "opt_inv (Suc L) [] (put_tree t k v)" "tree_map (put_tree t k v) = (tree_map t)(k \<mapsto> v)"
    using v by (simp_all add: put_tree_def)
next
  fix t :: "vc_node option" and k :: bytes
  assume t: "opt_inv (Suc L) [] t"
  have "opt_inv (Suc L) [] (del_tree t k) \<and> tree_map (del_tree t k) = (tree_map t)(k := None)"
  proof (cases "k = []")
    case True
    then have "tree_map t k = None" using tree_map_key [of "Suc L" t k] t by (cases "tree_map t k") auto
    then show ?thesis using t True by (auto simp: del_tree_def tree_Delete_def fun_eq_iff)
  next
    case False
    then show ?thesis using tree_Delete_returns [of "Suc L" t k] t unfolding del_tree_def by (metis sum.case(2))
  qed
  then show "opt_inv (Suc L) [] (del_tree t k)" "tree_map (del_tree t k) = (tree_map t)(k := None)" by auto
qed (auto simp: tree_map_def)

text \<open>\<open>Get\<close> reads the map.\<close>

lemma tree_Get_map:
  assumes "k \<noteq> []"
  shows "tree_Get t k = (case tree_map t k of Some (Some v, _) \<Rightarrow> Inr v | _ \<Rightarrow> Inl (ErrMsg ''key not found''))"
  using assms by (cases "get_node k t 0")
    (auto simp: tree_Get_def tree_map_def entry_at_def node_at_def split: option.splits)

section \<open>The shape is determined by the map\<close>

lemma branch_two_keys:
  assumes "vc_inv L p (VBranch pre ch c sz lc lb)"
  obtains a b where "entry_at p (Some (VBranch pre ch c sz lc lb)) a \<noteq> None" "entry_at p (Some (VBranch pre ch c sz lc lb)) b \<noteq> None"
    "nib a (length p + length pre) \<noteq> nib b (length p + length pre)"
proof -
  let ?B = "VBranch pre ch c sz lc lb"
  have key: "\<exists>k. entry_at p (Some ?B) k \<noteq> None \<and> nib k (length p + length pre) = i" if i: "child ch i = Some n" for i n
  proof -
    have inv: "vc_inv L (p @ pre @ [i]) n" using assms i by (auto simp: vc_inv_simps)
    then obtain k x where "node_at (p @ pre @ [i]) (Some n) k = Some x" using inv_has_key by blast
    then have e: "entry_at (p @ pre @ [i]) (Some n) k \<noteq> None" by (simp add: entry_at_def)
    then have "(\<forall>j < length pre. nib k (length p + j) = pre ! j) \<and> nib k (length p + length pre) = i"
      using entry_off_path [OF inv, of k] by metis
    then show ?thesis using e i by (intro exI [of _ k]) (auto simp: entry_at_branch)
  qed
  obtain i j n n' where "i \<noteq> j" "child ch i = Some n" "child ch j = Some n'"
    using assms unfolding vc_inv_simps by (metis less_irrefl option.exhaust)
  then show ?thesis using key that by metis
qed

lemma prefix_unique:
  assumes "vc_inv L p (VBranch pre1 ch1 c1 sz1 lc1 lb1)" "vc_inv L p (VBranch pre2 ch2 c2 sz2 lc2 lb2)"
    "entry_at p (Some (VBranch pre1 ch1 c1 sz1 lc1 lb1)) = entry_at p (Some (VBranch pre2 ch2 c2 sz2 lc2 lb2))"
  shows "pre1 = pre2"
proof -
  have on: "\<forall>j < length pre. nib k (length p + j) = pre ! j"
    if "entry_at p (Some (VBranch pre ch c sz lc lb)) k \<noteq> None" for pre ch c sz lc lb k
    using that by (auto simp: entry_at_branch split: if_splits)
  obtain a b where ab: "entry_at p (Some (VBranch pre1 ch1 c1 sz1 lc1 lb1)) a \<noteq> None"
    "entry_at p (Some (VBranch pre1 ch1 c1 sz1 lc1 lb1)) b \<noteq> None" "nib a (length p + length pre1) \<noteq> nib b (length p + length pre1)"
    using branch_two_keys [OF assms(1)] by blast
  obtain a' b' where ab': "entry_at p (Some (VBranch pre2 ch2 c2 sz2 lc2 lb2)) a' \<noteq> None"
    "entry_at p (Some (VBranch pre2 ch2 c2 sz2 lc2 lb2)) b' \<noteq> None" "nib a' (length p + length pre2) \<noteq> nib b' (length p + length pre2)"
    using branch_two_keys [OF assms(2)] by blast
  have "length pre2 \<le> length pre1" using on [OF ab(1)[unfolded assms(3)]] on [OF ab(2)[unfolded assms(3)]] ab(3) by (metis not_le)
  moreover have "length pre1 \<le> length pre2"
    using on [OF ab'(1)[folded assms(3)]] on [OF ab'(2)[folded assms(3)]] ab'(3) by (metis not_le)
  ultimately have "length pre1 = length pre2" by simp
  then show ?thesis using on [OF ab(1)] on [OF ab(1)[unfolded assms(3)]] by (simp add: list_eq_iff_nth_eq)
qed

lemma child_entries:
  assumes "vc_inv L p (VBranch pre ch c sz lc lb)"
  shows "entry_at (p @ pre @ [i]) (child ch i) k =
    (if (\<forall>j < length pre. nib k (length p + j) = pre ! j) \<and> nib k (length p + length pre) = i
     then entry_at p (Some (VBranch pre ch c sz lc lb)) k else None)"
proof (cases "child ch i")
  case (Some n)
  have "vc_inv L (p @ pre @ [i]) n" using assms Some by (auto simp: vc_inv_simps)
  from entry_off_path [OF this, of k] show ?thesis by (auto simp: entry_at_branch Some)
qed (auto simp: entry_at_branch)

lemma strip_unique:
  assumes "vc_inv L p n" "vc_inv L p n'" "entry_at p (Some n) = entry_at p (Some n')"
  shows "strip n = strip n'"
  using assms
proof (induction arbitrary: n' rule: vc_inv.induct)
  case (Leaf k L p v h c s)
  show ?case
  proof (cases n')
    case (VLeaf k' v' h' c' s')
    then show ?thesis using fun_cong [OF Leaf.prems(2), of k] by (auto split: if_splits)
  next
    case (VBranch pre ch c' sz lc lb)
    obtain a b where "entry_at p (Some n') a \<noteq> None" "entry_at p (Some n') b \<noteq> None" "a \<noteq> b"
      using branch_two_keys [OF Leaf.prems(1)[unfolded VBranch]] VBranch by metis
    then show ?thesis unfolding Leaf.prems(2) [symmetric] by (auto split: if_splits)
  qed
next
  case (Branch ch L p pre i j c sz lc lb)
  let ?B = "VBranch pre ch c sz lc lb"
  have inv: "vc_inv L p ?B" using Branch.hyps by (rule vc_inv.Branch)
  show ?case
  proof (cases n')
    case (VLeaf k' v' h' c' s')
    obtain a b where "entry_at p (Some ?B) a \<noteq> None" "entry_at p (Some ?B) b \<noteq> None" "a \<noteq> b"
      using branch_two_keys [OF inv] by metis
    then show ?thesis unfolding Branch.prems(2) VLeaf by (auto split: if_splits)
  next
    case (VBranch pre' ch' c' sz' lc' lb')
    note inv' = Branch.prems(1) [unfolded VBranch] and eq = Branch.prems(2) [unfolded VBranch]
    have pre: "pre' = pre" using prefix_unique [OF inv inv' eq] by simp
    have len: "length ch = 64" "length ch' = 64" using inv inv' by (auto simp: vc_inv_simps)
    have ent: "entry_at (p @ pre @ [i]) (child ch i) = entry_at (p @ pre @ [i]) (child ch' i)" for i
    proof
      fix k
      show "entry_at (p @ pre @ [i]) (child ch i) k = entry_at (p @ pre @ [i]) (child ch' i) k"
        using child_entries [OF inv, of i k] child_entries [OF inv', of i k] eq unfolding pre by presburger
    qed
    have sub: "map_option strip (child ch i) = map_option strip (child ch' i)" for i
    proof (cases "child ch i")
      case None
      have "child ch' i = None"
      proof (rule ccontr)
        assume "child ch' i \<noteq> None"
        then obtain n where n: "child ch' i = Some n" by blast
        then have "vc_inv L (p @ pre @ [i]) n" using inv' pre by (auto simp: vc_inv_simps)
        from inv_has_key [OF this] obtain k x where "node_at (p @ pre @ [i]) (Some n) k = Some x" by blast
        then have "entry_at (p @ pre @ [i]) (child ch' i) k \<noteq> None" using n by (simp add: entry_at_def)
        then show False using fun_cong [OF ent [of i], of k] None by simp
      qed
      then show ?thesis using None by simp
    next
      case (Some n)
      have nn: "vc_inv L (p @ pre @ [i]) n" using inv Some by (auto simp: vc_inv_simps)
      obtain k x where "node_at (p @ pre @ [i]) (Some n) k = Some x" using inv_has_key [OF nn] by blast
      then have "entry_at (p @ pre @ [i]) (Some n) k \<noteq> None" by (simp add: entry_at_def)
      then have "entry_at (p @ pre @ [i]) (child ch' i) k \<noteq> None" using fun_cong [OF ent [of i], of k] Some by simp
      then obtain n2 where n2: "child ch' i = Some n2" by (cases "child ch' i") auto
      then have "vc_inv L (p @ pre @ [i]) n2" using inv' pre by (auto simp: vc_inv_simps)
      then show ?thesis using Branch.IH [OF Some] ent [of i] Some n2 by simp
    qed
    have "map (map_option strip) ch = map (map_option strip) ch'"
    proof (rule nth_equalityI)
      fix i assume "i < length (map (map_option strip) ch)"
      then show "map (map_option strip) ch ! i = map (map_option strip) ch' ! i"
        using sub [of i] len by (simp add: child_def)
    qed (simp add: len)
    then show ?thesis by (simp add: VBranch pre)
  qed
qed

end
