(* ===== verification/VectorTreeCommit.thy ===== *)
theory VectorTreeCommit
  imports VectorTreeMap
begin

text \<open>
  Commitments of the vector commitment tree: the cached commitments are right after every
  operation, so the commitment depends on the contents only.
\<close>

section \<open>Caches\<close>

text \<open>The commitment of a node, computed without the caches.\<close>

definition commitment :: "vc_ops \<Rightarrow> vc_node \<Rightarrow> bytes" where
  "commitment ops n = fst (commit_node ops True n)"

definition children_data :: "vc_ops \<Rightarrow> vc_node option list \<Rightarrow> bytes" where
  "children_data ops ch = concat (map (\<lambda>x. case x of None \<Rightarrow> replicate 64 0 | Some n \<Rightarrow> child_hash ops (commitment ops n) n) ch)"

lemma child_hash_cong: "strip n = strip n' \<Longrightarrow> child_hash ops out n = child_hash ops out n'"
  by (cases n; cases n') (simp_all add: child_hash_def)

lemma strip_commit: "strip (snd (commit_node ops r n)) = strip n"
proof (induction n)
  case (VBranch pre ch c sz lc lb)
  then show ?case by (auto simp: Let_def option.map_comp comp_def intro!: option.map_cong)
qed (simp add: Let_def)

lemma child_data_eq:
  assumes "\<And>n. Some n \<in> set ch \<Longrightarrow> fst (commit_node ops r n) = commitment ops n"
  shows "child_data ops (map (map_option (commit_node ops r)) ch) = children_data ops ch"
proof -
  have "(case map_option (commit_node ops r) x of None \<Rightarrow> replicate 64 0 | Some (out, n) \<Rightarrow> child_hash ops out n) =
      (case x of None \<Rightarrow> replicate 64 0 | Some n \<Rightarrow> child_hash ops (commitment ops n) n)" if "x \<in> set ch" for x
  proof (cases x)
    case (Some n)
    then show ?thesis using assms [of n] that child_hash_cong [OF strip_commit [of ops r n]]
      by (cases "commit_node ops r n") auto
  qed simp
  then show ?thesis by (simp add: child_data_def children_data_def comp_def cong: map_cong)
qed

lemma commitment_simps:
  "commitment ops (VLeaf k v h c s) = leaf_hash ops k v h"
  "commitment ops (VBranch pre ch c sz lc lb) = CommitRaw ops (children_data ops ch)"
  using child_data_eq [of ch ops True] by (simp_all add: commitment_def Let_def)

lemma commitment_strip: "commitment ops (strip n) = commitment ops n"
proof (induction n)
  case (VBranch pre ch c sz lc lb)
  have "children_data ops (map (map_option strip) ch) = children_data ops ch"
  proof -
    have "(case map_option strip x of None \<Rightarrow> replicate 64 0 | Some n \<Rightarrow> child_hash ops (commitment ops n) n) =
        (case x of None \<Rightarrow> replicate 64 0 | Some n \<Rightarrow> child_hash ops (commitment ops n) n)" if "x \<in> set ch" for x
    proof (cases x)
      case (Some n)
      have "strip (strip n) = strip n" for n by (induction n) (auto simp: option.map_comp comp_def intro!: option.map_cong)
      then show ?thesis using VBranch.IH [of x n] that Some child_hash_cong [of "strip n" n ops] by simp
    qed simp
    then show ?thesis by (simp add: children_data_def comp_def cong: map_cong)
  qed
  then show ?case by (simp add: commitment_simps)
qed (simp add: commitment_simps)

text \<open>A cache is empty or right.\<close>

primrec cached_ok :: "vc_ops \<Rightarrow> vc_node \<Rightarrow> bool" where
  "cached_ok ops (VLeaf k v h c s) \<longleftrightarrow> c \<in> {None, Some (leaf_hash ops k v h)}"
| "cached_ok ops (VBranch pre ch c sz lc lb) \<longleftrightarrow>
     list_all (\<lambda>x. x \<noteq> Some False) (map (map_option (cached_ok ops)) ch) \<and>
     c \<in> {None, Some (CommitRaw ops (children_data ops ch))}"

lemma cached_branch:
  "cached_ok ops (VBranch pre ch c sz lc lb) \<longleftrightarrow>
     (\<forall>n. Some n \<in> set ch \<longrightarrow> cached_ok ops n) \<and> c \<in> {None, Some (CommitRaw ops (children_data ops ch))}"
  by (fastforce simp: list_all_iff)

declare cached_ok.simps(2) [simp del]

lemma map_option_comp: "map_option f \<circ> map_option g = map_option (f \<circ> g)"
  by (simp add: fun_eq_iff option.map_comp comp_def)

lemma commit_cached:
  assumes "cached_ok ops n"
  shows "fst (commit_node ops r n) = commitment ops n \<and> cached_ok ops (snd (commit_node ops r n))"
  using assms
proof (induction n)
  case (VLeaf k v h c s)
  then show ?case by (auto simp: Let_def commitment_simps)
next
  case (VBranch pre ch c sz lc lb)
  have IH: "fst (commit_node ops r n) = commitment ops n \<and> cached_ok ops (snd (commit_node ops r n))" if "Some n \<in> set ch" for n
    using VBranch.IH [OF that] VBranch.prems that by (auto simp: cached_branch)
  have d: "child_data ops (map (map_option (commit_node ops r)) ch) = children_data ops ch"
    using IH by (intro child_data_eq) blast
  have e: "children_data ops (map (map_option (snd \<circ> commit_node ops r)) ch) = children_data ops ch"
  proof -
    have "commitment ops (snd (commit_node ops r n)) = commitment ops n" for n
      using commitment_strip [of ops n] commitment_strip [of ops "snd (commit_node ops r n)"] strip_commit [of ops r n] by simp
    then show ?thesis using child_hash_cong [OF strip_commit]
      by (auto simp: children_data_def comp_def split: option.splits intro!: arg_cong [of _ _ concat])
  qed
  have k: "cached_ok ops n" if "Some n \<in> set (map (map_option (snd \<circ> commit_node ops r)) ch)" for n
  proof -
    obtain x where x: "x \<in> set ch" "Some n = map_option (snd \<circ> commit_node ops r) x" using \<open>Some n \<in> _\<close> by auto
    from x(2) obtain m where "x = Some m" "n = snd (commit_node ops r m)" by (cases x) auto
    then show ?thesis using IH [of m] x(1) by blast
  qed
  show ?case
  proof (cases "c = None \<or> r")
    case True
    then show ?thesis using d e k by (auto simp: Let_def commitment_simps cached_branch map_option_comp)
  next
    case False
    then show ?thesis using VBranch.prems by (auto simp: Let_def commitment_simps cached_branch)
  qed
qed

lemma cached_recalc: "cached_ok ops (recalcMetadata n) = cached_ok ops n"
proof (induction n)
  case (VBranch pre ch c sz lc lb)
  let ?ch = "map (map_option recalcMetadata) ch"
  have e: "children_data ops ?ch = children_data ops ch"
  proof -
    have "commitment ops (recalcMetadata n) = commitment ops n" for n
      using commitment_strip [of ops n] commitment_strip [of ops "recalcMetadata n"] strip_recalc [of n] by simp
    then show ?thesis using child_hash_cong [OF strip_recalc]
      by (auto simp: children_data_def comp_def split: option.splits intro!: arg_cong [of _ _ concat])
  qed
  have "(\<forall>n. Some n \<in> set ?ch \<longrightarrow> cached_ok ops n) \<longleftrightarrow> (\<forall>n. Some n \<in> set ch \<longrightarrow> cached_ok ops n)"
  proof -
    have "Some n \<in> set ?ch \<longleftrightarrow> (\<exists>m. Some m \<in> set ch \<and> n = recalcMetadata m)" for n
      by (auto simp: image_iff) (metis (no_types) map_option_eq_Some option.map(2))+
    then show ?thesis using VBranch.IH by (metis option.set_intros)
  qed
  then show ?case by (simp add: cached_branch e recalcMetadata.simps Let_def)
qed simp

lemma child_in_set: "child ch i = Some n \<Longrightarrow> Some n \<in> set ch"
  by (auto simp: child_def split: if_splits) (metis nth_mem)

lemma cached_child: "cached_ok ops (VBranch pre ch c sz lc lb) \<Longrightarrow> child ch i = Some n \<Longrightarrow> cached_ok ops n"
  using child_in_set by (auto simp: cached_branch)

lemma set_update_children: "Some n \<in> set (ch[i := x]) \<Longrightarrow> x = Some n \<or> Some n \<in> set ch"
  using set_update_subset_insert [of ch i x] by auto

lemma cached_insert:
  assumes "insert_node k v h s t d = Some n'" "\<And>n. t = Some n \<Longrightarrow> cached_ok ops n"
  shows "cached_ok ops n'"
  using assms
proof (induction k v h s t d arbitrary: n' rule: insert_node.induct)
  case (3 key val ht sz pre ch c s lc lb depth)
  have c: "cached_ok ops (VBranch pre ch c s lc lb)" using "3.prems"(2) by simp
  show ?case
  proof (cases "mismatch key depth pre")
    case None
    let ?i = "getNextNibble key (depth + length pre * BranchBits)"
    obtain m where m: "insert_node key val ht sz (child ch ?i) (depth + length pre * BranchBits + BranchBits) = Some m"
      "n' = recalcMetadata (VBranch pre (ch[?i := Some m]) None s lc lb)"
      using "3.prems"(1) None by (auto simp: Let_def bind_eq_Some_conv)
    have "cached_ok ops m" using "3.IH" [OF None refl m(1)] cached_child [OF c] by blast
    then have "cached_ok ops (VBranch pre (ch[?i := Some m]) None s lc lb)"
      using c by (auto simp: cached_branch dest!: set_update_children)
    then show ?thesis using m(2) by (simp add: cached_recalc)
  next
    case (Some i)
    have "cached_ok ops (VBranch (drop (Suc i) pre) ch c s lc lb)" using c by (simp add: cached_branch)
    then have "cached_ok ops (VBranch (take i pre) (no_children[pre ! i := Some (VBranch (drop (i + 1) pre) ch c s lc lb),
               getNextNibble key (depth + i * BranchBits) := Some (VLeaf key val ht None sz)]) None None 0 0)"
      by (auto simp: cached_branch [of _ "take i pre"] no_children_def dest!: set_update_children)
    then show ?thesis using "3.prems"(1) Some by (auto simp: cached_recalc)
  qed
qed (auto simp: bind_eq_Some_conv cached_branch no_children_def split: if_splits dest!: set_update_children)

lemma cached_collapse:
  assumes "\<And>n. Some n \<in> set ch \<Longrightarrow> cached_ok ops n" "collapse pre ch sz lc lb = Some n'"
  shows "cached_ok ops n'"
proof -
  have o: "cached_ok ops n" if "(i, n) \<in> set (occupied ch)" for i n
    using that assms(1) unfolding set_occupied by (auto simp: child_def split: if_splits) (metis nth_mem)
  have "cached_ok ops (VBranch pre ch None sz lc lb)" using assms(1) by (simp add: cached_branch)
  then show ?thesis using assms(2) o
    by (auto simp: collapse_def cached_recalc cached_branch split: list.splits prod.splits vc_node.splits)
qed

lemma cached_remove:
  assumes "remove_node k t d = Some n'" "\<And>n. t = Some n \<Longrightarrow> cached_ok ops n"
  shows "cached_ok ops n'"
  using assms
proof (induction k t d arbitrary: n' rule: remove_node.induct)
  case (3 key pre ch c s lc lb depth)
  have c: "cached_ok ops (VBranch pre ch c s lc lb)" using "3.prems"(2) by simp
  let ?i = "getNextNibble key (depth + length pre * BranchBits)"
  let ?r = "remove_node key (child ch ?i) (depth + length pre * BranchBits + BranchBits)"
  show ?case
  proof (cases "mismatch key depth pre")
    case None
    have "cached_ok ops n" if "?r = Some n" for n using "3.IH" [OF _ refl that] None cached_child [OF c] by auto
    then have "cached_ok ops n" if "Some n \<in> set (ch[?i := ?r])" for n
      using set_update_children [OF that] c by (auto simp: cached_branch)
    then show ?thesis by (rule cached_collapse) (use "3.prems"(1) None in \<open>auto simp: Let_def\<close>)
  qed (use "3.prems" in auto)
qed (auto split: if_splits)


section \<open>Histories\<close>

text \<open>The calls that change a tree, or only its caches.\<close>

datatype vc_op =
    OpInsert bytes "bytes option" bytes nat
  | OpDelete bytes
  | OpCommit bool
  | OpProve bytes
  | OpVerify bytes "bytes option list"

fun run_op :: "vc_ops \<Rightarrow> vc_node option \<Rightarrow> vc_op \<Rightarrow> vc_node option" where
  "run_op ops t (OpInsert k v h s) = put_tree t k (v, h, s)"
| "run_op ops t (OpDelete k) = del_tree t k"
| "run_op ops t (OpCommit r) = snd (tree_Commit ops r t)"
| "run_op ops t (OpProve k) = snd (tree_Prove ops t k)"
| "run_op ops t (OpVerify k ps) = snd (tree_Verify ops t k ps)"

definition run_ops :: "vc_ops \<Rightarrow> vc_op list \<Rightarrow> vc_node option" where
  "run_ops ops h = foldl (run_op ops) None h"

fun op_len :: "nat \<Rightarrow> vc_op \<Rightarrow> bool" where
  "op_len L (OpInsert k v h s) = (length k = L)"
| "op_len L _ = True"

text \<open>A node with the same contents as another, and right caches.\<close>

definition kept :: "vc_ops \<Rightarrow> vc_node \<Rightarrow> vc_node \<Rightarrow> bool" where
  "kept ops n n' \<longleftrightarrow> strip n' = strip n \<and> cached_ok ops n'"

lemma child_hash_strip: "strip n' = strip n \<Longrightarrow> child_hash ops (commitment ops n') n' = child_hash ops (commitment ops n) n"
  by (metis child_hash_cong commitment_strip)

lemma kept_children:
  assumes "list_all2 (rel_option (kept ops)) ch ch'"
  shows "map (map_option strip) ch' = map (map_option strip) ch \<and> children_data ops ch' = children_data ops ch \<and>
    (\<forall>n. Some n \<in> set ch' \<longrightarrow> cached_ok ops n)"
  using assms
proof (induction rule: list_all2_induct)
  case (Cons x xs y ys)
  have "map_option strip y = map_option strip x \<and> (\<forall>n. y = Some n \<longrightarrow> cached_ok ops n) \<and>
      children_data ops [y] = children_data ops [x]"
    using Cons.hyps(1) by (cases x; cases y) (auto simp: kept_def children_data_def intro: child_hash_strip)
  moreover have "children_data ops (x # xs) = children_data ops [x] @ children_data ops xs"
    "children_data ops (y # ys) = children_data ops [y] @ children_data ops ys"
    by (simp_all add: children_data_def)
  ultimately show ?case using Cons.IH by fastforce
qed (simp add: children_data_def)

lemma rebranch:
  assumes "list_all2 (rel_option (kept ops)) ch ch'" "c' \<in> {None, Some (CommitRaw ops (children_data ops ch))}"
  shows "kept ops (VBranch pre ch c s lc lb) (VBranch pre ch' c' s' lc' lb')"
  using kept_children [OF assms(1)] assms(2) by (auto simp: kept_def cached_branch)

lemma kept_refl: "cached_ok ops n \<Longrightarrow> kept ops n n"
  by (simp add: kept_def)

lemma kept_trans: "kept ops a b \<Longrightarrow> kept ops b c \<Longrightarrow> kept ops a c"
  by (simp add: kept_def)

lemma kept_commit: "cached_ok ops n \<Longrightarrow> kept ops n (snd (commit_node ops r n))"
  by (simp add: kept_def strip_commit commit_cached)

lemma kept_opt_commit:
  assumes "\<And>n. x = Some n \<Longrightarrow> cached_ok ops n"
  shows "rel_option (kept ops) x (map_option (snd \<circ> commit_node ops r) x)"
  using assms by (cases x) (auto simp: kept_commit)

lemma kept_all_commit:
  assumes "\<And>n. Some n \<in> set ch \<Longrightarrow> cached_ok ops n"
  shows "list_all2 (rel_option (kept ops)) ch (map (map_option (snd \<circ> commit_node ops r)) ch)"
  using assms kept_opt_commit by (auto simp: list_all2_conv_all_nth) (metis nth_mem)

lemma child_kept:
  assumes "list_all2 (rel_option (kept ops)) ch ch'"
  shows "rel_option (kept ops) (child ch i) (child ch' i)"
  using assms by (auto simp: child_def list_all2_conv_all_nth)

lemma update_kept:
  assumes "list_all2 (rel_option (kept ops)) ch ch'" "rel_option (kept ops) (child ch i) x"
  shows "list_all2 (rel_option (kept ops)) ch (ch'[i := x])"
  using assms by (auto simp: child_def list_all2_conv_all_nth nth_list_update split: if_splits)

lemma rel_kept_trans: "rel_option (kept ops) a b \<Longrightarrow> rel_option (kept ops) b c \<Longrightarrow> rel_option (kept ops) a c"
  by (cases a; cases b; cases c) (auto intro: kept_trans)

lemma rel_kept_cached: "rel_option (kept ops) a (Some n) \<Longrightarrow> cached_ok ops n"
  by (cases a) (auto simp: kept_def)

lemma branch_Prove_parts:
  assumes "branch_Prove ops i ch = (pr, ch')" "\<And>n. Some n \<in> set ch \<Longrightarrow> cached_ok ops n"
  shows "pr = ProveRaw ops (children_data ops ch) i" "ch' = map (map_option (snd \<circ> commit_node ops False)) ch"
  using assms child_data_eq [of ch ops False] commit_cached [of ops _ False]
  by (auto simp: branch_Prove_def Let_def map_option_comp)


lemma prove_kept:
  assumes "\<And>n. t = Some n \<Longrightarrow> cached_ok ops n"
  shows "rel_option (kept ops) t (snd (prove_node ops key t d))"
  using assms
proof (induction ops key t d rule: prove_node.induct)
  case (3 ops key pre ch c s lc lb d)
  let ?i = "getNextNibble key (d + length pre * BranchBits)"
  have c: "cached_ok ops (VBranch pre ch c s lc lb)" using "3.prems" by simp
  then have all: "\<And>n. Some n \<in> set ch \<Longrightarrow> cached_ok ops n" by (simp add: cached_branch)
  show ?case
  proof (cases "mismatch key d pre")
    case None
    obtain pr ch' where p: "branch_Prove ops ?i ch = (pr, ch')" by fastforce
    have k: "list_all2 (rel_option (kept ops)) ch ch'" using kept_all_commit [OF all] branch_Prove_parts(2) [OF p all] by simp
    obtain ps n where r: "prove_node ops key (child ch' ?i) (d + length pre * BranchBits + BranchBits) = (ps, n)" by fastforce
    have "rel_option (kept ops) (child ch' ?i) n"
      using "3.IH" [OF _ refl p [symmetric] refl] None rel_kept_cached [of ops "child ch ?i"] child_kept [OF k, of ?i] r
      by (metis snd_conv)
    then have "list_all2 (rel_option (kept ops)) ch (ch'[?i := n])"
      using update_kept [OF k] rel_kept_trans child_kept [OF k] by blast
    then show ?thesis using rebranch [of ops ch "ch'[?i := n]" c] c None p r by (auto simp: cached_branch)
  qed (use c in \<open>simp add: kept_refl\<close>)
qed (auto simp: kept_refl)

lemma branch_Verify_kept:
  assumes "cached_ok ops (VBranch pre ch c s lc lb)" "branch_Verify ops i pr ch c = (ok, ch', c')"
  shows "list_all2 (rel_option (kept ops)) ch ch' \<and> c' = CommitRaw ops (children_data ops ch)"
proof (cases c)
  case None
  have all: "\<And>n. Some n \<in> set ch \<Longrightarrow> cached_ok ops n" using assms by (simp add: cached_branch)
  then show ?thesis using assms(2) None kept_all_commit [OF all] child_data_eq [of ch ops False] commit_cached
    by (auto simp: branch_Verify_def Let_def map_option_comp)
next
  case (Some out)
  have r: "list_all2 (rel_option (kept ops)) ch ch"
    using assms by (auto simp: cached_branch list_all2_conv_all_nth option.rel_sel kept_def)
  have "rel_option (kept ops) (child ch i) (map_option (snd \<circ> commit_node ops False) (child ch i))"
    using kept_opt_commit cached_child [OF assms(1)] by blast
  then show ?thesis using assms Some update_kept [OF r] by (auto simp: branch_Verify_def Let_def cached_branch option.map_comp)
qed

lemma verify_kept:
  assumes "\<And>n. t = Some n \<Longrightarrow> cached_ok ops n"
  shows "rel_option (kept ops) t (snd (verify_node ops key t ps d))"
  using assms
proof (induction ops key t ps d rule: verify_node.induct)
  case (4 ops key pre ch c s lc lb p ps d)
  let ?i = "getNextNibble key (d + length pre * BranchBits)"
  have c: "cached_ok ops (VBranch pre ch c s lc lb)" using "4.prems" by simp
  show ?case
  proof (cases "mismatch key d pre")
    case None
    obtain ok ch' c' where v: "branch_Verify ops ?i (as_bytes p) ch c = (ok, ch', c')" by (metis prod_cases3)
    have k: "list_all2 (rel_option (kept ops)) ch ch'" and c': "c' = CommitRaw ops (children_data ops ch)"
      using branch_Verify_kept [OF c v] by auto
    show ?thesis
    proof (cases ok)
      case True
      obtain ok' n where r: "verify_node ops key (child ch' ?i) ps (d + length pre * BranchBits + BranchBits) = (ok', n)" by fastforce
      have "rel_option (kept ops) (child ch' ?i) n"
        using "4.IH" [OF _ refl v [symmetric] refl] True None rel_kept_cached [of ops "child ch ?i"] child_kept [OF k, of ?i] r
        by (metis snd_conv)
      then have "list_all2 (rel_option (kept ops)) ch (ch'[?i := n])"
        using update_kept [OF k] rel_kept_trans child_kept [OF k] by blast
      then show ?thesis using rebranch [of ops ch "ch'[?i := n]" "Some c'"] None v r True c' by simp
    qed (use None v rebranch [OF k, of "Some c'"] c' in simp)
  qed (use c in \<open>simp add: kept_refl\<close>)
qed (auto simp: kept_refl)

text \<open>Commits, proofs and verifications keep the contents and the shape; every call keeps right caches.\<close>

lemma run_op_kept:
  assumes "\<And>n. t = Some n \<Longrightarrow> cached_ok ops n"
  shows "rel_option (kept ops) t (run_op ops t (OpCommit r))"
    and "rel_option (kept ops) t (run_op ops t (OpProve k))"
    and "rel_option (kept ops) t (run_op ops t (OpVerify k ps))"
proof -
  have "rel_option (kept ops) t t" using assms by (cases t) (auto simp: kept_refl)
  then show "rel_option (kept ops) t (run_op ops t (OpProve k))" "rel_option (kept ops) t (run_op ops t (OpVerify k ps))"
    using prove_kept [of t ops k 0] verify_kept [of t ops k ps 0] assms by (auto simp: tree_Prove_def tree_Verify_def)
  show "rel_option (kept ops) t (run_op ops t (OpCommit r))"
    using assms by (cases t) (auto simp: tree_Commit_def kept_commit)
qed

lemma kept_inv:
  assumes "rel_option (kept ops) t t'" "opt_inv L [] t"
  shows "opt_inv L [] t' \<and> tree_map t' = tree_map t \<and> (\<forall>n. t' = Some n \<longrightarrow> cached_ok ops n)"
proof (cases t)
  case (Some n)
  then obtain n' where n: "t' = Some n'" "strip n' = strip n" "cached_ok ops n'" using assms(1) by (auto simp: option_rel_Some1 kept_def)
  then have "vc_inv L [] n'" using assms(2) Some vc_inv_strip [of L "[]"] by (metis opt_inv_simps(2))
  then show ?thesis using n Some assms(2) entry_at_strip [of L "[]" n] entry_at_strip [of L "[]" n'] by (simp add: tree_map_def)
qed (use assms in simp)


lemma run_op_inv:
  assumes "opt_inv L [] t" "\<And>n. t = Some n \<Longrightarrow> cached_ok ops n" "op_len L x" "0 < L"
  shows "opt_inv L [] (run_op ops t x) \<and> (\<forall>n. run_op ops t x = Some n \<longrightarrow> cached_ok ops n)"
proof (cases x)
  case (OpInsert k v h s)
  obtain n where n: "tree_Insert t k v h s = Some (Inr (Some n))" "vc_inv L [] n"
    using tree_Insert_returns [OF assms(1), of k v h s] assms(3,4) OpInsert by auto
  then have "insert_node k v h s t 0 = Some n" by (auto simp: tree_Insert_def split: if_splits)
  then have "cached_ok ops n" using cached_insert assms(2) by blast
  then show ?thesis using OpInsert n by (simp add: put_tree_def)
next
  case (OpDelete k)
  show ?thesis
  proof (cases "k = []")
    case False
    then obtain t' where t': "tree_Delete t k = Inr t'" "opt_inv L [] t'" using tree_Delete_returns [OF assms(1)] by blast
    then have "remove_node k t 0 = t'" using False by (simp add: tree_Delete_def)
    then show ?thesis using OpDelete t' cached_remove [of k t 0 _ ops] assms(2) by (auto simp: del_tree_def)
  qed (use OpDelete assms in \<open>simp add: del_tree_def tree_Delete_def\<close>)
qed (use run_op_kept [OF assms(2)] kept_inv [OF _ assms(1)] in blast)+

lemma run_ops_inv:
  assumes "list_all (op_len L) h" "0 < L"
  shows "opt_inv L [] (run_ops ops h) \<and> (\<forall>n. run_ops ops h = Some n \<longrightarrow> cached_ok ops n)"
  using assms(1)
proof (induction h rule: rev_induct)
  case (snoc x h)
  then show ?case using run_op_inv [of L "run_ops ops h" ops x] assms(2) by (auto simp: run_ops_def)
qed (simp add: run_ops_def)

text \<open>The contents determine the shape.\<close>

lemma contents_shape:
  assumes "opt_inv L [] t" "opt_inv L [] t'" "tree_map t = tree_map t'"
  shows "map_option strip t = map_option strip t'"
proof -
  have empty: "t = None" if t: "opt_inv L [] t" "tree_map t = (\<lambda>_. None)" for t
  proof (cases t)
    case (Some n)
    then obtain k x where "node_at [] (Some n) k = Some x" using inv_has_key [of L "[]" n] t(1) by auto
    then have "tree_map t k \<noteq> None" using Some by (simp add: tree_map_def entry_at_def)
    then show ?thesis using t(2) by simp
  qed simp
  have e: "tree_map None = (\<lambda>_. None)" by (simp add: tree_map_def fun_eq_iff)
  show ?thesis
  proof (cases "t = None \<or> t' = None")
    case True
    then have "t = None" "t' = None" using empty assms e by metis+
    then show ?thesis by simp
  next
    case False
    then obtain n n' where n: "t = Some n" "t' = Some n'" by auto
    then show ?thesis using strip_unique [of L "[]" n n'] assms by (simp add: tree_map_def)
  qed
qed

lemma commit_contents:
  assumes "opt_inv L [] t" "opt_inv L [] t'" "tree_map t = tree_map t'"
    "\<And>n. t = Some n \<Longrightarrow> cached_ok ops n" "\<And>n. t' = Some n \<Longrightarrow> cached_ok ops n"
  shows "fst (tree_Commit ops r t) = fst (tree_Commit ops r' t')"
proof (cases t)
  case None
  then show ?thesis using contents_shape [OF assms(1-3)] by (simp add: tree_Commit_def)
next
  case (Some n)
  then obtain n' where n: "t' = Some n'" "strip n = strip n'" using contents_shape [OF assms(1-3)] by (cases t') auto
  then have "commitment ops n = commitment ops n'" using commitment_strip [of ops n] commitment_strip [of ops n'] by simp
  then show ?thesis using n Some assms(4,5) commit_cached by (simp add: tree_Commit_def)
qed

end
