(* ===== verification/VectorTreeProofs.thy ===== *)
theory VectorTreeProofs
  imports VectorTreeCommit
begin

text \<open>
  Whole histories of a vector commitment tree over keys of one length: the tree refines a map,
  the commitment depends on the contents only, a proof made from one tree verifies against every
  tree with the same contents, the counters are right except after the first fork of the root,
  and \<open>CompareLeaves\<close> reports exactly the keys at which two trees differ.
\<close>

section \<open>The abstract map of a history\<close>

type_synonym vc_entry = "bytes option \<times> bytes \<times> nat"

fun map_op :: "(bytes \<rightharpoonup> vc_entry) \<Rightarrow> vc_op \<Rightarrow> (bytes \<rightharpoonup> vc_entry)" where
  "map_op m (OpInsert k v h s) = m(k \<mapsto> (v, h, s))"
| "map_op m (OpDelete k) = m(k := None)"
| "map_op m _ = m"

definition run_map :: "vc_op list \<Rightarrow> (bytes \<rightharpoonup> vc_entry)" where
  "run_map h = foldl map_op Map.empty h"

lemma run_op_map:
  assumes "opt_inv (Suc L) [] t" "\<And>n. t = Some n \<Longrightarrow> cached_ok ops n" "op_len (Suc L) x"
  shows "tree_map (run_op ops t x) = map_op (tree_map t) x"
proof -
  have k: "tree_map t' = tree_map t" if "rel_option (kept ops) t t'" for t' using kept_inv [OF that assms(1)] by blast
  note c = run_op_kept [of t ops, OF assms(2)]
  show ?thesis
    using assms(1,3) vcm.get_put [of L t] vcm.get_del [of L t] k [OF c(1)] k [OF c(2)] k [OF c(3)] by (cases x) simp_all
qed

lemma run_ops_map:
  assumes "list_all (op_len (Suc L)) h"
  shows "tree_map (run_ops ops h) = run_map h"
  using assms
proof (induction h rule: rev_induct)
  case (snoc x h)
  then show ?case using run_op_map [of L "run_ops ops h" ops x] run_ops_inv [of "Suc L" h ops] by (auto simp: run_ops_def run_map_def)
qed (simp add: run_ops_def run_map_def tree_map_def fun_eq_iff)

text \<open>Hash and commitments of the examples: the data itself, the hash cut to 64 bytes.\<close>

definition sample_vc :: vc_ops where
  "sample_vc = \<lparr>sha512_Sum512 = (\<lambda>b. take 64 (b @ replicate 64 0)),
     CommitRaw = (\<lambda>b. b), ProveRaw = (\<lambda>b i. [1]),
     VerifyRaw = (\<lambda>x c i p. take 64 (drop (64 * i) c) = x)\<rparr>"

text \<open>
  C16: the tree stays well-formed. After any history over keys of one length every branch has 64
  slots and at least two children, every leaf lies where the nibbles of its key lead and every
  cached commitment is the commitment of the node that caches it.
\<close>

theorem tree_well_formed:
  assumes "list_all (op_len (Suc L)) h" "run_ops ops h = Some n"
  shows "vc_inv (Suc L) [] n \<and> cached_ok ops n"
  using run_ops_inv [OF assms(1), of ops] assms(2) by simp

theorem tree_well_formed_witness:
  "vc_inv 1 [] (the (run_ops sample_vc [OpInsert [1] (Some [7]) [] 1, OpCommit False, OpInsert [1] None [] 2]))"
  using tree_well_formed [of 0 "[OpInsert [1] (Some [7]) [] 1, OpCommit False, OpInsert [1] None [] 2]" sample_vc]
  by (simp add: run_ops_def put_tree_def tree_Insert_def tree_Commit_def Let_def)

text \<open>
  C14: the tree refines a map. After any sequence of insertions, deletions, commits, proofs and
  verifications over keys of one length, \<open>Get\<close> returns what a plain map holds after the same
  insertions and deletions, and reports a key that is absent, or has a nil value, as not found.
\<close>

theorem tree_refines_map:
  assumes "list_all (op_len (Suc L)) h" "k \<noteq> []"
  shows "tree_Get (run_ops ops h) k =
    (case run_map h k of Some (Some v, _) \<Rightarrow> Inr v | _ \<Rightarrow> Inl (ErrMsg ''key not found''))"
  using tree_Get_map [OF assms(2)] run_ops_map [OF assms(1)] by simp

theorem tree_refines_map_witness:
  "tree_Get (run_ops sample_vc [OpInsert [1] (Some [7]) [] 1, OpInsert [2] None [] 1, OpCommit False,
       OpInsert [3] (Some [9]) [] 1, OpDelete [1], OpInsert [2] (Some [8]) [] 1]) [2] = Inr [8] \<and>
   tree_Get (run_ops sample_vc [OpInsert [1] (Some [7]) [] 1, OpInsert [2] None [] 1, OpCommit False,
       OpInsert [3] (Some [9]) [] 1, OpDelete [1], OpInsert [2] (Some [8]) [] 1]) [1] = Inl (ErrMsg ''key not found'')"
  by (simp add: tree_refines_map [of 0] run_map_def)

text \<open>
  C15: insertion terminates. On a tree over keys of one length, whatever its history, inserting
  a key of that length ends with a tree, and the new tree holds the entry beside the old ones.
\<close>

theorem insert_terminates:
  assumes "list_all (op_len (Suc L)) h" "length k = Suc L"
  shows "\<exists>t. tree_Insert (run_ops ops h) k v ht sz = Some (Inr t) \<and> tree_map t = (run_map h)(k \<mapsto> (v, ht, sz))"
  using tree_Insert_returns [of "Suc L" "run_ops ops h" k v ht sz] run_ops_inv [OF assms(1)] run_ops_map [OF assms(1)] assms(2)
  by (metis zero_less_Suc)

theorem insert_terminates_witness:
  "\<exists>t. tree_Insert (run_ops sample_vc [OpInsert [1] (Some [7]) [] 1, OpDelete [1], OpInsert [2] None [] 1]) [3] (Some [5]) [] 1
     = Some (Inr t) \<and> tree_map t [3] = Some (Some [5], [], 1) \<and> tree_map t [1] = None"
  using insert_terminates [of 0 "[OpInsert [1] (Some [7]) [] 1, OpDelete [1], OpInsert [2] None [] 1]" "[3]" sample_vc "Some [5]" "[]" 1]
  by (auto simp: run_map_def)

text \<open>
  A key that is another key with zero bytes appended makes insertion loop forever. With
  the shorter key in a leaf at the root, \<open>Insert\<close> of the longer one never returns, since bits past
  the end of a key read as zero.
\<close>

lemma trailing_zeros_hang:
  assumes "tree_Insert None k v h s = Some (Inr t)" "0 < z"
  shows "tree_Insert t (k @ replicate z 0) v' h' s' = None"
  using assms getNibblesUntilDiverge_hangs [of k z 0 "[]"] by (auto simp: tree_Insert_def split: if_splits)

text \<open>
  C12: the commitment of a tree depends on its contents only. Two trees built by any sequences of
  insertions, deletions, commits, proofs and verifications over keys of one length have the same
  commitment as soon as they hold the same entries: neither the order of the insertions, nor
  entries that were deleted again, nor what the nodes had cached matters.
\<close>

theorem commitment_of_contents:
  assumes "list_all (op_len (Suc L)) h1" "list_all (op_len (Suc L)) h2" "run_map h1 = run_map h2"
  shows "fst (tree_Commit ops r (run_ops ops h1)) = fst (tree_Commit ops r' (run_ops ops h2))"
  using commit_contents [of "Suc L" "run_ops ops h1" "run_ops ops h2" ops r r'] run_ops_inv run_ops_map assms
  by (metis zero_less_Suc)

theorem commitment_of_contents_witness:
  "fst (tree_Commit sample_vc False (run_ops sample_vc [OpInsert [1] (Some [7]) [] 1, OpCommit True, OpInsert [2] (Some [8]) [] 2])) =
   fst (tree_Commit sample_vc True (run_ops sample_vc
     [OpInsert [2] None [] 2, OpInsert [3] None [] 1, OpInsert [1] (Some [7]) [] 1, OpProve [3], OpDelete [3],
      OpInsert [2] (Some [8]) [] 2]))"
  by (rule commitment_of_contents [of 0]) (auto simp: run_map_def fun_eq_iff)


section \<open>Proofs verify\<close>

text \<open>
  What the hash and the polynomial commitments promise: digests have 64 bytes, and an opening of
  a commitment to 64 blocks is accepted exactly if neither the commitment nor the proof is
  degenerate. \<open>VerifyRaw\<close> rejects the encodings of the point at infinity and of the generator.
\<close>

definition vc_laws :: "vc_ops \<Rightarrow> (bytes \<Rightarrow> bool) \<Rightarrow> bool" where
  "vc_laws ops degenerate \<longleftrightarrow> (\<forall>b. length (sha512_Sum512 ops b) = 64) \<and>
     (\<forall>d i. length d = 64 * 64 \<longrightarrow> i < 64 \<longrightarrow>
        (VerifyRaw ops (take 64 (drop (64 * i) d)) (CommitRaw ops d) i (ProveRaw ops d i) \<longleftrightarrow>
         \<not> degenerate (CommitRaw ops d) \<and> \<not> degenerate (ProveRaw ops d i)))"

text \<open>The commitments and proofs on the path of a key, from the root down.\<close>

function openings :: "vc_ops \<Rightarrow> bytes \<Rightarrow> vc_node option \<Rightarrow> nat \<Rightarrow> (bytes \<times> bytes) list" where
  "openings ops key None depth = []"
| "openings ops key (Some (VLeaf k v h c s)) depth = []"
| "openings ops key (Some (VBranch pre ch c s lc lb)) depth =
     (let i = getNextNibble key (depth + length pre * BranchBits) in
      (CommitRaw ops (children_data ops ch), ProveRaw ops (children_data ops ch) i) #
      openings ops key (child ch i) (depth + length pre * BranchBits + BranchBits))"
  by pat_completeness auto
termination
  by (relation "measure (\<lambda>(ops, key, n, depth). node_measure n)") (auto simp: child_measure)

abbreviation sound_opening :: "(bytes \<Rightarrow> bool) \<Rightarrow> bytes \<times> bytes \<Rightarrow> bool" where
  "sound_opening degenerate x \<equiv> \<not> degenerate (fst x) \<and> \<not> degenerate (snd x)"

lemma take_drop_blocks:
  assumes "\<And>x. x \<in> set xs \<Longrightarrow> length (f x) = 64" "i < length xs"
  shows "take 64 (drop (64 * i) (concat (map f xs))) = f (xs ! i)"
  using assms
proof (induction xs arbitrary: i)
  case (Cons x xs)
  then show ?case by (cases i) simp_all
qed simp

lemma length_blocks: "(\<And>x. x \<in> set xs \<Longrightarrow> length (f x) = 64) \<Longrightarrow> length (concat (map f xs)) = 64 * length xs"
  by (induction xs) simp_all

lemma children_blocks:
  assumes "vc_laws ops degenerate" "length ch = 64"
  shows "length (children_data ops ch) = 64 * 64"
    and "i < 64 \<Longrightarrow> take 64 (drop (64 * i) (children_data ops ch)) = children_data ops [child ch i]"
proof -
  let ?f = "\<lambda>x. case x of None \<Rightarrow> replicate 64 0 | Some n \<Rightarrow> child_hash ops (commitment ops n) n"
  have f: "length (?f x) = 64" for x
    using assms(1) by (auto simp: vc_laws_def child_hash_def commitment_simps leaf_hash_def split: option.split vc_node.split)
  show "length (children_data ops ch) = 64 * 64" using length_blocks [of ch ?f] f assms(2) by (simp add: children_data_def)
  show "take 64 (drop (64 * i) (children_data ops ch)) = children_data ops [child ch i]" if "i < 64"
    using take_drop_blocks [of ch ?f i] f assms(2) that by (simp add: children_data_def child_def)
qed

lemma branch_proof_verifies:
  assumes "vc_laws ops degenerate" "length ch = 64" "i < 64" "cached_ok ops (VBranch pre ch c s lc lb)"
    "branch_Verify ops i (ProveRaw ops (children_data ops ch) i) ch c = (ok, ch', c')"
  shows "ok \<longleftrightarrow> \<not> degenerate (CommitRaw ops (children_data ops ch)) \<and> \<not> degenerate (ProveRaw ops (children_data ops ch) i)"
proof -
  have v: "VerifyRaw ops (children_data ops [child ch i]) (CommitRaw ops (children_data ops ch)) i (ProveRaw ops (children_data ops ch) i) \<longleftrightarrow>
      \<not> degenerate (CommitRaw ops (children_data ops ch)) \<and> \<not> degenerate (ProveRaw ops (children_data ops ch) i)"
    using assms(1,3) children_blocks [OF assms(1,2)] unfolding vc_laws_def by metis
  have all: "fst (commit_node ops False n) = commitment ops n" if "Some n \<in> set ch" for n
    using assms(4) that commit_cached by (auto simp: cached_branch)
  have one: "child_data ops (map (map_option (commit_node ops False)) [child ch i]) = children_data ops [child ch i]"
    by (rule child_data_eq) (use cached_child [OF assms(4)] commit_cached in auto)
  show ?thesis
    using assms(4,5) v child_data_eq [OF all] one children_blocks(2) [OF assms(1-3)]
    by (cases c) (auto simp: branch_Verify_def Let_def cached_branch)
qed

lemma children_data_strip:
  "map (map_option strip) ch' = map (map_option strip) ch \<Longrightarrow> children_data ops ch' = children_data ops ch"
proof (induction ch arbitrary: ch')
  case (Cons x xs)
  then obtain y ys where ch': "ch' = y # ys" "map_option strip y = map_option strip x" "map (map_option strip) ys = map (map_option strip) xs"
    by (cases ch') auto
  then have "children_data ops [y] = children_data ops [x]"
    by (cases x; cases y) (auto simp: children_data_def intro: child_hash_strip)
  then show ?case using Cons.IH [OF ch'(3)] ch'(1) by (simp add: children_data_def)
qed simp

lemma strip_idem: "strip (strip n) = strip n"
  by (induction n) (auto simp: option.map_comp comp_def intro!: option.map_cong)

lemma openings_strip: "openings ops key (map_option strip n) d = openings ops key n d"
proof (induction ops key n d rule: openings.induct)
  case (3 ops key pre ch c s lc lb d)
  have "children_data ops (map (map_option strip) ch) = children_data ops ch"
    by (rule children_data_strip) (simp add: option.map_comp comp_def strip_idem)
  then show ?case using "3.IH" [OF refl] by (simp add: Let_def child_map)
qed simp_all

lemma get_found_strip:
  assumes "map_option strip x = map_option strip y" "get_node k x d \<noteq> None"
  shows "get_node k y d \<noteq> None"
  using get_node_strip [of k x d] get_node_strip [of k y d] assms by (metis map_option_is_None)

lemma prove_verifies:
  assumes "vc_laws ops degenerate" "get_node key t d \<noteq> None" "rel_option (\<lambda>n n'. strip n' = strip n) t t'"
    "\<And>n. t = Some n \<Longrightarrow> vc_inv L p n \<and> cached_ok ops n" "\<And>n. t' = Some n \<Longrightarrow> cached_ok ops n"
  shows "fst (verify_node ops key t' (fst (prove_node ops key t d)) d) \<longleftrightarrow>
     list_all (sound_opening degenerate) (openings ops key t d)"
  using assms
proof (induction ops key t d arbitrary: t' p rule: prove_node.induct)
  case (2 ops key k v h c s d)
  then show ?case by (cases t'; cases "the t'") (auto split: if_splits)
next
  case (3 ops key pre ch c s lc lb d)
  let ?i = "getNextNibble key (d + length pre * BranchBits)"
  let ?d = "d + length pre * BranchBits + BranchBits"
  have c: "cached_ok ops (VBranch pre ch c s lc lb)" and inv: "vc_inv L p (VBranch pre ch c s lc lb)" using "3.prems"(4) by auto
  obtain ch' c' s' lc' lb' where t': "t' = Some (VBranch pre ch' c' s' lc' lb')" "map (map_option strip) ch' = map (map_option strip) ch"
    using "3.prems"(3) by (cases t'; cases "the t'") auto
  have c': "cached_ok ops (VBranch pre ch' c' s' lc' lb')" using "3.prems"(5) t' by blast
  have mm: "mismatch key d pre = None" and found: "get_node key (child ch ?i) ?d \<noteq> None"
    using "3.prems"(2) by (auto split: if_splits)
  have len: "length ch = 64" "length ch' = 64" using inv t'(2) by (auto simp: vc_inv_simps dest: map_eq_imp_length_eq)
  obtain pr ch1 where p: "branch_Prove ops ?i ch = (pr, ch1)" by fastforce
  have all: "\<And>n. Some n \<in> set ch \<Longrightarrow> cached_ok ops n" using c by (simp add: cached_branch)
  have pr: "pr = ProveRaw ops (children_data ops ch') ?i" "list_all2 (rel_option (kept ops)) ch ch1"
    using branch_Prove_parts [OF p all] children_data_strip [OF t'(2)] kept_all_commit [OF all] by auto
  obtain ok ch2 c2 where v: "branch_Verify ops ?i pr ch' c' = (ok, ch2, c2)" by (metis prod_cases3)
  then have ok: "ok \<longleftrightarrow> \<not> degenerate (CommitRaw ops (children_data ops ch)) \<and> \<not> degenerate (ProveRaw ops (children_data ops ch) ?i)"
    using branch_proof_verifies [OF "3.prems"(1) len(2) nibble_less c'] pr(1) children_data_strip [OF t'(2)] by simp
  have k2: "list_all2 (rel_option (kept ops)) ch' ch2" using branch_Verify_kept [OF c' v] by blast
  have s1: "map_option strip (child ch1 ?i) = map_option strip (child ch ?i)"
    using child_kept [OF pr(2), of ?i] by (auto simp: kept_def option.rel_sel map_option_case split: option.splits)
  have s2: "map_option strip (child ch2 ?i) = map_option strip (child ch ?i)"
    using child_kept [OF k2, of ?i] child_map [of strip ch' ?i] child_map [of strip ch ?i] t'(2)
    by (auto simp: kept_def option.rel_sel map_option_case split: option.splits)
  have rest: "fst (verify_node ops key (child ch2 ?i) (fst (prove_node ops key (child ch1 ?i) ?d)) ?d) \<longleftrightarrow>
      list_all (sound_opening degenerate) (openings ops key (child ch1 ?i) ?d)"
  proof (rule "3.IH" [OF _ refl p [symmetric] refl "3.prems"(1), where p = "p @ pre @ [?i]"])
    show "\<not> mismatch key d pre \<noteq> None" using mm by simp
    show "get_node key (child ch1 ?i) ?d \<noteq> None" using get_found_strip [OF s1 [symmetric]] found by blast
    show "rel_option (\<lambda>n n'. strip n' = strip n) (child ch1 ?i) (child ch2 ?i)"
      using s1 s2 by (cases "child ch1 ?i"; cases "child ch2 ?i"; cases "child ch ?i") auto
    show "vc_inv L (p @ pre @ [?i]) n \<and> cached_ok ops n" if n: "child ch1 ?i = Some n" for n
    proof -
      obtain m where m: "child ch ?i = Some m" "kept ops m n" using child_kept [OF pr(2), of ?i] n by (auto simp: option_rel_Some2)
      then have "vc_inv L (p @ pre @ [?i]) m" using inv by (auto simp: vc_inv_simps)
      then show ?thesis using m(2) vc_inv_strip [of L "p @ pre @ [?i]"] by (metis kept_def)
    qed
    show "cached_ok ops n" if "child ch2 ?i = Some n" for n using child_kept [OF k2, of ?i] that rel_kept_cached by metis
  qed
  have o: "openings ops key (child ch1 ?i) ?d = openings ops key (child ch ?i) ?d"
    using openings_strip [of ops key "child ch1 ?i" ?d] openings_strip [of ops key "child ch ?i" ?d] s1 by simp
  obtain ps n where "prove_node ops key (child ch1 ?i) ?d = (ps, n)" by fastforce
  moreover obtain b m where "verify_node ops key (child ch2 ?i) ps ?d = (b, m)" by fastforce
  ultimately show ?case using t'(1) mm p v ok rest o by (simp add: as_bytes_def Let_def)
qed auto

text \<open>
  C13: when proofs verify. A proof that one tree makes for a key it holds is accepted by a tree
  with the same contents, whatever the two histories and caches are, if and only if no commitment
  and no opening on the path of the key is degenerate (the point at infinity or the generator, which
  the polynomial commitments reject). The hash gives 64 bytes, and other openings of polynomial
  commitments verify.
\<close>

theorem proofs_verify:
  assumes "vc_laws ops degenerate" "list_all (op_len (Suc L)) h1" "list_all (op_len (Suc L)) h2" "run_map h1 = run_map h2"
    "run_map h1 k \<noteq> None"
  shows "fst (tree_Verify ops (run_ops ops h2) k (fst (tree_Prove ops (run_ops ops h1) k))) \<longleftrightarrow>
     (\<forall>(com, pr) \<in> set (openings ops k (run_ops ops h1) 0). \<not> degenerate com \<and> \<not> degenerate pr)"
proof -
  let ?t = "run_ops ops h1" and ?t' = "run_ops ops h2"
  have m: "tree_map ?t = tree_map ?t'" "tree_map ?t k \<noteq> None" using run_ops_map assms by metis+
  have i: "opt_inv (Suc L) [] ?t" "opt_inv (Suc L) [] ?t'" "\<And>n. ?t = Some n \<Longrightarrow> cached_ok ops n" "\<And>n. ?t' = Some n \<Longrightarrow> cached_ok ops n"
    using run_ops_inv [OF assms(2), of ops] run_ops_inv [OF assms(3), of ops] by auto
  obtain n n' where n: "?t = Some n" "?t' = Some n'"
    using m by (cases ?t; cases ?t') (auto simp: tree_map_def fun_eq_iff)
  have k: "k \<noteq> []" using tree_map_key [OF i(1) m(2)] by auto
  have "get_node k ?t 0 \<noteq> None" using m(2) by (auto simp: tree_map_def entry_at_def node_at_def)
  then show ?thesis using prove_verifies [of ops degenerate k ?t 0 ?t' "Suc L" "[]"] strip_unique [of "Suc L" "[]" n n'] assms(1) i n m k
    by (simp add: tree_Prove_def tree_Verify_def tree_map_def list_all_iff case_prod_unfold)
qed

text \<open>The commitments of the example are 4096 bytes and its proofs a constant; the empty string is degenerate.\<close>

lemma sample_vc_laws: "vc_laws sample_vc (\<lambda>b. b = [])"
  by (auto simp: vc_laws_def sample_vc_def min_def)

lemma openings_sample:
  assumes "(com, pr) \<in> set (openings ops key t d)" "opt_inv L p t" "ops = sample_vc"
  shows "length com = 4096 \<and> pr = [1]"
  using assms
proof (induction ops key t d arbitrary: p rule: openings.induct)
  case (3 ops key pre ch c s lc lb d)
  let ?i = "getNextNibble key (d + length pre * BranchBits)"
  have len: "length ch = 64" using "3.prems"(2) by (simp add: vc_inv_simps)
  have c: "length (children_data ops ch) = 4096" using children_blocks(1) [OF sample_vc_laws len] "3.prems"(3) by simp
  have "opt_inv L (p @ pre @ [?i]) (child ch ?i)"
    using "3.prems"(2) by (cases "child ch ?i") (auto simp: vc_inv_simps)
  note IH = "3.IH" [OF refl _ this "3.prems"(3)]
  show ?case using "3.prems"(1,3) c IH by (auto simp: Let_def sample_vc_def)
qed simp_all

theorem proofs_verify_witness:
  "fst (tree_Verify sample_vc (run_ops sample_vc [OpInsert [2] None [] 2, OpInsert [1] (Some [7]) [] 1]) [1]
     (fst (tree_Prove sample_vc (run_ops sample_vc [OpInsert [1] (Some [7]) [] 1, OpInsert [3] None [] 1, OpInsert [2] None [] 2, OpDelete [3]]) [1])))"
proof -
  let ?h = "[OpInsert [1] (Some [7]) [] 1, OpInsert [3] None [] 1, OpInsert [2] None [] 2, OpDelete [3]]"
  have "com \<noteq> [] \<and> pr \<noteq> []" if "(com, pr) \<in> set (openings sample_vc [1] (run_ops sample_vc ?h) 0)" for com pr
    using openings_sample [OF that, of 1 "[]"] run_ops_inv [of 1 ?h sample_vc] by auto
  then show ?thesis
    by (subst proofs_verify [OF sample_vc_laws, of 0]) (auto simp: run_map_def fun_eq_iff)
qed

end
