(* ===== verification/VectorTreeLeaves.thy ===== *)
theory VectorTreeLeaves
  imports VectorTreeProofs
begin

text \<open>
  The leaves of a vector commitment tree and what is computed from them: \<open>GetAllLeaves\<close> lists every
  entry once, \<open>CompareLeaves\<close> (\<open>crypto/tree_compare.go\<close>) reports the keys at which two trees differ, and the
  counters of the root are right except after the first fork.
\<close>

section \<open>The leaves are the entries\<close>

lemma leaves_branch:
  "l \<in> set (GetAllLeaves (VBranch pre ch c sz lc lb)) \<longleftrightarrow> (\<exists>i n. child ch i = Some n \<and> l \<in> set (GetAllLeaves n))"
proof
  assume "l \<in> set (GetAllLeaves (VBranch pre ch c sz lc lb))"
  then obtain x where x: "x \<in> set ch" "l \<in> set (case map_option GetAllLeaves x of None \<Rightarrow> [] | Some ls \<Rightarrow> ls)" by auto
  then obtain n where "x = Some n" "l \<in> set (GetAllLeaves n)" by (auto split: option.splits)
  then show "\<exists>i n. child ch i = Some n \<and> l \<in> set (GetAllLeaves n)" using x(1) by (auto simp: in_set_conv_nth child_def)
next
  assume "\<exists>i n. child ch i = Some n \<and> l \<in> set (GetAllLeaves n)"
  then show "l \<in> set (GetAllLeaves (VBranch pre ch c sz lc lb))" using child_in_set by fastforce
qed

lemma leaves_are_leaves: "l \<in> set (GetAllLeaves n) \<Longrightarrow> \<exists>k v h c s. l = VLeaf k v h c s"
proof (induction n)
  case (VBranch pre ch c sz lc lb)
  then show ?case unfolding leaves_branch using child_in_set by (metis option.set_intros)
qed simp

definition leaf_entry :: "vc_node \<Rightarrow> vc_entry" where
  "leaf_entry l = (leafValue l, leafHashTarget l, leafSize l)"

lemma leaves_entry:
  assumes "vc_inv L p n"
  shows "entry_at p (Some n) k = Some e \<longleftrightarrow> (\<exists>l \<in> set (GetAllLeaves n). leafKey l = k \<and> leaf_entry l = e)"
  using assms
proof (induction arbitrary: k e rule: vc_inv.induct)
  case (Leaf k' L p v h c s)
  then show ?case by (auto simp: leaf_entry_def split: if_splits)
next
  case (Branch ch L p pre i j c sz lc lb)
  let ?B = "VBranch pre ch c sz lc lb"
  have inv: "vc_inv L p ?B" using Branch.hyps by (rule vc_inv.Branch)
  have IH: "entry_at (p @ pre @ [i]) (Some n) k = Some e \<longleftrightarrow> (\<exists>l \<in> set (GetAllLeaves n). leafKey l = k \<and> leaf_entry l = e)"
    if "child ch i = Some n" for i n k e using Branch that by (auto simp: child_def split: if_splits)
  show ?case
  proof
    assume a: "entry_at p (Some ?B) k = Some e"
    let ?i = "nib k (length p + length pre)"
    have "entry_at (p @ pre @ [?i]) (child ch ?i) k = Some e" using a by (auto simp: entry_at_branch split: if_splits)
    then obtain n where n: "child ch ?i = Some n" "entry_at (p @ pre @ [?i]) (Some n) k = Some e" by (cases "child ch ?i") auto
    then show "\<exists>l \<in> set (GetAllLeaves ?B). leafKey l = k \<and> leaf_entry l = e" using IH [OF n(1)] leaves_branch by metis
  next
    assume "\<exists>l \<in> set (GetAllLeaves ?B). leafKey l = k \<and> leaf_entry l = e"
    then obtain l where l: "l \<in> set (GetAllLeaves ?B)" "leafKey l = k" "leaf_entry l = e" by blast
    then obtain i n where n: "child ch i = Some n" "l \<in> set (GetAllLeaves n)" unfolding leaves_branch by blast
    then have "entry_at (p @ pre @ [i]) (child ch i) k = Some e" using IH [OF n(1)] l(2,3) by auto
    then show "entry_at p (Some ?B) k = Some e" using child_entries [OF inv, of i k] by (auto split: if_splits)
  qed
qed

lemma distinct_concat_nth:
  assumes "\<And>i. i < length xs \<Longrightarrow> distinct (xs ! i)"
    "\<And>i j x. i < length xs \<Longrightarrow> j < length xs \<Longrightarrow> x \<in> set (xs ! i) \<Longrightarrow> x \<in> set (xs ! j) \<Longrightarrow> i = j"
  shows "distinct (concat xs)"
  using assms
proof (induction xs)
  case (Cons x xs)
  have "distinct (concat xs)"
  proof (rule Cons.IH)
    fix i assume "i < length xs"
    then show "distinct (xs ! i)" using Cons.prems(1) [of "Suc i"] by simp
  next
    fix i j y assume "i < length xs" "j < length xs" "y \<in> set (xs ! i)" "y \<in> set (xs ! j)"
    then show "i = j" using Cons.prems(2) [of "Suc i" "Suc j" y] by simp
  qed
  moreover have "y \<notin> set (concat xs)" if y: "y \<in> set x" for y
  proof
    assume "y \<in> set (concat xs)"
    then obtain ys where "ys \<in> set xs" "y \<in> set ys" by auto
    then obtain j where "j < length xs" "y \<in> set (xs ! j)" by (metis in_set_conv_nth)
    then show False using Cons.prems(2) [of 0 "Suc j" y] y by simp
  qed
  ultimately show ?case using Cons.prems(1) [of 0] by auto
qed simp

lemma leaf_keys_distinct:
  assumes "vc_inv L p n"
  shows "distinct (map leafKey (GetAllLeaves n))"
  using assms
proof (induction rule: vc_inv.induct)
  case (Branch ch L p pre i j c sz lc lb)
  let ?f = "\<lambda>x. map leafKey (case map_option GetAllLeaves x of None \<Rightarrow> [] | Some ls \<Rightarrow> ls)"
  have inv: "vc_inv L (p @ pre @ [i]) n" "distinct (map leafKey (GetAllLeaves n))" if "child ch i = Some n" for i n
    using Branch.hyps(2) Branch.IH that by blast+
  have at: "nib k (length p + length pre) = i" if i: "i < length ch" "k \<in> set (?f (ch ! i))" for i k
  proof -
    obtain n where n: "child ch i = Some n" "k \<in> leafKey ` set (GetAllLeaves n)" 
      using i by (cases "ch ! i") (auto simp: child_def)
    then obtain l where "l \<in> set (GetAllLeaves n)" "leafKey l = k" by blast
    then have "entry_at (p @ pre @ [i]) (Some n) k = Some (leaf_entry l)" using leaves_entry [OF inv(1) [OF n(1)]] by blast
    then have "entry_at (p @ pre @ [i]) (Some n) k \<noteq> None" by simp
    then show ?thesis using entry_off_path [OF inv(1) [OF n(1)], of k] by metis
  qed
  have "distinct (concat (map ?f ch))"
  proof (rule distinct_concat_nth)
    show "distinct (map ?f ch ! i)" if "i < length (map ?f ch)" for i
      using that inv(2) [of i] by (cases "ch ! i") (auto simp: child_def)
    show "i = j" if "i < length (map ?f ch)" "j < length (map ?f ch)" "k \<in> set (map ?f ch ! i)" "k \<in> set (map ?f ch ! j)" for i j k
      using that at [of i k] at [of j k] by simp
  qed
  then show ?case by (simp add: map_concat comp_def)
qed simp

lemma tree_leaves_entry:
  assumes "opt_inv L [] t"
  shows "tree_map t k = Some e \<longleftrightarrow> (\<exists>l \<in> set (tree_leaves t). leafKey l = k \<and> leaf_entry l = e)"
    and "distinct (map leafKey (tree_leaves t))"
  using assms leaves_entry [of L "[]"] leaf_keys_distinct [of L "[]"] by (cases t; auto simp: tree_leaves_def tree_map_def)+

lemma leaf_map_entry:
  assumes "opt_inv L [] t"
  shows "map_option leaf_entry (leaf_map (tree_leaves t) k) = tree_map t k"
proof -
  let ?ls = "tree_leaves t"
  have m: "leaf_map ?ls k = Some l \<longleftrightarrow> l \<in> set ?ls \<and> leafKey l = k" for l
  proof -
    have "distinct (map fst (rev (map (\<lambda>l. (leafKey l, l)) ?ls)))"
      using tree_leaves_entry(2) [OF assms] by (simp add: rev_map [symmetric] comp_def)
    then show ?thesis by (auto simp: leaf_map_def map_of_eq_Some_iff)
  qed
  show ?thesis
  proof (cases "tree_map t k")
    case (Some e)
    then obtain l where "l \<in> set ?ls" "leafKey l = k" "leaf_entry l = e" using tree_leaves_entry(1) [OF assms] by blast
    then show ?thesis using m Some by auto
  next
    case None
    then have "leaf_map ?ls k = None" using tree_leaves_entry(1) [OF assms, of k] m by (metis not_None_eq)
    then show ?thesis using None by simp
  qed
qed

section \<open>Comparison of the leaves\<close>

text \<open>What a comparison should report for a key.\<close>

definition expected_difference :: "(bytes \<rightharpoonup> vc_entry) \<Rightarrow> (bytes \<rightharpoonup> vc_entry) \<Rightarrow> bytes \<Rightarrow> leaf_difference option" where
  "expected_difference m1 m2 k = (case (m1 k, m2 k) of
       (Some (v1, _), Some (v2, _)) \<Rightarrow>
         if as_bytes v1 = as_bytes v2 then None
         else Some \<lparr>diffKey = k, OnlyInTree1 = False, OnlyInTree2 = False, Value1 = v1, Value2 = v2\<rparr>
     | (Some (v1, _), None) \<Rightarrow> Some \<lparr>diffKey = k, OnlyInTree1 = True, OnlyInTree2 = False, Value1 = v1, Value2 = None\<rparr>
     | (None, Some (v2, _)) \<Rightarrow> Some \<lparr>diffKey = k, OnlyInTree1 = False, OnlyInTree2 = True, Value1 = None, Value2 = v2\<rparr>
     | (None, None) \<Rightarrow> None)"

lemma expected_key: "expected_difference m1 m2 k = Some d \<Longrightarrow> diffKey d = k"
  by (auto simp: expected_difference_def split: option.splits prod.splits if_splits)

lemma set_opts: "d \<in> set (concat (map (\<lambda>l. case f l of None \<Rightarrow> [] | Some x \<Rightarrow> [x]) ls)) \<longleftrightarrow> (\<exists>l \<in> set ls. f l = Some d)"
  by (induction ls) (auto split: option.splits)

lemma CompareLeaves_expected:
  assumes "opt_inv L [] t1" "opt_inv L' [] t2"
  shows "CompareLeaves t1 t2 =
    concat (map (\<lambda>l. case expected_difference (tree_map t1) (tree_map t2) (leafKey l) of None \<Rightarrow> [] | Some d \<Rightarrow> [d])
      (tree_leaves t1 @ [l \<leftarrow> tree_leaves t2. tree_map t1 (leafKey l) = None]))"
proof -
  have m: "leaf_map (tree_leaves t1) k = None \<longleftrightarrow> tree_map t1 k = None" "leaf_map (tree_leaves t2) k = None \<longleftrightarrow> tree_map t2 k = None" for k
    using leaf_map_entry [OF assms(1), of k] leaf_map_entry [OF assms(2), of k] by auto
  have e: "tree_map t2 k = Some (leaf_entry l)" if "leaf_map (tree_leaves t2) k = Some l" for k l
    using leaf_map_entry [OF assms(2), of k] that by simp
  have l1: "tree_map t1 (leafKey l) = Some (leaf_entry l)" if "l \<in> set (tree_leaves t1)" for l
    using tree_leaves_entry(1) [OF assms(1)] that by blast
  have l2: "tree_map t2 (leafKey l) = Some (leaf_entry l)" if "l \<in> set (tree_leaves t2)" for l
    using tree_leaves_entry(1) [OF assms(2)] that by blast
  have a: "(case leaf_map (tree_leaves t2) (leafKey l) of
          Some l' \<Rightarrow> if as_bytes (leafValue l) \<noteq> as_bytes (leafValue l')
            then [\<lparr>diffKey = leafKey l, OnlyInTree1 = False, OnlyInTree2 = False, Value1 = leafValue l, Value2 = leafValue l'\<rparr>] else []
        | None \<Rightarrow> [\<lparr>diffKey = leafKey l, OnlyInTree1 = True, OnlyInTree2 = False, Value1 = leafValue l, Value2 = None\<rparr>]) =
      (case expected_difference (tree_map t1) (tree_map t2) (leafKey l) of None \<Rightarrow> [] | Some d \<Rightarrow> [d])" if "l \<in> set (tree_leaves t1)" for l
    using l1 [OF that] e [of "leafKey l"] m(2) [of "leafKey l"]
    by (cases "leaf_map (tree_leaves t2) (leafKey l)") (auto simp: expected_difference_def leaf_entry_def)
  have b: "concat (map (\<lambda>l. case leaf_map (tree_leaves t1) (leafKey l) of Some _ \<Rightarrow> []
        | None \<Rightarrow> [\<lparr>diffKey = leafKey l, OnlyInTree1 = False, OnlyInTree2 = True, Value1 = None, Value2 = leafValue l\<rparr>]) ls) =
      concat (map (\<lambda>l. case expected_difference (tree_map t1) (tree_map t2) (leafKey l) of None \<Rightarrow> [] | Some d \<Rightarrow> [d])
        [l \<leftarrow> ls. tree_map t1 (leafKey l) = None])" if "set ls \<subseteq> set (tree_leaves t2)" for ls
    using that
  proof (induction ls)
    case (Cons l ls)
    then have "tree_map t2 (leafKey l) = Some (leaf_entry l)" using l2 by simp
    then show ?case using Cons m(1) [of "leafKey l"]
      by (cases "leaf_map (tree_leaves t1) (leafKey l)") (auto simp: expected_difference_def leaf_entry_def)
  qed simp
  show ?thesis using a b [of "tree_leaves t2"] by (simp add: CompareLeaves_def Let_def cong: map_cong)
qed

text \<open>
  C18: \<open>CompareLeaves\<close> reports exactly the differences of two trees: for every key that only one
  tree holds, or that the two hold with different values, the record saying so, and no other record.
\<close>

theorem CompareLeaves_exact:
  assumes "list_all (op_len (Suc L)) h1" "list_all (op_len (Suc M)) h2"
  shows "d \<in> set (CompareLeaves (run_ops ops h1) (run_ops ops h2)) \<longleftrightarrow>
    expected_difference (run_map h1) (run_map h2) (diffKey d) = Some d"
proof -
  let ?t1 = "run_ops ops h1" and ?t2 = "run_ops ops h2"
  let ?e = "expected_difference (tree_map ?t1) (tree_map ?t2)"
  have i: "opt_inv (Suc L) [] ?t1" "opt_inv (Suc M) [] ?t2" using run_ops_inv assms by blast+
  have "d \<in> set (CompareLeaves ?t1 ?t2) \<longleftrightarrow>
      (\<exists>l \<in> set (tree_leaves ?t1 @ [l \<leftarrow> tree_leaves ?t2. tree_map ?t1 (leafKey l) = None]). ?e (leafKey l) = Some d)"
    unfolding CompareLeaves_expected [OF i] by (rule set_opts)
  also have "\<dots> \<longleftrightarrow> ?e (diffKey d) = Some d"
  proof
    assume r: "?e (diffKey d) = Some d"
    then have "tree_map ?t1 (diffKey d) \<noteq> None \<or> tree_map ?t1 (diffKey d) = None \<and> tree_map ?t2 (diffKey d) \<noteq> None"
      by (auto simp: expected_difference_def split: option.splits)
    then have "\<exists>l. (l \<in> set (tree_leaves ?t1) \<or> l \<in> set (tree_leaves ?t2) \<and> tree_map ?t1 (leafKey l) = None) \<and> leafKey l = diffKey d"
      using tree_leaves_entry(1) [OF i(1), of "diffKey d"] tree_leaves_entry(1) [OF i(2), of "diffKey d"] by (metis not_None_eq)
    then obtain l where "l \<in> set (tree_leaves ?t1) \<or> l \<in> set (tree_leaves ?t2) \<and> tree_map ?t1 (leafKey l) = None" "leafKey l = diffKey d"
      by blast
    then show "\<exists>l \<in> set (tree_leaves ?t1 @ [l \<leftarrow> tree_leaves ?t2. tree_map ?t1 (leafKey l) = None]). ?e (leafKey l) = Some d"
      using r by (intro bexI [of _ l]) auto
  qed (use expected_key in metis)
  finally show ?thesis using run_ops_map assms by simp
qed

theorem CompareLeaves_exact_witness:
  "\<lparr>diffKey = [2], OnlyInTree1 = True, OnlyInTree2 = False, Value1 = Some [8], Value2 = None\<rparr> \<in>
     set (CompareLeaves (run_ops sample_vc [OpInsert [1] (Some [7]) [] 1, OpInsert [2] (Some [8]) [] 1])
       (run_ops sample_vc [OpInsert [1] (Some [7]) [] 1]))"
  by (simp add: CompareLeaves_exact [of 0 _ 0] run_map_def expected_difference_def)


section \<open>Counters\<close>

text \<open>The number of branches on the longest path.\<close>

primrec levels :: "vc_node \<Rightarrow> nat" where
  "levels (VLeaf k v h c s) = 0"
| "levels (VBranch pre ch c sz lc lb) =
     Suc (fold max (map (\<lambda>x. case x of None \<Rightarrow> 0 | Some n \<Rightarrow> n) (map (map_option levels) ch)) 0)"

definition tree_levels :: "vc_node option \<Rightarrow> nat" where
  "tree_levels t = (case t of None \<Rightarrow> 0 | Some n \<Rightarrow> levels n)"

definition meta_right :: "vc_node \<Rightarrow> bool" where
  "meta_right n \<longleftrightarrow> meta_leaves n = length (GetAllLeaves n) \<and> meta_depth n = levels n \<and>
     node_size n = Some (sum_list (map leafSize (GetAllLeaves n)))"

text \<open>A root that was just made from a leaf: its counters were never computed.\<close>

definition fresh_fork :: "vc_node \<Rightarrow> bool" where
  "fresh_fork n \<longleftrightarrow> meta_leaves n = 0 \<and> meta_depth n = 0 \<and> node_size n = None \<and> length (GetAllLeaves n) = 2"

definition root_meta :: "vc_node option \<Rightarrow> bool" where
  "root_meta t = (case t of None \<Rightarrow> True | Some n \<Rightarrow> meta_right n \<or> fresh_fork n)"

lemma recalc_same: "GetAllLeaves (recalcMetadata n) = GetAllLeaves n \<and> levels (recalcMetadata n) = levels n"
proof (induction n)
  case (VBranch pre ch c sz lc lb)
  have "map_option GetAllLeaves (map_option recalcMetadata x) = map_option GetAllLeaves x"
    "map_option levels (map_option recalcMetadata x) = map_option levels x" if "x \<in> set ch" for x
    using VBranch that by (cases x; auto)+
  then show ?case by (simp add: recalcMetadata.simps Let_def comp_def cong: map_cong)
qed simp

lemma sum_present:
  assumes "\<And>n. Some n \<in> set ch \<Longrightarrow> meta_right n"
  shows "sum_list (map meta_leaves (present ch)) = length (GetAllLeaves (VBranch pre ch c sz lc lb))"
    "sum_list (map (\<lambda>n. case node_size n of None \<Rightarrow> 0 | Some s \<Rightarrow> s) (present ch)) =
       sum_list (map leafSize (GetAllLeaves (VBranch pre ch c sz lc lb)))"
    "fold max (map meta_depth (present ch)) a = fold max (map (\<lambda>x. case x of None \<Rightarrow> 0 | Some n \<Rightarrow> n) (map (map_option levels) ch)) a"
  using assms
proof (induction ch arbitrary: a)
  case (Cons x ch)
  {
    case 1
    then show ?case using Cons(1) by (cases x) (auto simp: present_def meta_right_def)
  next
    case 2
    then show ?case using Cons(2) by (cases x) (auto simp: present_def meta_right_def)
  next
    case 3
    then show ?case using Cons(3) by (cases x) (auto simp: present_def meta_right_def)
  }
qed (simp_all add: present_def)

lemma meta_right_leaf: "meta_right (VLeaf k v h c s)"
  by (simp add: meta_right_def)

lemma recalc_right: "meta_right (recalcMetadata n)"
proof (induction n)
  case (VLeaf k v h c s)
  then show ?case by (simp add: meta_right_def)
next
  case (VBranch pre ch c sz lc lb)
  let ?ch = "map (map_option recalcMetadata) ch"
  have all: "meta_right n" if n: "Some n \<in> set ?ch" for n
  proof -
    obtain x where x: "x \<in> set ch" "Some n = map_option recalcMetadata x" using n by auto
    from x(2) obtain m where "x = Some m" "n = recalcMetadata m" by (cases x) auto
    then show ?thesis using VBranch.IH [OF x(1)] by simp
  qed
  show ?case using sum_present [of ?ch, OF all] by (simp add: recalcMetadata.simps Let_def meta_right_def del: GetAllLeaves.simps map_map)
qed

lemma length_leaves:
  "length (GetAllLeaves (VBranch pre ch c sz lc lb)) = sum_list (map (\<lambda>x. case x of None \<Rightarrow> 0 | Some n \<Rightarrow> length (GetAllLeaves n)) ch)"
  by (induction ch) (auto split: option.splits)

lemma insert_root_meta:
  assumes "insert_node k v h s t d = Some n"
  shows "meta_right n \<or> fresh_fork n"
proof (cases t)
  case None
  then show ?thesis using assms by (auto simp: meta_right_def)
next
  case (Some m)
  show ?thesis
  proof (cases m)
    case (VLeaf k' v' h' c' s')
    show ?thesis
    proof (cases "k' = k")
      case True
      then show ?thesis using assms Some VLeaf by (auto simp: meta_right_def)
    next
      case False
      then obtain sh dd where g: "getNibblesUntilDiverge k' k d [] = Some (sh, dd)" and
        n: "n = VBranch sh (no_children[getNextNibble k' dd := Some (VLeaf k' v' h' c' s'), getNextNibble k dd := Some (VLeaf k v h None s)]) None None 0 0"
        using assms Some VLeaf by (auto simp: bind_eq_Some_conv)
      have "getNextNibble k' dd \<noteq> getNextNibble k dd" using getNibblesUntilDiverge_differs [OF g] by simp
      then have "length (GetAllLeaves n) = 2"
        unfolding n length_leaves map_update using nibble_less [of k' dd] nibble_less [of k dd]
        by (simp add: sum_list_update nth_list_update no_children_def BranchNodes_def)
      then show ?thesis using n by (simp add: fresh_fork_def)
    qed
  next
    case (VBranch pre ch c sz lc lb)
    then show ?thesis using assms Some recalc_right by (auto simp: bind_eq_Some_conv Let_def split: option.splits)
  qed
qed

lemma remove_root_meta:
  assumes "root_meta t"
  shows "root_meta (remove_node k t d)"
proof (cases t)
  case (Some m)
  have c: "root_meta (collapse pre ch sz lc lb)" for pre ch sz lc lb
    by (auto simp: root_meta_def collapse_def recalc_right meta_right_leaf split: list.splits prod.splits vc_node.splits)
  show ?thesis using assms Some c by (cases m) (auto simp: Let_def root_meta_def)
qed (simp add: root_meta_def)


lemma strip_leaves: "GetAllLeaves (strip n) = map strip (GetAllLeaves n) \<and> levels (strip n) = levels n"
proof (induction n)
  case (VBranch pre ch c sz lc lb)
  have "(case map_option GetAllLeaves (map_option strip x) of None \<Rightarrow> [] | Some ls \<Rightarrow> ls) =
      map strip (case map_option GetAllLeaves x of None \<Rightarrow> [] | Some ls \<Rightarrow> ls)"
    "map_option levels (map_option strip x) = map_option levels x" if "x \<in> set ch" for x
    using VBranch that by (cases x; auto)+
  then show ?case by (simp add: map_concat comp_def cong: map_cong option.case_cong)
qed simp

lemma kept_leaves:
  assumes "strip n' = strip n"
  shows "length (GetAllLeaves n') = length (GetAllLeaves n) \<and> map leafSize (GetAllLeaves n') = map leafSize (GetAllLeaves n) \<and>
    levels n' = levels n"
proof -
  have z: "leafSize (strip l) = leafSize l" if "l \<in> set (GetAllLeaves m)" for l m using leaves_are_leaves [OF that] by auto
  have "map leafSize (GetAllLeaves m) = map leafSize (GetAllLeaves (strip m))" "length (GetAllLeaves m) = length (GetAllLeaves (strip m))" for m
    using z strip_leaves [of m] by auto
  then show ?thesis using strip_leaves [of n] strip_leaves [of n'] assms by metis
qed

lemma root_meta_kept:
  assumes "kept ops n n'" "meta_leaves n' = meta_leaves n" "meta_depth n' = meta_depth n" "node_size n' = node_size n"
    "meta_right n \<or> fresh_fork n"
  shows "meta_right n' \<or> fresh_fork n'"
  using kept_leaves [of n' n] assms by (auto simp: kept_def meta_right_def fresh_fork_def)

text \<open>Commits, proofs and verifications leave the counters of the root.\<close>

lemma run_op_counters:
  assumes "run_op ops (Some n) x = Some n'" "\<And>k v h s. x \<noteq> OpInsert k v h s" "\<And>k. x \<noteq> OpDelete k"
  shows "meta_leaves n' = meta_leaves n \<and> meta_depth n' = meta_depth n \<and> node_size n' = node_size n"
proof (cases x)
  case (OpVerify k ps)
  then show ?thesis using assms by (cases n; cases ps)
    (auto simp: tree_Verify_def Let_def split: prod.splits if_splits)
qed (use assms in \<open>cases n; auto simp: tree_Commit_def tree_Prove_def Let_def split: prod.splits if_splits\<close>)+

lemma run_op_root_meta:
  assumes "root_meta t" "opt_inv (Suc L) [] t" "\<And>n. t = Some n \<Longrightarrow> cached_ok ops n" "op_len (Suc L) x"
  shows "root_meta (run_op ops t x)"
proof -
  consider (ins) k v h s where "x = OpInsert k v h s" | (del) k where "x = OpDelete k"
    | (keep) "\<And>k v h s. x \<noteq> OpInsert k v h s" "\<And>k. x \<noteq> OpDelete k" by (cases x) auto
  then show ?thesis
  proof cases
    case ins
    then obtain n where n: "tree_Insert t k v h s = Some (Inr (Some n))"
      using tree_Insert_returns [of "Suc L" t k v h s] assms(2,4) by auto
    then have "insert_node k v h s t 0 = Some n" by (auto simp: tree_Insert_def split: if_splits)
    then show ?thesis using insert_root_meta n ins by (auto simp: put_tree_def root_meta_def)
  next
    case del
    then show ?thesis using remove_root_meta [OF assms(1)] assms(1) by (simp add: del_tree_def tree_Delete_def)
  next
    case keep
    then have r: "rel_option (kept ops) t (run_op ops t x)" using run_op_kept [of t ops, OF assms(3)] by (cases x) auto
    show ?thesis
    proof (cases t)
      case (Some n)
      then obtain n' where "run_op ops t x = Some n'" "kept ops n n'" using r by (auto simp: option_rel_Some1)
      then show ?thesis using root_meta_kept run_op_counters [of ops n x n'] keep assms(1) Some by (simp add: root_meta_def)
    qed (use r in \<open>simp add: root_meta_def\<close>)
  qed
qed

lemma run_ops_root_meta: "list_all (op_len (Suc L)) h \<Longrightarrow> root_meta (run_ops ops h)"
proof (induction h rule: rev_induct)
  case (snoc x h)
  then show ?case using run_op_root_meta [of "run_ops ops h" L ops x] run_ops_inv [of "Suc L" h ops] by (simp add: run_ops_def)
qed (simp add: run_ops_def root_meta_def)

lemma card_entries:
  assumes "opt_inv L [] t"
  shows "card (dom (tree_map t)) = length (tree_leaves t)"
proof -
  have "tree_map t k \<noteq> None \<longleftrightarrow> k \<in> leafKey ` set (tree_leaves t)" for k
    using tree_leaves_entry(1) [OF assms, of k] by (metis (no_types, lifting) image_iff not_None_eq)
  then have "dom (tree_map t) = leafKey ` set (tree_leaves t)" by (simp add: dom_def)
  then show ?thesis using distinct_card [OF tree_leaves_entry(2) [OF assms]] by simp
qed

text \<open>
  C17: \<open>GetMetadata\<close> and \<open>GetSize\<close>. After any history over keys of one length, a tree with entries
  reports their number, the number of branches on its longest path and the sum of their sizes; the
  one exception is a tree of two entries, which may still report zero leaves, depth zero and a nil
  size (after the insertion that turned the leaf at its root into a branch).
\<close>

theorem metadata_right:
  assumes "list_all (op_len (Suc L)) h" "t = run_ops ops h" "run_map h \<noteq> Map.empty"
  shows "tree_GetMetadata t = (card (dom (run_map h)), tree_levels t) \<and>
      tree_GetSize t = Inr (Some (sum_list (map leafSize (tree_leaves t)))) \<or>
    card (dom (run_map h)) = 2 \<and> tree_GetMetadata t = (0, 0) \<and> tree_GetSize t = Inr None"
proof -
  have "card (dom (run_map h)) = length (tree_leaves t)"
    using card_entries run_ops_inv [OF assms(1)] run_ops_map [OF assms(1)] assms(2) by (metis zero_less_Suc)
  moreover have "tree_map None = Map.empty" by (simp add: tree_map_def fun_eq_iff)
  then have "t \<noteq> None" using assms run_ops_map [OF assms(1), of ops] by metis
  ultimately show ?thesis using run_ops_root_meta [OF assms(1), of ops] assms(2)
    by (auto simp: root_meta_def meta_right_def fresh_fork_def tree_GetMetadata_def tree_GetSize_def tree_leaves_def tree_levels_def derefE_def)
qed

theorem metadata_right_witness:
  "tree_GetMetadata (run_ops sample_vc [OpInsert [1] None [] 1, OpInsert [2] None [] 1, OpInsert [3] None [] 1]) =
     (3, tree_levels (run_ops sample_vc [OpInsert [1] None [] 1, OpInsert [2] None [] 1, OpInsert [3] None [] 1]))"
  using metadata_right [of 0 "[OpInsert [1] None [] 1, OpInsert [2] None [] 1, OpInsert [3] None [] 1]" _ sample_vc, OF _ refl]
  by (simp add: run_map_def)

text \<open>
  The second insertion loses the counters. Inserting two different keys of one length into
  an empty tree leaves a tree that reports no leaves, no depth and a nil size.
\<close>

lemma second_insert_loses_metadata:
  assumes "length k = Suc L" "length k' = Suc L" "k \<noteq> k'"
  shows "tree_GetMetadata (run_ops ops [OpInsert k v h s, OpInsert k' v' h' s']) = (0, 0) \<and>
    tree_GetSize (run_ops ops [OpInsert k v h s, OpInsert k' v' h' s']) = Inr None"
proof -
  have "getNibblesUntilDiverge k k' 0 [] \<noteq> None"
  proof -
    obtain n where "tree_Insert (Some (VLeaf k v h None s)) k' v' h' s' = Some (Inr (Some n))"
      using tree_Insert_returns [of "Suc L" "Some (VLeaf k v h None s)" k' v' h' s'] assms by (auto simp: vc_inv_simps nibs_def)
    then show ?thesis using assms by (auto simp: tree_Insert_def bind_eq_Some_conv split: if_splits)
  qed
  then show ?thesis using assms
    by (auto simp: run_ops_def put_tree_def tree_Insert_def tree_GetMetadata_def tree_GetSize_def derefE_def)
qed

section \<open>Comparison by commitments\<close>

text \<open>The nodes of a tree with their heights, from left to right.\<close>

primrec node_levels :: "vc_node \<Rightarrow> nat \<Rightarrow> (nat \<times> vc_node) list" where
  "node_levels (VLeaf k v h c s) = (\<lambda>d. [(d, VLeaf k v h c s)])"
| "node_levels (VBranch pre ch c sz lc lb) = (\<lambda>d. (d, VBranch pre ch c sz lc lb) #
     concat (map (\<lambda>x. case x of None \<Rightarrow> [] | Some f \<Rightarrow> f (d + length pre + 1)) (map (map_option node_levels) ch)))"

definition child_levels :: "vc_node option \<Rightarrow> nat \<Rightarrow> (nat \<times> vc_node) list" where
  "child_levels x d = (case x of None \<Rightarrow> [] | Some n \<Rightarrow> node_levels n d)"

lemma node_levels_branch:
  "node_levels (VBranch pre ch c sz lc lb) d = (d, VBranch pre ch c sz lc lb) # concat (map (\<lambda>x. child_levels x (d + length pre + 1)) ch)"
proof -
  have "(case map_option node_levels x of None \<Rightarrow> [] | Some f \<Rightarrow> f (d + length pre + 1)) = child_levels x (d + length pre + 1)" for x
    by (simp add: child_levels_def split: option.split)
  then show ?thesis by (simp only: node_levels.simps(2) map_map comp_def)
qed

declare node_levels.simps(2) [simp del]

lemma children_height: "Some n \<in> set ch \<Longrightarrow> getHeight n + 1 + length pre \<le> getHeight (VBranch pre ch c sz lc lb)"
proof -
  assume n: "Some n \<in> set ch"
  have "x \<le> fold max xs m" if "x \<in> set xs \<or> x \<le> m" for x m :: nat and xs
    using that by (induction xs arbitrary: m) (auto simp: le_max_iff_disj)
  moreover have "getHeight n \<in> set (map (\<lambda>x. case x of None \<Rightarrow> 0 | Some n \<Rightarrow> n) (map (map_option getHeight) ch))"
    using n by (force simp: image_iff)
  ultimately show ?thesis by simp
qed

lemma node_levels_range: "(g, m) \<in> set (node_levels n d) \<Longrightarrow> d \<le> g \<and> g \<le> d + getHeight n"
proof (induction n arbitrary: d)
  case (VBranch pre ch c sz lc lb)
  show ?case
  proof (cases "(g, m) = (d, VBranch pre ch c sz lc lb)")
    case False
    then obtain n where n: "Some n \<in> set ch" "(g, m) \<in> set (node_levels n (d + length pre + 1))"
      using VBranch.prems by (auto simp: node_levels_branch child_levels_def split: option.splits)
    then show ?thesis using VBranch.IH [OF n(1) _ n(2)] children_height [OF n(1), of pre c sz lc lb]
      by (simp add: add.assoc del: getHeight.simps)
  qed simp
qed simp

abbreviation level_match :: "vc_ops \<Rightarrow> nat \<times> vc_node \<Rightarrow> comparison_result" where
  "level_match ops x \<equiv> \<lparr>Path = [], Height = fst x, Commit1 = commitment ops (snd x), Commit2 = commitment ops (snd x), Matches = True\<rparr>"

lemma concat_children:
  assumes "length ch = BranchNodes"
  shows "concat (map (\<lambda>i. f (child ch i)) [0..<BranchNodes]) = concat (map f ch)"
proof -
  have "map (\<lambda>i. f (child ch i)) [0..<BranchNodes] = map f ch"
    by (rule nth_equalityI) (use assms in \<open>simp_all add: child_def\<close>)
  then show ?thesis by simp
qed

lemma compare_nodes_same:
  assumes "strip a = strip b" "cached_ok ops a" "cached_ok ops b" "vc_inv L p a"
  shows "compareLevelCommits ops g (Some a) (Some b) c = map (level_match ops) (filter (\<lambda>x. fst x = g) (node_levels a c))"
  using assms
proof (induction a arbitrary: b c p)
  case (VLeaf k v h c' s)
  then show ?case
    using commit_cached [OF VLeaf.prems(2), of False] commit_cached [OF VLeaf.prems(3), of False] commitment_strip [of ops b]
      commitment_strip [of ops "VLeaf k v h c' s"]
    by (cases b) (simp_all add: compareLevelCommits.simps [of _ _ "Some _"] Let_def del: commit_node.simps)
next
  case (VBranch pre ch c1 s1 lc1 lb1)
  let ?a = "VBranch pre ch c1 s1 lc1 lb1"
  obtain ch2 c2 s2 lc2 lb2 where b: "b = VBranch pre ch2 c2 s2 lc2 lb2" "map (map_option strip) ch2 = map (map_option strip) ch"
    using VBranch.prems(1) by (cases b) auto
  have cm: "fst (commit_node ops False ?a) = commitment ops ?a" "fst (commit_node ops False b) = commitment ops ?a"
    using commit_cached [OF VBranch.prems(2)] commit_cached [OF VBranch.prems(3)] VBranch.prems(1) commitment_strip by metis+
  have len: "length ch = BranchNodes" using VBranch.prems(4) by (simp add: vc_inv_simps BranchNodes_def)
  have ch: "compareLevelCommits ops g (child ch i) (child ch2 i) d =
      map (level_match ops) (filter (\<lambda>x. fst x = g) (child_levels (child ch i) d))" for i d
  proof -
    have "map_option strip (child ch2 i) = map_option strip (child ch i)"
      using child_map [of strip ch2 i] child_map [of strip ch i] b(2) by metis
    then consider "child ch i = None" "child ch2 i = None"
      | n m where "child ch i = Some n" "child ch2 i = Some m" "strip n = strip m" by (cases "child ch i"; cases "child ch2 i") auto
    then show ?thesis
    proof cases
      case 1
      then show ?thesis by (simp add: compareLevelCommits.simps child_levels_def)
    next
      case (2 n m)
      have "vc_inv L (p @ pre @ [i]) n" using VBranch.prems(4) 2(1) by (auto simp: vc_inv_simps)
      then show ?thesis
        using VBranch.IH [OF child_in_set [OF 2(1)] _ 2(3)] cached_child VBranch.prems(2,3) b(1) 2
        by (simp add: child_levels_def)
    qed
  qed
  have rest: "filter (\<lambda>x. fst x = g) (concat (map (\<lambda>x. child_levels x (c + length pre + 1)) ch)) = []" if "g \<le> c + length pre"
    using that by (fastforce simp: filter_empty_conv child_levels_def dest: node_levels_range split: option.splits)
  have all: "concat (map (\<lambda>i. compareLevelCommits ops g (child ch i) (child ch2 i) (c + length pre + 1)) [0..<BranchNodes]) =
      map (level_match ops) (filter (\<lambda>x. fst x = g) (concat (map (\<lambda>x. child_levels x (c + length pre + 1)) ch)))"
    using concat_children [OF len, of "\<lambda>x. map (level_match ops) (filter (\<lambda>x. fst x = g) (child_levels x (c + length pre + 1)))"]
    by (simp add: ch filter_concat map_concat comp_def)
  show ?case
  proof (cases "c = g")
    case True
    then show ?thesis using rest
      by (simp add: compareLevelCommits.simps [of _ _ "Some ?a"] cm Let_def node_levels_branch del: commit_node.simps)
  next
    case False
    then show ?thesis using rest all
      by (simp add: compareLevelCommits.simps [of _ _ "Some ?a"] b(1) node_levels_branch)
  qed
qed

lemma levels_sorted:
  assumes "\<And>x. x \<in> set xs \<Longrightarrow> f x < N"
  shows "concat (map (\<lambda>g. filter (\<lambda>x. f x = g) xs) [0..<N]) = sort_key f xs"
proof -
  define ys where "ys N = concat (map (\<lambda>g. filter (\<lambda>x. f x = g) xs) [0..<N])" for N
  have step: "ys (Suc N) = ys N @ filter (\<lambda>x. f x = N) xs" for N by (simp add: ys_def)
  have set: "set (ys N) = {x \<in> set xs. f x < N}" for N by (auto simp: ys_def)
  have level: "sorted (map f (filter (\<lambda>x. f x = N) xs))" for N by (induction xs) auto
  have m: "mset (ys N) = mset (filter (\<lambda>x. f x < N) xs)" for N
  proof (induction N)
    case (Suc N)
    have "mset (filter (\<lambda>x. f x < Suc N) xs) = mset (filter (\<lambda>x. f x < N) xs) + mset (filter (\<lambda>x. f x = N) xs)"
      by (induction xs) auto
    then show ?case using Suc.IH by (simp add: step)
  qed (simp add: ys_def)
  have s: "sorted (map f (ys N))" for N
  proof (induction N)
    case (Suc N)
    have "\<forall>x \<in> set (map f (ys N)). \<forall>y \<in> set (map f (filter (\<lambda>x. f x = N) xs)). x \<le> y" by (auto simp: set)
    then show ?case using Suc.IH level by (simp add: step sorted_append)
  qed (simp add: ys_def)
  have k: "filter (\<lambda>x. f k = f x) (ys N) = (if f k < N then filter (\<lambda>x. f k = f x) xs else [])" for k N
  proof (induction N)
    case (Suc N)
    have "filter (\<lambda>x. f k = f x) (filter (\<lambda>x. f x = N) xs) = (if f k = N then filter (\<lambda>x. f k = f x) xs else [])"
      by (auto simp: filter_empty_conv intro!: filter_cong)
    then show ?case using Suc.IH by (auto simp: step less_Suc_eq)
  qed (simp add: ys_def)
  have "filter (\<lambda>x. f x < N) xs = xs" using assms by (simp add: filter_id_conv)
  then have "mset (ys N) = mset xs" using m [of N] by simp
  then have "sort_key f xs = ys N"
    by (rule properties_for_sort_key) (use k s set in auto)
  then show ?thesis by (simp add: ys_def)
qed

lemma compare_Matches:
  "r \<in> set (compareLevelCommits ops g n1 n2 h) \<Longrightarrow> Matches r \<longleftrightarrow> Commit1 r = Commit2 r"
proof (induction ops g n1 n2 h rule: compareLevelCommits.induct)
  case (1 ops g n1 n2 h)
  show ?case
  proof (cases "(n1 = None \<and> n2 = None) \<or> h = g")
    case True
    then show ?thesis using "1.prems" by (auto simp: compareLevelCommits.simps [of ops g n1 n2 h] Let_def split: if_splits)
  next
    case False
    then obtain pre1 ch1 c1 s1 lc1 lb1 pre2 ch2 c2 s2 lc2 lb2 i where n: "n1 = Some (VBranch pre1 ch1 c1 s1 lc1 lb1)"
      "n2 = Some (VBranch pre2 ch2 c2 s2 lc2 lb2)" "h + length pre1 < g" "i \<in> set [0..<BranchNodes]"
      "r \<in> set (compareLevelCommits ops g (child ch1 i) (child ch2 i) (h + length pre1 + 1))"
      using "1.prems" by (auto simp: compareLevelCommits.simps [of ops g n1 n2 h] split: if_splits option.splits vc_node.splits)
    show ?thesis
      by (rule "1.IH" [OF _ _ _ n(1) refl n(2) refl n(3) n(4) n(5)]) (use False n in auto)
  qed
qed

text \<open>
  C19: what comparison by commitments reports. For two trees over keys of one length that are not
  empty, the first record compares the commitments of the roots, and every record is a match
  exactly if its two commitments are equal. If the trees have the same contents, the records are
  those of all the nodes of the tree, level by level and from left to right, each once with its
  height and its commitment on both sides, and all are matches. \<open>CompareTreesAtHeight\<close> returns the
  same records, a list for every height.
\<close>

theorem compare_reports_nodes:
  assumes "list_all (op_len (Suc L)) h1" "list_all (op_len (Suc L)) h2" "run_ops ops h1 = Some n1" "run_ops ops h2 = Some n2"
    and "rs = TraverseAndCompare ops (Some n1) (Some n2)"
  shows "rs \<noteq> [] \<and> hd rs = \<lparr>Path = [], Height = 0, Commit1 = commitment ops n1, Commit2 = commitment ops n2,
       Matches = (commitment ops n1 = commitment ops n2)\<rparr> \<and>
     list_all (\<lambda>r. Matches r \<longleftrightarrow> Commit1 r = Commit2 r) rs \<and>
     concat (CompareTreesAtHeight ops (Some n1) (Some n2)) = rs \<and>
     (run_map h1 = run_map h2 \<longrightarrow> rs = map (\<lambda>(d, n). \<lparr>Path = [], Height = d, Commit1 = commitment ops n,
        Commit2 = commitment ops n, Matches = True\<rparr>) (sort_key fst (node_levels n1 0)))"
proof -
  have i: "vc_inv (Suc L) [] n1" "vc_inv (Suc L) [] n2" "cached_ok ops n1" "cached_ok ops n2"
    using run_ops_inv [OF assms(1), of ops] run_ops_inv [OF assms(2), of ops] assms(3,4) by auto
  have root: "compareLevelCommits ops 0 (Some n1) (Some n2) 0 = [\<lparr>Path = [], Height = 0, Commit1 = commitment ops n1,
      Commit2 = commitment ops n2, Matches = (commitment ops n1 = commitment ops n2)\<rparr>]"
    using i(3,4) by (simp add: compareLevelCommits.simps [of ops 0 "Some n1" "Some n2" 0] Let_def commit_cached)
  have rs: "rs = concat (map (\<lambda>g. compareLevelCommits ops g (Some n1) (Some n2) 0) [0..<Suc (max (getHeight n1) (getHeight n2))])"
    using assms(5) by (simp add: TraverseAndCompare_def getMaxHeight_def Let_def)
  have "rs = map (level_match ops) (sort_key fst (node_levels n1 0))" if "run_map h1 = run_map h2"
  proof -
    have "tree_map (Some n1) = tree_map (Some n2)" using run_ops_map [OF assms(1)] run_ops_map [OF assms(2)] assms(3,4) that by metis
    then have "strip n1 = strip n2" using contents_shape [of "Suc L" "Some n1" "Some n2"] i by simp
    then have "compareLevelCommits ops g (Some n1) (Some n2) 0 =
        map (level_match ops) (filter (\<lambda>x. fst x = g) (node_levels n1 0))" for g
      by (rule compare_nodes_same [OF _ i(3,4,1)])
    then have "rs = map (level_match ops)
        (concat (map (\<lambda>g. filter (\<lambda>x. fst x = g) (node_levels n1 0)) [0..<Suc (max (getHeight n1) (getHeight n2))]))"
      using rs by (simp add: map_concat comp_def)
    moreover have "fst x < Suc (max (getHeight n1) (getHeight n2))" if "x \<in> set (node_levels n1 0)" for x
      using node_levels_range [of "fst x" "snd x" n1 0] that by (simp add: less_Suc_eq_le le_max_iff_disj)
    ultimately show ?thesis using levels_sorted [of "node_levels n1 0" fst "Suc (max (getHeight n1) (getHeight n2))"] by (simp only:)
  qed
  then have "run_map h1 = run_map h2 \<longrightarrow> rs = map (\<lambda>(d, n). level_match ops (d, n)) (sort_key fst (node_levels n1 0))"
    by (simp add: case_prod_unfold)
  moreover have "list_all (\<lambda>r. Matches r \<longleftrightarrow> Commit1 r = Commit2 r) rs" unfolding rs by (auto simp: list_all_iff compare_Matches)
  moreover have "rs = compareLevelCommits ops 0 (Some n1) (Some n2) 0 @
      concat (map (\<lambda>g. compareLevelCommits ops g (Some n1) (Some n2) 0) [Suc 0..<Suc (max (getHeight n1) (getHeight n2))])"
    unfolding rs by (subst upt_conv_Cons) simp_all
  then have "rs \<noteq> [] \<and> hd rs = \<lparr>Path = [], Height = 0, Commit1 = commitment ops n1, Commit2 = commitment ops n2,
       Matches = (commitment ops n1 = commitment ops n2)\<rparr>" unfolding root by simp
  moreover have "concat (CompareTreesAtHeight ops (Some n1) (Some n2)) = rs"
    unfolding assms(5) CompareTreesAtHeight_def TraverseAndCompare_def by (rule refl)
  ultimately show ?thesis by simp
qed

theorem compare_reports_nodes_witness:
  "\<exists>n1 n2. run_ops sample_vc [OpInsert [1] None [] 1, OpInsert [2] None [] 1] = Some n1 \<and>
     run_ops sample_vc [OpInsert [2] None [] 1, OpCommit False, OpInsert [1] None [] 1] = Some n2 \<and>
     list_all Matches (TraverseAndCompare sample_vc (Some n1) (Some n2)) \<and>
     length (TraverseAndCompare sample_vc (Some n1) (Some n2)) = length (node_levels n1 0)"
proof -
  let ?h1 = "[OpInsert [1] None [] 1, OpInsert [2] None [] 1]" and ?h2 = "[OpInsert [2] None [] 1, OpCommit False, OpInsert [1] None [] 1]"
  have m: "run_map ?h1 = run_map ?h2" "run_map ?h1 [1] \<noteq> None" by (auto simp: run_map_def fun_eq_iff)
  have "tree_map (run_ops sample_vc ?h1) = run_map ?h1" "tree_map (run_ops sample_vc ?h2) = run_map ?h2"
    by (rule run_ops_map [of 0]; simp)+
  moreover have "tree_map None [1] = None" by (simp add: tree_map_def)
  ultimately obtain n1 n2 where n: "run_ops sample_vc ?h1 = Some n1" "run_ops sample_vc ?h2 = Some n2"
    using m by (metis option.exhaust)
  from compare_reports_nodes [of 0 ?h1 ?h2 sample_vc, OF _ _ n refl] m(1)
  have "TraverseAndCompare sample_vc (Some n1) (Some n2) = map (level_match sample_vc) (sort_key fst (node_levels n1 0))"
    by (simp add: case_prod_unfold)
  then show ?thesis using n by (auto simp: list_all_iff)
qed

end
