(* ===== verification/Spec2Isabelle.thy ===== *)
theory Spec2Isabelle
  imports RollingTrie MinHeap Validation InMemKVDB StoreKeys CoinStore Bloom ProofLeaf TokenHandlers HandlerSafety Mint MintSafety TokenAppSafety VectorTreeLeaves
begin

text \<open>
  A verification library for the Quilibrium node (\<open>src/node\<close>): the token application with its
  requests, mints and rewards, the messages and signatures it accepts, the tries and trees it reads,
  and the stores under it. Paths below are relative to \<open>src/node\<close>.

  \<^bold>\<open>How the parts interact.\<close> A frame carries requests (\<open>Messages\<close>). \<open>ApplyTransitions\<close> (\<open>TokenApp\<close>)
  orders them with the heap of \<open>MinHeap\<close>, admits the mints by the prover tries of \<open>RollingTrie\<close>,
  calls one handler for each of the other requests (\<open>TokenHandlers\<close>) with a shared map of locked
  keys, and pays the mints (\<open>Mint\<close>). Every handler first calls \<open>Validate\<close> (\<open>Validation\<close>) and reads
  coins and proofs from the coin store (\<open>CoinStore\<close>), which is written over a key-value database
  (\<open>KVDB\<close>, \<open>InMemKVDB\<close>) under the keys of \<open>StoreKeys\<close>. Mints check Merkle proofs of work
  (\<open>ProofLeaf\<close>) and compute rewards in 53-bit floats (\<open>BigFloat\<close>); the address filter is a Bloom
  filter (\<open>Bloom\<close>). The vector commitment tree (\<open>VectorTree\<close> and the four theories after it) commits
  to state.

  \<^bold>\<open>Conventions\<close> (\<open>Prelude\<close>). Bytes are \<open>8 word\<close>, byte strings lists of them; 32- and 64-bit
  integers are words and wrap; \<open>big.Int\<close> values that are never negative are naturals. A function
  that can fail returns \<open>go_err + 'a\<close>; a run-time panic (an index out of range, a nil pointer, a
  \<open>FillBytes\<close> that does not fit) is the error \<open>Panic\<close>. Pointers that may be nil are options. Methods
  that change a receiver return the new one. Hashes, curves, protobuf encoding and the Merkle tree
  package are arguments, in the records \<open>crypto_ops\<close>, \<open>merkle_ops\<close>, \<open>vc_ops\<close>, \<open>coin_codec\<close> and
  \<open>frame_codec\<close>; what a property needs of them is a named hypothesis (\<open>hashes_ok\<close>, \<open>merkle_laws\<close>,
  \<open>vc_laws\<close>, \<open>codec_ok\<close>) that a sample instance satisfies. Definitions keep the names of the source.

  \<^bold>\<open>Theories, definitions and lemmas.\<close>
  \<^item> \<open>Interfaces\<close>: the contracts \<open>key_map\<close> (lookup after insert and delete), \<open>prio_queue\<close> (a queue
    over a multiset) and \<open>spending_handler\<close> (locks grow, nothing locked is spent, what is created is
    worth what is spent) as locales, with the facts about runs that follow from them. \<open>KVDB\<close> has the
    locale \<open>kvdb\<close> for \<open>store/kvdb.go\<close>. Each is interpreted on the model: \<open>cbm\<close> on the crit-bit tree,
    \<open>vcm\<close> on the vector commitment tree, \<open>mh\<close> on the heap, \<open>th\<close> and \<open>tp\<close> on the request handlers
    (for coins and for prover keys), \<open>imdb\<close> on the in-memory database.
  \<^item> \<open>CritBit\<close> (\<open>tries/critbit_trie.go\<close>): internal and external nodes, one function per method. With
    keys of one length the tree is a map, \<open>Walk\<close> is in order, \<open>Minimum\<close> and \<open>Maximum\<close> are the ends;
    with other keys it is not.
  \<^item> \<open>RollingTrie\<close> (\<open>tries/rolling_frecency_critbit_trie.go\<close>): the prover tries. \<open>Contains\<close> and \<open>Get\<close>
    follow the history of additions and removals; the neighbours of the zero address are sorted.
  \<^item> \<open>MinHeap\<close> (\<open>tries/minheap.go\<close>): pushing and popping sorts by priority.
  \<^item> \<open>Messages\<close>, \<open>Validation\<close> (\<open>protobufs/\<close>): messages as records and datatypes; for every request the
    signed payload, \<open>Validate\<close> and \<open>SignED448\<close>. Signing then validating succeeds, a payload
    determines the request it was signed for, and the inputs on which \<open>Validate\<close> panics are
    characterised.
  \<^item> \<open>KVDB\<close>, \<open>InMemKVDB\<close> (\<open>store/kvdb.go\<close>, \<open>store/inmem.go\<close>): the database as a map with a sorted
    list of keys, its iterators and transactions; committed transactions refine changes of a map.
  \<^item> \<open>StoreKeys\<close>, \<open>CoinStore\<close> (\<open>store/coin.go\<close>, keys of \<open>store/clock.go\<close>): the key layout is injective;
    puts and deletions refine a map of coins and an index by owner.
  \<^item> \<open>Bloom\<close> (\<open>p2p/bloom_utils.go\<close>): sizes, number of ones, and which chunks the indices are.
  \<^item> \<open>ProofLeaf\<close> (\<open>tries/proof_leaf.go\<close>): packing outputs into a Merkle proof and verifying it; a
    packed proof unpacks to its root, count and frame number.
  \<^item> \<open>TokenHandlers\<close>, \<open>HandlerSafety\<close> (\<open>token_handle_*.go\<close> but minting): over the requests of a frame
    no coin is spent twice, value is conserved, only owners spend, prover keys change at most once;
    exact outcome of a split; no panics under stated conditions.
  \<^item> \<open>BigFloat\<close>, \<open>Mint\<close>, \<open>MintSafety\<close> (\<open>token_handle_mint.go\<close>): \<open>preProcessMint\<close>, \<open>handleMint\<close>,
    \<open>PomwBasis\<close> on floats with their rounding. What a mint pays and what it rests on; a prover that
    follows the protocol is paid; the inputs that panic or do not end.
  \<^item> \<open>TokenApp\<close>, \<open>TokenAppSafety\<close> (\<open>token_application.go\<close>): reading a frame and \<open>ApplyTransitions\<close>, one
    slot per request for the five arrays of the source. Every request is accounted for; value is
    conserved up to what mints prove; successes are applied alike by every node.
  \<^item> \<open>VectorTree\<close> (\<open>crypto/proof_tree.go\<close>, \<open>crypto/tree_compare.go\<close>), \<open>VectorTreeMap\<close>,
    \<open>VectorTreeCommit\<close>, \<open>VectorTreeProofs\<close>, \<open>VectorTreeLeaves\<close>: the tree refines a map, insertion ends,
    caches are right, the commitment depends on the contents only, when proofs verify, the counters,
    and what the comparisons report.

  \<^bold>\<open>Loops and bounds.\<close> Structural loops are recursive functions. The scans of \<open>InMemKVDB\<close> and the
  index loop of \<open>Bloom\<close> take fuel, and the properties show that the fuel used is enough: a scan has at most one step per key, the index loop reads one chunk of the
  digest per step. Loops that need not end are option-valued partial functions (drawing indices in
  \<open>ProofLeaf\<close>, diverging nibbles in \<open>VectorTree\<close>); \<open>None\<close> is the loop that does not end, and the
  properties say when they return. The frame number is below \<open>2 ^ 64 - 737280\<close> where rewards are
  computed, since the reward wraps around above. Histories of the trees have keys of one length.

  \<^bold>\<open>Concurrency.\<close> The goroutines of \<open>ApplyTransitions\<close> write only their own slot and are run in order; a
  phase in which one does not end does not end. Mutexes are not modelled.

  \<^bold>\<open>Not modelled.\<close> The consensus engines and time reels, the peer-to-peer layer and the RPC servers
  (goroutines, timers and network); the clock, key, data proof and hypergraph stores beyond their
  keys, and the pebble database; the hypergraph; the execution engine and the genesis; frame proofs,
  KZG and the channel ratchets (arithmetic on curves); configuration, wiring and the client;
  generated protobuf code; the Rust crates and the vendored libraries.
\<close>

end
